(* ===== verification/Prelude.thy ===== *)
theory Prelude
  imports Main "HOL-Library.Word"
begin

text \<open>
  Shared vocabulary of the MiniDB development.

  \<^item> \<open>db_error\<close> and the result type \<open>'a res\<close>: every C++ exception the sources throw or
    let escape, and every point where an operation would read or write outside an
    object (undefined behaviour), is a value.  \<open>bindE\<close> sequences fallible steps.
  \<^item> \<open>byte\<close>: the C++ \<open>char\<close> of page buffers, log buffers and strings is the 8-bit
    type \<^typ>\<open>char\<close>, so that a \<open>std::string\<close> and the bytes it is copied to are the
    same list.
  \<^item> the wrap-around of unsigned machine integers (\<open>to_u16\<close>, \<open>to_u32\<close>), the range of \<open>int\<close> and the
    conversions between the two; the bytes of integers and byte ranges are in theory \<open>Bytes\<close>.
  \<^item> fallible loops (\<open>foldE\<close>, \<open>mapE\<close>) and generic facts on lists.
\<close>

section \<open>Errors as values\<close>

datatype db_error =
    RuntimeError string      \<comment> \<open>\<open>std::runtime_error\<close> with its message\<close>
  | OutOfRange string        \<comment> \<open>\<open>std::out_of_range\<close>\<close>
  | InvalidArgument string   \<comment> \<open>\<open>std::invalid_argument\<close> (from \<open>std::stoi\<close>)\<close>
  | BadVariantAccess         \<comment> \<open>\<open>std::bad_variant_access\<close> (from \<open>std::get\<close>)\<close>
  | BadFunctionCall          \<comment> \<open>\<open>std::bad_function_call\<close> (call of an empty \<open>std::function\<close>)\<close>
  | UndefinedBehaviour string \<comment> \<open>an access outside an object or through a dangling reference\<close>
  | OutOfFuel                \<comment> \<open>the recursion bound of a model was too small; the theorems that an operation returns exclude it\<close>

type_synonym 'a res = "db_error + 'a"
type_synonym byte = char

named_theorems res_simps \<open>evaluation of fallible steps\<close>

definition bindE :: "'a res \<Rightarrow> ('a \<Rightarrow> 'b res) \<Rightarrow> 'b res" where
  "bindE m f = (case m of Inl e \<Rightarrow> Inl e | Inr x \<Rightarrow> f x)"

lemma bindE_simps [simp, res_simps]:
  "bindE (Inl e) f = Inl e"
  "bindE (Inr x) f = f x"
  by (simp_all add: bindE_def)

lemma bindE_Inr_iff: "bindE m f = Inr y \<longleftrightarrow> (\<exists>x. m = Inr x \<and> f x = Inr y)"
  by (cases m) simp_all

lemma bindE_InrE:
  assumes "bindE m f = Inr y"
  obtains x where "m = Inr x" "f x = Inr y"
  using assms by (auto simp: bindE_Inr_iff)

lemma bindE_assoc: "bindE (bindE m f) g = bindE m (\<lambda>x. bindE (f x) g)"
  by (cases m) simp_all

definition requireE :: "bool \<Rightarrow> db_error \<Rightarrow> unit res" where
  "requireE b e = (if b then Inr () else Inl e)"

lemma requireE_simps [simp, res_simps]:
  "b \<Longrightarrow> requireE b e = Inr ()"
  "\<not> b \<Longrightarrow> requireE b e = Inl e"
  by (simp_all add: requireE_def)

lemma requireE_Inr_iff [simp]: "requireE b e = Inr u \<longleftrightarrow> b"
  by (simp add: requireE_def)

text \<open>Iterating a fallible step over a list, as a range-based \<open>for\<close> loop with a throwing body.\<close>

fun foldE :: "('a \<Rightarrow> 's \<Rightarrow> 's res) \<Rightarrow> 'a list \<Rightarrow> 's \<Rightarrow> 's res" where
  "foldE f [] s = Inr s"
| "foldE f (x # xs) s = bindE (f x s) (foldE f xs)"

lemma foldE_append: "foldE f (xs @ ys) s = bindE (foldE f xs s) (foldE f ys)"
proof (induction xs arbitrary: s)
  case (Cons x xs)
  then show ?case by (cases "f x s") simp_all
qed simp

lemma foldE_invariant:
  assumes "foldE f xs s = Inr t" "P s"
    and "\<And>x u v. x \<in> set xs \<Longrightarrow> P u \<Longrightarrow> f x u = Inr v \<Longrightarrow> P v"
  shows "P t"
  using assms by (induction xs arbitrary: s) (auto elim!: bindE_InrE)

fun mapE :: "('a \<Rightarrow> 'b res) \<Rightarrow> 'a list \<Rightarrow> 'b list res" where
  "mapE f [] = Inr []"
| "mapE f (x # xs) = bindE (f x) (\<lambda>y. bindE (mapE f xs) (\<lambda>ys. Inr (y # ys)))"

lemma mapE_Inr_map: "(\<And>x. x \<in> set xs \<Longrightarrow> f x = Inr (g x)) \<Longrightarrow> mapE f xs = Inr (map g xs)"
  by (induction xs) simp_all

lemma mapE_length: "mapE f xs = Inr ys \<Longrightarrow> length ys = length xs"
  by (induction xs arbitrary: ys) (auto elim!: bindE_InrE)

section \<open>Machine integers\<close>

text \<open>
  Unsigned machine integers are natural numbers with the wrap-around written where the
  code computes or casts; \<open>int\<close> values are integers in the 32-bit range.
\<close>

abbreviation u16_max :: nat where "u16_max \<equiv> 65536"
abbreviation u32_max :: nat where "u32_max \<equiv> 4294967296"

definition to_u16 :: "nat \<Rightarrow> nat" where "to_u16 n = n mod 65536"
definition to_u32 :: "nat \<Rightarrow> nat" where "to_u32 n = n mod 4294967296"

lemma to_u16_id [simp]: "n < 65536 \<Longrightarrow> to_u16 n = n"
  by (simp add: to_u16_def)

lemma to_u16_less [simp]: "to_u16 n < 65536"
  by (simp add: to_u16_def)

lemma to_u32_id [simp]: "n < 4294967296 \<Longrightarrow> to_u32 n = n"
  by (simp add: to_u32_def)

lemma to_u32_less [simp]: "to_u32 n < 4294967296"
  by (simp add: to_u32_def)

definition in_int32 :: "int \<Rightarrow> bool" where
  "in_int32 i \<longleftrightarrow> - 2147483648 \<le> i \<and> i \<le> 2147483647"

definition int32_to_u32 :: "int \<Rightarrow> nat" where
  "int32_to_u32 i = nat (i mod 4294967296)"

definition u32_to_int32 :: "nat \<Rightarrow> int" where
  "u32_to_int32 n = (if n < 2147483648 then int n else int n - 4294967296)"

lemma int32_to_u32_less [simp]: "int32_to_u32 i < 4294967296"
  by (simp add: int32_to_u32_def nat_less_iff)

lemma u32_to_int32_of_int32 [simp]: "in_int32 i \<Longrightarrow> u32_to_int32 (int32_to_u32 i) = i"
proof -
  assume r: "in_int32 i"
  show ?thesis
  proof (cases "0 \<le> i")
    case True
    with r have "i mod 4294967296 = i" by (simp add: in_int32_def)
    with True r show ?thesis by (auto simp: u32_to_int32_def int32_to_u32_def in_int32_def)
  next
    case False
    with r have "(i + 4294967296) mod 4294967296 = i + 4294967296"
      by (intro mod_pos_pos_trivial) (auto simp: in_int32_def)
    then have "i mod 4294967296 = i + 4294967296" by simp
    with False r show ?thesis by (auto simp: u32_to_int32_def int32_to_u32_def in_int32_def)
  qed
qed

lemma in_int32_u32_to_int32 [simp]: "n < 4294967296 \<Longrightarrow> in_int32 (u32_to_int32 n)"
  by (auto simp: in_int32_def u32_to_int32_def)

section \<open>Lists\<close>

lemma set_upt_subset [simp]: "{0..<n} \<subseteq> {..<n::nat}"
  by auto

lemma map_filter_Cons:
  "List.map_filter h (x # xs) = (case h x of None \<Rightarrow> List.map_filter h xs | Some y \<Rightarrow> y # List.map_filter h xs)"
  by (simp add: List.map_filter_def split: option.splits)

lemma set_map_filter: "set (List.map_filter h xs) = {y. \<exists>x \<in> set xs. h x = Some y}"
  by (induction xs) (auto simp: map_filter_Cons List.map_filter_simps split: option.splits)

end
