(* ===== verification/StdLib.thy ===== *)
theory StdLib
  imports Prelude
begin

text \<open>
  What the sources use of the C++ standard library on characters, strings and vectors: the
  \<open>cctype\<close> classification in the "C" locale, \<open>std::toupper\<close>, \<open>std::to_string\<close>,
  \<open>std::stoi\<close>, \<open>std::setw\<close> with \<open>std::left\<close>, and the separators of the printing loops.

  The sources pass a plain \<open>char\<close> to the \<open>cctype\<close> functions.  For bytes from 128 on, where \<open>char\<close> is signed, that is a negative
  argument, which the standard leaves undefined; the model takes the answer the usual libraries give in the
  "C" locale, that such a byte is in no class.  For input of ASCII characters nothing is assumed.
\<close>

section \<open>Characters\<close>

abbreviation code :: "char \<Rightarrow> nat" where "code c \<equiv> of_char c"

definition isspace :: "char \<Rightarrow> bool" where
  "isspace c \<longleftrightarrow> code c = 32 \<or> (9 \<le> code c \<and> code c \<le> 13)"

definition isdigit :: "char \<Rightarrow> bool" where
  "isdigit c \<longleftrightarrow> 48 \<le> code c \<and> code c \<le> 57"

definition isupper :: "char \<Rightarrow> bool" where
  "isupper c \<longleftrightarrow> 65 \<le> code c \<and> code c \<le> 90"

definition islower :: "char \<Rightarrow> bool" where
  "islower c \<longleftrightarrow> 97 \<le> code c \<and> code c \<le> 122"

definition isalpha :: "char \<Rightarrow> bool" where
  "isalpha c \<longleftrightarrow> isupper c \<or> islower c"

definition isalnum :: "char \<Rightarrow> bool" where
  "isalnum c \<longleftrightarrow> isalpha c \<or> isdigit c"

definition toupper :: "char \<Rightarrow> char" where
  "toupper c = (if islower c then char_of (code c - 32) else c)"

lemmas ctype_defs = isspace_def isdigit_def isupper_def islower_def isalpha_def isalnum_def

lemma not_space_digit: "isdigit c \<Longrightarrow> \<not> isspace c"
  by (auto simp: ctype_defs)

section \<open>Decimal integers\<close>

fun nat_to_string :: "nat \<Rightarrow> string" where
  "nat_to_string n =
     (if n < 10 then [char_of (48 + n)]
      else nat_to_string (n div 10) @ [char_of (48 + n mod 10)])"

declare nat_to_string.simps [simp del]

definition to_string :: "int \<Rightarrow> string" where
  "to_string i = (if i < 0 then ''-'' @ nat_to_string (nat (- i)) else nat_to_string (nat i))"

definition digit_val :: "char \<Rightarrow> nat" where
  "digit_val c = code c - 48"

definition digits_val :: "string \<Rightarrow> nat" where
  "digits_val ds = foldl (\<lambda>acc c. acc * 10 + digit_val c) 0 ds"

text \<open>\<open>std::stoi\<close>: leading white space is skipped, an optional sign is read, then the longest run
  of digits; what follows the digits is ignored.\<close>

definition stoi :: "string \<Rightarrow> int res" where
  "stoi s =
     (let s1 = dropWhile isspace s;
          neg = (s1 \<noteq> [] \<and> hd s1 = CHR ''-'');
          s2 = (if s1 \<noteq> [] \<and> (hd s1 = CHR ''-'' \<or> hd s1 = CHR ''+'') then tl s1 else s1);
          ds = takeWhile isdigit s2;
          v = (if neg then - int (digits_val ds) else int (digits_val ds))
      in if ds = [] then Inl (InvalidArgument ''stoi'')
         else if in_int32 v then Inr v
         else Inl (OutOfRange ''stoi''))"

lemma isdigit_char_of: "k < (10 :: nat) \<Longrightarrow> isdigit (char_of (48 + k))"
  by (simp add: isdigit_def)

lemma digit_val_char_of: "k < (10 :: nat) \<Longrightarrow> digit_val (char_of (48 + k)) = k"
  by (simp add: digit_val_def)

lemma nat_to_string_digits: "list_all isdigit (nat_to_string n)"
proof (induction n rule: nat_to_string.induct)
  case (1 n)
  then show ?case
    by (subst nat_to_string.simps) (auto simp: isdigit_char_of)
qed

lemma nat_to_string_nonempty [simp]: "nat_to_string n \<noteq> []"
  by (subst nat_to_string.simps) simp

lemma digits_val_snoc: "digits_val (ds @ [c]) = digits_val ds * 10 + digit_val c"
  by (simp add: digits_val_def)

lemma digits_val_nat_to_string [simp]: "digits_val (nat_to_string n) = n"
proof (induction n rule: nat_to_string.induct)
  case (1 n)
  show ?case
  proof (cases "n < 10")
    case True
    then show ?thesis
      by (subst nat_to_string.simps) (simp add: digits_val_def digit_val_char_of)
  next
    case False
    with 1 show ?thesis
      by (subst nat_to_string.simps) (simp add: digits_val_snoc digit_val_char_of)
  qed
qed

lemma takeWhile_isdigit_nat [simp]: "takeWhile isdigit (nat_to_string n) = nat_to_string n"
  using nat_to_string_digits [of n] by (simp add: list_all_iff)

lemma stoi_digits:
  assumes "list_all isdigit ds" "ds \<noteq> []"
  shows "stoi ds = (if in_int32 (int (digits_val ds)) then Inr (int (digits_val ds)) else Inl (OutOfRange ''stoi''))"
proof -
  obtain c cs where ds: "ds = c # cs" using assms(2) by (cases ds) auto
  with assms(1) have c: "isdigit c" by simp
  have "c \<noteq> CHR ''-''" "c \<noteq> CHR ''+''" "\<not> isspace c"
    using c by (auto simp: isdigit_def isspace_def)
  moreover have "takeWhile isdigit ds = ds" using assms(1) by (simp add: list_all_iff)
  ultimately show ?thesis using ds by (simp add: stoi_def Let_def)
qed

lemma stoi_to_string: "in_int32 i \<Longrightarrow> stoi (to_string i) = Inr i"
proof (cases "i < 0")
  case True
  assume "in_int32 i"
  with True show ?thesis
    by (simp add: stoi_def to_string_def Let_def isspace_def)
next
  case False
  assume "in_int32 i"
  with False show ?thesis
    using stoi_digits [OF nat_to_string_digits nat_to_string_nonempty, of "nat i"]
    by (simp add: to_string_def)
qed

lemma stoi_in_int32: "stoi s = Inr v \<Longrightarrow> in_int32 v"
  by (auto simp: stoi_def Let_def split: if_splits)

section \<open>Output helpers\<close>

text \<open>The printing loops of the sources put a separator after every element but the last.\<close>

fun sep_by :: "string \<Rightarrow> string list \<Rightarrow> string" where
  "sep_by sep [] = ''''"
| "sep_by sep [x] = x"
| "sep_by sep (x # y # xs) = x @ sep @ sep_by sep (y # xs)"

text \<open>\<open>std::setw(15) << std::left << s\<close>: pad with blanks to the width, never truncate.\<close>

definition setw_left :: "nat \<Rightarrow> string \<Rightarrow> string" where
  "setw_left w s = s @ replicate (w - length s) (CHR '' '')"

end
