(* ===== verification/Bytes.thy ===== *)
theory Bytes
  imports Prelude
begin

text \<open>
  Byte-level memory: little-endian integers, bounded reads and writes of a buffer, and
  the interface \<open>codec\<close> of an encoder and a decoder that reads at an offset.  The tuple
  format (\<open>TupleCodec\<close>), the slotted page header (\<open>PageManager\<close>) and the write-ahead log
  format (\<open>LogManager\<close>) are built from these.
\<close>

section \<open>Little-endian integers\<close>

fun le_bytes :: "nat \<Rightarrow> nat \<Rightarrow> byte list" where
  "le_bytes 0 v = []"
| "le_bytes (Suc n) v = char_of (v mod 256) # le_bytes n (v div 256)"

fun le_val :: "byte list \<Rightarrow> nat" where
  "le_val [] = 0"
| "le_val (b # bs) = of_char b + 256 * le_val bs"

lemma length_le_bytes [simp]: "length (le_bytes n v) = n"
  by (induction n arbitrary: v) simp_all

lemma of_char_less [simp]: "(of_char c :: nat) < 256"
  using of_char_mod_256 [of c, where 'a = nat] by (metis mod_less_divisor zero_less_numeral)

lemma le_val_le_bytes: "le_val (le_bytes n v) = v mod 256 ^ n"
proof (induction n arbitrary: v)
  case (Suc n)
  have "v mod 256 + 256 * (v div 256 mod 256 ^ n) = v mod (256 * 256 ^ n)"
    by (simp add: mod_mult2_eq)
  with Suc show ?case by simp
qed simp

lemma le_val_less: "le_val bs < 256 ^ length bs"
proof (induction bs)
  case (Cons b bs)
  have "of_char b + 256 * le_val bs < 256 + 256 * le_val bs" by simp
  also have "\<dots> = 256 * Suc (le_val bs)" by simp
  also have "\<dots> \<le> 256 * 256 ^ length bs"
    using Cons.IH by (simp only: mult_le_mono2 Suc_leI)
  finally show ?case by simp
qed simp

lemma le_bytes_le_val: "le_bytes (length bs) (le_val bs) = bs"
  by (induction bs) simp_all

lemma le_val_inverse [simp]:
  "v < 65536 \<Longrightarrow> le_val (le_bytes 2 v) = v"
  "v < 4294967296 \<Longrightarrow> le_val (le_bytes 4 v) = v"
  "v < 18446744073709551616 \<Longrightarrow> le_val (le_bytes 8 v) = v"
  by (simp_all add: le_val_le_bytes)

section \<open>Bounded reads and writes\<close>

text \<open>\<open>rd bs off n\<close> are the \<open>n\<close> bytes from \<open>off\<close>; \<open>wr bs off d\<close> is \<open>memcpy(bs + off, d)\<close>.
  Both are used under the bounds that make the access defined.\<close>

definition rd :: "byte list \<Rightarrow> nat \<Rightarrow> nat \<Rightarrow> byte list" where
  "rd bs off n = take n (drop off bs)"

definition wr :: "byte list \<Rightarrow> nat \<Rightarrow> byte list \<Rightarrow> byte list" where
  "wr bs off d = take off bs @ d @ drop (off + length d) bs"

named_theorems mem_simps \<open>reads of written buffers\<close>

lemma length_rd [simp]: "off + n \<le> length bs \<Longrightarrow> length (rd bs off n) = n"
  by (simp add: rd_def)

lemma length_wr [simp]: "off + length d \<le> length bs \<Longrightarrow> length (wr bs off d) = length bs"
  by (simp add: wr_def)

lemma rd_wr_same [mem_simps]:
  "off + length d \<le> length bs \<Longrightarrow> n = length d \<Longrightarrow> rd (wr bs off d) off n = d"
  by (simp add: rd_def wr_def)

lemma rd_wr_before [mem_simps]:
  assumes "o2 + n \<le> off" "off + length d \<le> length bs"
  shows "rd (wr bs off d) o2 n = rd bs o2 n"
proof -
  have "rd (wr bs off d) o2 n = take n (drop o2 (take off bs))"
    using assms by (simp add: rd_def wr_def)
  also have "\<dots> = take (min n (off - o2)) (drop o2 bs)"
    by (simp add: drop_take)
  also have "min n (off - o2) = n" using assms by simp
  finally show ?thesis by (simp add: rd_def)
qed

lemma rd_wr_after [mem_simps]:
  assumes "off + length d \<le> o2" "off + length d \<le> length bs"
  shows "rd (wr bs off d) o2 n = rd bs o2 n"
proof -
  have "drop o2 (wr bs off d) = drop (o2 - off - length d) (drop (off + length d) bs)"
    using assms by (simp add: wr_def)
  also have "\<dots> = drop o2 bs" using assms by simp
  finally show ?thesis by (simp add: rd_def)
qed

lemma rd_append_right [simp]: "rd (pre @ bs) (length pre + k) n = rd bs k n"
  by (simp add: rd_def)

lemma rd_append_exact [simp]: "n = length xs \<Longrightarrow> rd (pre @ xs @ post) (length pre) n = xs"
  by (simp add: rd_def)

text \<open>\<open>memcpy\<close> of an \<open>n\<close>-byte unsigned integer out of a buffer at an offset, with the
  offset advanced; reading past the end of the buffer is undefined.\<close>

definition rd_le :: "nat \<Rightarrow> byte list \<Rightarrow> nat \<Rightarrow> (nat \<times> nat) res" where
  "rd_le n bs off = (if off + n \<le> length bs then Inr (le_val (rd bs off n), off + n)
                     else Inl (UndefinedBehaviour ''read past the end of a buffer''))"

definition rd_bytes :: "nat \<Rightarrow> byte list \<Rightarrow> nat \<Rightarrow> (byte list \<times> nat) res" where
  "rd_bytes n bs off = (if off + n \<le> length bs then Inr (rd bs off n, off + n)
                        else Inl (UndefinedBehaviour ''read past the end of a buffer''))"

section \<open>The interface of an encoding\<close>

text \<open>
  An encoder and a decoder that reads at an offset agree when decoding the encoding of an
  admissible value, wherever it lies in a buffer, gives the value back and moves the offset
  to its end.
\<close>

locale codec =
  fixes enc :: "'a \<Rightarrow> byte list"
    and dec :: "byte list \<Rightarrow> nat \<Rightarrow> ('a \<times> nat) res"
    and ok :: "'a \<Rightarrow> bool"
  assumes dec_enc: "ok x \<Longrightarrow> dec (pre @ enc x @ post) (length pre) = Inr (x, length pre + length (enc x))"
begin

lemma dec_enc_at:
  assumes "ok x" "bs = pre @ enc x @ post" "off = length pre"
  shows "dec bs off = Inr (x, off + length (enc x))"
  using dec_enc [OF assms(1), of pre post] assms(2,3) by simp

lemma enc_prefix_free:
  assumes "ok x" "ok y" "enc x @ r = enc y @ s"
  shows "x = y \<and> r = s"
proof -
  have "dec (enc x @ r) 0 = Inr (x, length (enc x))"
    using dec_enc [OF assms(1), of "[]" r] by simp
  moreover have "dec (enc y @ s) 0 = Inr (y, length (enc y))"
    using dec_enc [OF assms(2), of "[]" s] by simp
  ultimately have "x = y" using assms(3) by simp
  with assms(3) show ?thesis by simp
qed

lemma enc_seq_inj:
  assumes "list_all ok xs" "list_all ok ys" "length xs = length ys"
    and "concat (map enc xs) = concat (map enc ys)"
  shows "xs = ys"
  using assms(3,1,2,4)
proof (induction xs ys rule: list_induct2)
  case (Cons x xs y ys)
  then have "x = y \<and> concat (map enc xs) = concat (map enc ys)"
    by (intro enc_prefix_free) simp_all
  with Cons show ?case by simp
qed simp

end

text \<open>Fixed-width integers and length-prefixed byte strings are codecs.\<close>

lemma codec_le: "codec (le_bytes n) (rd_le n) (\<lambda>v. v < 256 ^ n)"
  by unfold_locales (simp add: rd_le_def le_val_le_bytes)

interpretation u16: codec "le_bytes 2" "rd_le 2" "\<lambda>v. v < 65536"
  using codec_le [of 2] by simp

interpretation u32: codec "le_bytes 4" "rd_le 4" "\<lambda>v. v < 4294967296"
  using codec_le [of 4] by simp

interpretation u64: codec "le_bytes 8" "rd_le 8" "\<lambda>v. v < 18446744073709551616"
  using codec_le [of 8] by simp

definition enc_prefixed :: "nat \<Rightarrow> byte list \<Rightarrow> byte list" where
  "enc_prefixed w s = le_bytes w (length s mod 256 ^ w) @ s"

definition dec_prefixed :: "nat \<Rightarrow> byte list \<Rightarrow> nat \<Rightarrow> (byte list \<times> nat) res" where
  "dec_prefixed w bs off = bindE (rd_le w bs off) (\<lambda>(len, off). rd_bytes len bs off)"

lemma length_enc_prefixed [simp]: "length (enc_prefixed w s) = w + length s"
  by (simp add: enc_prefixed_def)

lemma codec_prefixed: "codec (enc_prefixed w) (dec_prefixed w) (\<lambda>s. length s < 256 ^ w)"
proof
  fix s :: "byte list" and pre post :: "byte list"
  assume l: "length s < 256 ^ w"
  have "rd_le w (pre @ le_bytes w (length s) @ s @ post) (length pre) = Inr (length s, length pre + w)"
    using codec.dec_enc [OF codec_le l, of pre "s @ post"] by simp
  moreover have "rd_bytes (length s) (pre @ le_bytes w (length s) @ s @ post) (length pre + w) = Inr (s, length pre + w + length s)"
    by (simp add: rd_bytes_def rd_def)
  ultimately show "dec_prefixed w (pre @ enc_prefixed w s @ post) (length pre) = Inr (s, length pre + length (enc_prefixed w s))"
    using l by (simp add: dec_prefixed_def enc_prefixed_def)
qed

interpretation str16: codec "enc_prefixed 2" "dec_prefixed 2" "\<lambda>s. length s < 65536"
  using codec_prefixed [of 2] by simp

interpretation str32: codec "enc_prefixed 4" "dec_prefixed 4" "\<lambda>s. length s < 4294967296"
  using codec_prefixed [of 4] by simp

end
