(* ===== verification/Common.thy ===== *)
theory Common
  imports StdLib Bytes
begin

text \<open>
  The shared types under \<open>src/common\<close>: the configuration constants, values, columns,
  schemas, tuples, rows and record identifiers, with their accessors and the order that
  \<open>RID::operator<\<close> defines.
\<close>

section \<open>Configuration (config.h)\<close>

definition PAGE_SIZE :: nat where "PAGE_SIZE = 4096"
definition BUFFER_POOL_SIZE :: nat where "BUFFER_POOL_SIZE = 1024"
definition MAX_SLOTS_PER_PAGE :: nat where "MAX_SLOTS_PER_PAGE = 128"
definition INVALID_PAGE_ID :: nat where "INVALID_PAGE_ID = 4294967295"
definition WAL_FILE_NAME :: string where "WAL_FILE_NAME = ''minidb.wal''"
definition DATA_DIR :: string where "DATA_DIR = ''minidb_data''"

section \<open>Values (value.h)\<close>

text \<open>\<open>DT_INT\<close> and \<open>DT_TEXT\<close> are \<open>DataType::INT\<close> and \<open>DataType::TEXT\<close> (\<open>INT\<close> is taken in HOL).\<close>

datatype DataType = DT_INT | DT_TEXT

datatype Value = IntValue int | TextValue string

definition default_Value :: Value where "default_Value = TextValue ''''"

primrec value_type :: "Value \<Rightarrow> DataType" where
  "value_type (IntValue _) = DT_INT"
| "value_type (TextValue _) = DT_TEXT"

primrec asInt :: "Value \<Rightarrow> int res" where
  "asInt (IntValue i) = Inr i"
| "asInt (TextValue _) = Inl BadVariantAccess"

primrec asText :: "Value \<Rightarrow> string res" where
  "asText (IntValue _) = Inl BadVariantAccess"
| "asText (TextValue s) = Inr s"

primrec value_toString :: "Value \<Rightarrow> string" where
  "value_toString (IntValue i) = to_string i"
| "value_toString (TextValue s) = s"

fun value_eq :: "Value \<Rightarrow> Value \<Rightarrow> bool" where
  "value_eq v w =
     (if value_type v \<noteq> value_type w then False
      else (case (v, w) of
              (IntValue i, IntValue j) \<Rightarrow> i = j
            | (TextValue s, TextValue t) \<Rightarrow> s = t
            | _ \<Rightarrow> False))"

lemma value_eq_iff [simp]: "value_eq v w \<longleftrightarrow> v = w"
  by (cases v; cases w) auto

declare value_eq.simps [simp del]

lemma value_type_INT: "value_type v = DT_INT \<longleftrightarrow> (\<exists>i. v = IntValue i)"
  by (cases v) auto

lemma value_type_TEXT: "value_type v = DT_TEXT \<longleftrightarrow> (\<exists>s. v = TextValue s)"
  by (cases v) auto

primrec dataTypeName :: "DataType \<Rightarrow> string" where
  "dataTypeName DT_INT = ''INT''"
| "dataTypeName DT_TEXT = ''TEXT''"

section \<open>Columns and schemas (column.h, schema.h)\<close>

record Column =
  col_name :: string
  col_type :: DataType

definition show_Column :: "Column \<Rightarrow> string" where
  "show_Column c = col_name c @ '' '' @ dataTypeName (col_type c)"

type_synonym Schema = "Column list"

definition addColumn :: "Schema \<Rightarrow> string \<Rightarrow> DataType \<Rightarrow> Schema" where
  "addColumn sch n t = sch @ [\<lparr>col_name = n, col_type = t\<rparr>]"

definition columnCount :: "Schema \<Rightarrow> nat" where
  "columnCount sch = length sch"

definition getColumn :: "Schema \<Rightarrow> nat \<Rightarrow> Column res" where
  "getColumn sch i = (if i \<ge> length sch then Inl (OutOfRange ''Column index out of range'') else Inr (sch ! i))"

fun findColumn_from :: "nat \<Rightarrow> Schema \<Rightarrow> string \<Rightarrow> int" where
  "findColumn_from i [] n = - 1"
| "findColumn_from i (c # cs) n = (if col_name c = n then int i else findColumn_from (Suc i) cs n)"

definition findColumn :: "Schema \<Rightarrow> string \<Rightarrow> int" where
  "findColumn sch n = findColumn_from 0 sch n"

definition show_Schema :: "Schema \<Rightarrow> string" where
  "show_Schema sch = ''('' @ sep_by '', '' (map show_Column sch) @ '')''"

lemma findColumn_from_cases:
  "(findColumn_from i cs n = - 1 \<and> n \<notin> col_name ` set cs) \<or>
   (\<exists>k < length cs. findColumn_from i cs n = int (i + k) \<and> col_name (cs ! k) = n \<and>
      (\<forall>j < k. col_name (cs ! j) \<noteq> n))"
proof (induction cs arbitrary: i)
  case (Cons c cs)
  show ?case
  proof (cases "col_name c = n")
    case False
    from Cons [of "Suc i"] show ?thesis
    proof (elim disjE exE conjE)
      fix k assume "k < length cs" "findColumn_from (Suc i) cs n = int (Suc i + k)"
        "col_name (cs ! k) = n" "\<forall>j < k. col_name (cs ! j) \<noteq> n"
      with False have "\<exists>k' < length (c # cs). findColumn_from i (c # cs) n = int (i + k') \<and>
          col_name ((c # cs) ! k') = n \<and> (\<forall>j < k'. col_name ((c # cs) ! j) \<noteq> n)"
        by (intro exI [of _ "Suc k"]) (auto simp: nth_Cons split: nat.splits)
      then show ?thesis ..
    qed (use False in auto)
  qed auto
qed simp

lemma findColumn_cases:
  obtains (absent) "findColumn sch n = - 1" "n \<notin> col_name ` set sch"
  | (found) k where "k < length sch" "findColumn sch n = int k" "col_name (sch ! k) = n"
      "\<forall>j < k. col_name (sch ! j) \<noteq> n"
  using findColumn_from_cases [of 0 sch n] unfolding findColumn_def by fastforce

lemma findColumn_neg_iff: "findColumn sch n < 0 \<longleftrightarrow> n \<notin> col_name ` set sch"
  by (cases rule: findColumn_cases [of sch n]) auto

section \<open>Tuples and rows (tuple.h, row.h)\<close>

type_synonym Tuple = "Value list"

definition addValue :: "Tuple \<Rightarrow> Value \<Rightarrow> Tuple" where
  "addValue t v = t @ [v]"

definition getValue :: "Tuple \<Rightarrow> nat \<Rightarrow> Value res" where
  "getValue t i = (if i \<ge> length t then Inl (OutOfRange ''Tuple index out of range'') else Inr (t ! i))"

definition getValueByName :: "Tuple \<Rightarrow> string \<Rightarrow> Schema \<Rightarrow> Value res" where
  "getValueByName t n sch =
     (let idx = findColumn sch n
      in if idx < 0 then Inl (RuntimeError (''Column not found: '' @ n)) else getValue t (nat idx))"

text \<open>The loop of \<open>matchesSchema\<close>, from index \<open>i\<close> on; \<open>getColumn\<close> is in range because the
  counts were compared first.\<close>

fun matches_from :: "nat \<Rightarrow> Tuple \<Rightarrow> Schema \<Rightarrow> bool res" where
  "matches_from i [] sch = Inr True"
| "matches_from i (v # vs) sch =
     bindE (getColumn sch i) (\<lambda>c. if value_type v \<noteq> col_type c then Inr False else matches_from (Suc i) vs sch)"

definition matchesSchema :: "Tuple \<Rightarrow> Schema \<Rightarrow> bool res" where
  "matchesSchema t sch = (if length t \<noteq> columnCount sch then Inr False else matches_from 0 t sch)"

definition show_Tuple :: "Tuple \<Rightarrow> string" where
  "show_Tuple t = ''('' @ sep_by '', '' (map value_toString t) @ '')''"

text \<open>What \<open>matchesSchema\<close> decides, as a relation between the two lists.\<close>

definition well_typed :: "Tuple \<Rightarrow> Schema \<Rightarrow> bool" where
  "well_typed t sch \<longleftrightarrow> list_all2 (\<lambda>v c. value_type v = col_type c) t sch"

lemma matches_from_drop:
  "i + length t = length sch \<Longrightarrow> matches_from i t sch = Inr (list_all2 (\<lambda>v c. value_type v = col_type c) t (drop i sch))"
proof (induction t arbitrary: i)
  case (Cons v vs)
  then have "drop i sch = sch ! i # drop (Suc i) sch"
    by (intro Cons_nth_drop_Suc [symmetric]) simp
  with Cons show ?case by (simp add: getColumn_def)
qed simp

lemma matchesSchema_iff: "matchesSchema t sch = Inr (well_typed t sch)"
  by (auto simp: matchesSchema_def columnCount_def well_typed_def matches_from_drop
      dest: list_all2_lengthD)

record Row =
  row_id :: nat
  row_data :: Tuple

definition show_Row :: "Row \<Rightarrow> string" where
  "show_Row r = ''Row#'' @ nat_to_string (row_id r) @ '' '' @ show_Tuple (row_data r)"

section \<open>Record identifiers (rid.h)\<close>

datatype RID = RID (pageId: nat) (slotNum: nat)

lemma RID_eq_iff: "a = b \<longleftrightarrow> pageId a = pageId b \<and> slotNum a = slotNum b"
  by (cases a; cases b) simp

definition default_RID :: RID where "default_RID = RID 0 0"

definition rid_ok :: "RID \<Rightarrow> bool" where
  "rid_ok r \<longleftrightarrow> pageId r < 4294967296 \<and> slotNum r < 65536"

definition show_RID :: "RID \<Rightarrow> string" where
  "show_RID r = ''('' @ nat_to_string (pageId r) @ '','' @ nat_to_string (slotNum r) @ '')''"

definition rid_less :: "RID \<Rightarrow> RID \<Rightarrow> bool" where
  "rid_less a b = (if pageId a \<noteq> pageId b then pageId a < pageId b else slotNum a < slotNum b)"

instantiation RID :: linorder
begin

definition less_RID :: "RID \<Rightarrow> RID \<Rightarrow> bool" where
  "less_RID = rid_less"

definition less_eq_RID :: "RID \<Rightarrow> RID \<Rightarrow> bool" where
  "less_eq_RID a b \<longleftrightarrow> a < b \<or> a = b"

instance
proof
  fix x y :: RID
  show "x \<le> y \<or> y \<le> x"
    by (cases x; cases y) (auto simp: less_RID_def rid_less_def less_eq_RID_def)
qed (auto simp: less_RID_def rid_less_def less_eq_RID_def split: if_splits)

end

text \<open>The word that \<open>std::hash<RID>\<close> hashes: \<open>((uint64_t)pageId << 16) | slotNum\<close>.\<close>

definition rid_hash_word :: "RID \<Rightarrow> 64 word" where
  "rid_hash_word r = or (push_bit 16 (of_nat (pageId r))) (of_nat (slotNum r))"

end
