(* ===== verification/DiskManager.thy ===== *)
theory DiskManager
  imports Common "HOL-Library.Word"
begin

text \<open>
  The raw page files of \<open>src/storage/DiskManager.cpp\<close>.

  The operating system's files are part of the state (\<open>dm_os\<close>: path to contents), because
  several handles may name the same path.  Which paths the system lets the program open is
  the parameter \<open>dm_openable\<close>; reads and writes of an open stream succeed.  Every write is
  followed by a flush in the sources, so the stream buffer is not part of the state.
\<close>

section \<open>State\<close>

record FileHandle =
  fh_fileName :: string
  fh_pageCount :: nat

record DiskManager =
  dm_files :: "int \<rightharpoonup> FileHandle"
  dm_nextFileId :: int
  dm_os :: "string \<rightharpoonup> byte list"
  dm_openable :: "string \<Rightarrow> bool"

abbreviation zero_byte :: byte where "zero_byte \<equiv> CHR 0x00"

definition zero_page :: "byte list" where
  "zero_page = replicate PAGE_SIZE zero_byte"

text \<open>\<open>DiskManager::DiskManager\<close> on a machine with the given files.\<close>

definition new_DiskManager :: "(string \<rightharpoonup> byte list) \<Rightarrow> (string \<Rightarrow> bool) \<Rightarrow> DiskManager" where
  "new_DiskManager os openable = \<lparr>dm_files = Map.empty, dm_nextFileId = 1, dm_os = os, dm_openable = openable\<rparr>"

definition full_path :: "string \<Rightarrow> string" where
  "full_path fileName = DATA_DIR @ ''/'' @ fileName"

section \<open>Operations\<close>

text \<open>\<open>nextFileId_++\<close> on the largest \<open>int\<close> is undefined behaviour.\<close>

definition createFile :: "string \<Rightarrow> DiskManager \<Rightarrow> (int \<times> DiskManager) res" where
  "createFile fileName d =
     (let fullPath = full_path fileName in
      if \<not> dm_openable d fullPath
      then Inl (RuntimeError (''DiskManager: cannot create file: '' @ fullPath))
      else let fileId = dm_nextFileId d in
        if \<not> in_int32 (fileId + 1) then Inl (UndefinedBehaviour ''signed overflow'')
        else Inr (fileId, d\<lparr>dm_nextFileId := fileId + 1,
                       dm_files := (dm_files d)(fileId \<mapsto> \<lparr>fh_fileName = fullPath, fh_pageCount = 0\<rparr>),
                       dm_os := (dm_os d)(fullPath \<mapsto> [])\<rparr>))"

definition openFile :: "string \<Rightarrow> DiskManager \<Rightarrow> (int \<times> DiskManager) res" where
  "openFile fileName d =
     (let fullPath = full_path fileName in
      case dm_os d fullPath of
        None \<Rightarrow> Inr (- 1, d)
      | Some content \<Rightarrow>
          if \<not> dm_openable d fullPath then Inr (- 1, d)
          else let pageCount = to_u32 (length content) div PAGE_SIZE;
                   fileId = dm_nextFileId d
               in if \<not> in_int32 (fileId + 1) then Inl (UndefinedBehaviour ''signed overflow'')
                  else Inr (fileId, d\<lparr>dm_nextFileId := fileId + 1,
                     dm_files := (dm_files d)(fileId \<mapsto> \<lparr>fh_fileName = fullPath, fh_pageCount = pageCount\<rparr>)\<rparr>))"

definition closeFile :: "int \<Rightarrow> DiskManager \<Rightarrow> DiskManager" where
  "closeFile fileId d = d\<lparr>dm_files := (dm_files d)(fileId := None)\<rparr>"

definition file_content :: "DiskManager \<Rightarrow> string \<Rightarrow> byte list" where
  "file_content d path = (case dm_os d path of None \<Rightarrow> [] | Some c \<Rightarrow> c)"

text \<open>The bytes of a page on disk: what lies beyond the end of the file reads as zeros.\<close>

definition page_at :: "byte list \<Rightarrow> nat \<Rightarrow> byte list" where
  "page_at content pageNum =
     (let got = take PAGE_SIZE (drop (pageNum * PAGE_SIZE) content)
      in got @ replicate (PAGE_SIZE - length got) zero_byte)"

definition readPage :: "int \<Rightarrow> nat \<Rightarrow> DiskManager \<Rightarrow> byte list res" where
  "readPage fileId pageNum d =
     (case dm_files d fileId of
        None \<Rightarrow> Inl (RuntimeError ''DiskManager: invalid file ID'')
      | Some handle \<Rightarrow> Inr (page_at (file_content d (fh_fileName handle)) pageNum))"

text \<open>A write at an offset; a gap between the old end of the file and the offset is zero-filled.\<close>

definition write_at :: "byte list \<Rightarrow> nat \<Rightarrow> byte list \<Rightarrow> byte list" where
  "write_at content off d = wr (content @ replicate (off + length d - length content) zero_byte) off d"

definition writePage :: "int \<Rightarrow> nat \<Rightarrow> byte list \<Rightarrow> DiskManager \<Rightarrow> DiskManager res" where
  "writePage fileId pageNum buffer d =
     (case dm_files d fileId of
        None \<Rightarrow> Inl (RuntimeError ''DiskManager: invalid file ID'')
      | Some handle \<Rightarrow>
          let content = file_content d (fh_fileName handle);
              d' = d\<lparr>dm_os := (dm_os d)(fh_fileName handle \<mapsto> write_at content (pageNum * PAGE_SIZE) buffer)\<rparr>
          in Inr (if pageNum \<ge> fh_pageCount handle
                  then d'\<lparr>dm_files := (dm_files d')(fileId \<mapsto> handle\<lparr>fh_pageCount := to_u32 (pageNum + 1)\<rparr>)\<rparr>
                  else d'))"

definition getFilePageCount :: "int \<Rightarrow> DiskManager \<Rightarrow> nat" where
  "getFilePageCount fileId d = (case dm_files d fileId of None \<Rightarrow> 0 | Some handle \<Rightarrow> fh_pageCount handle)"

definition allocateNewPage :: "int \<Rightarrow> DiskManager \<Rightarrow> (nat \<times> DiskManager) res" where
  "allocateNewPage fileId d =
     (case dm_files d fileId of
        None \<Rightarrow> Inl (RuntimeError ''DiskManager: invalid file ID'')
      | Some handle \<Rightarrow>
          let newPageNum = fh_pageCount handle;
              content = file_content d (fh_fileName handle)
          in Inr (newPageNum,
               d\<lparr>dm_files := (dm_files d)(fileId \<mapsto> handle\<lparr>fh_pageCount := to_u32 (newPageNum + 1)\<rparr>),
                 dm_os := (dm_os d)(fh_fileName handle \<mapsto> write_at content (newPageNum * PAGE_SIZE) zero_page)\<rparr>))"

text \<open>\<open>flushFile\<close> only empties a stream buffer that every write has already flushed.\<close>

definition flushFile :: "int \<Rightarrow> DiskManager \<Rightarrow> DiskManager" where
  "flushFile fileId d = d"

section \<open>Pages of a file\<close>

lemma length_zero_page [simp]: "length zero_page = PAGE_SIZE"
  by (simp add: zero_page_def)

lemma PAGE_SIZE_pos [simp]: "0 < PAGE_SIZE"
  by (simp add: PAGE_SIZE_def)

lemma length_page_at [simp]: "length (page_at c p) = PAGE_SIZE"
  by (simp add: page_at_def Let_def)

lemma page_at_nth:
  "i < PAGE_SIZE \<Longrightarrow> page_at c p ! i = (if p * PAGE_SIZE + i < length c then c ! (p * PAGE_SIZE + i) else zero_byte)"
  by (auto simp: page_at_def Let_def nth_append min_def)

lemma page_at_eqI:
  assumes "\<And>i. i < PAGE_SIZE \<Longrightarrow>
    (if p * PAGE_SIZE + i < length c then c ! (p * PAGE_SIZE + i) else zero_byte) =
    (if p * PAGE_SIZE + i < length c' then c' ! (p * PAGE_SIZE + i) else zero_byte)"
  shows "page_at c p = page_at c' p"
  using assms by (intro nth_equalityI) (simp_all add: page_at_nth)

lemma length_write_at: "length (write_at c off d) = max (length c) (off + length d)"
  by (simp add: write_at_def)

lemma write_at_nth:
  assumes "i < length (write_at c off d)"
  shows "write_at c off d ! i =
    (if off \<le> i \<and> i < off + length d then d ! (i - off) else if i < length c then c ! i else zero_byte)"
  using assms
  by (auto simp: write_at_def wr_def nth_append min_def max_def length_write_at)

lemma page_at_write_same:
  "length d = PAGE_SIZE \<Longrightarrow> page_at (write_at c (p * PAGE_SIZE) d) p = d"
  by (intro nth_equalityI) (simp_all add: page_at_nth write_at_nth length_write_at less_max_iff_disj)

lemma page_distinct_offsets:
  fixes p q i :: nat
  assumes "q \<noteq> p" "i < n"
  shows "\<not> (p * n \<le> q * n + i \<and> q * n + i < p * n + n)"
proof (cases "q < p")
  case True
  then have "q * n + n \<le> p * n" using mult_le_mono1 [of "Suc q" p n] by simp
  with assms(2) show ?thesis by simp
next
  case False
  with assms(1) have "Suc p * n \<le> q * n" by (intro mult_le_mono1) simp
  then show ?thesis by simp
qed

lemma page_at_write_other:
  assumes "length d = PAGE_SIZE" "q \<noteq> p"
  shows "page_at (write_at c (p * PAGE_SIZE) d) q = page_at c q"
proof (rule page_at_eqI)
  fix i assume i: "i < PAGE_SIZE"
  have "\<not> (p * PAGE_SIZE \<le> q * PAGE_SIZE + i \<and> q * PAGE_SIZE + i < p * PAGE_SIZE + PAGE_SIZE)"
    using assms(2) i by (rule page_distinct_offsets)
  then show "(if q * PAGE_SIZE + i < length (write_at c (p * PAGE_SIZE) d)
      then write_at c (p * PAGE_SIZE) d ! (q * PAGE_SIZE + i) else zero_byte) =
    (if q * PAGE_SIZE + i < length c then c ! (q * PAGE_SIZE + i) else zero_byte)"
    using assms(1) by (auto simp: write_at_nth length_write_at)
qed

section \<open>Well-formed disk states\<close>

text \<open>File identifiers are below the counter, handles have existing files, no two handles share a
  path, and page counts fit.\<close>

definition file_name :: "DiskManager \<Rightarrow> int \<rightharpoonup> string" where
  "file_name d f = map_option fh_fileName (dm_files d f)"

definition disk_ok :: "DiskManager \<Rightarrow> bool" where
  "disk_ok d \<longleftrightarrow> 0 < dm_nextFileId d \<and>
     (\<forall>f n. file_name d f = Some n \<longrightarrow> 0 < f \<and> f < dm_nextFileId d \<and> dm_os d n \<noteq> None) \<and>
     (\<forall>f g n. file_name d f = Some n \<longrightarrow> file_name d g = Some n \<longrightarrow> f = g)"

lemma disk_ok_cong:
  assumes "disk_ok d" "file_name d' = file_name d" "dm_nextFileId d' = dm_nextFileId d"
    and "\<And>n. dm_os d n \<noteq> None \<Longrightarrow> dm_os d' n \<noteq> None"
  shows "disk_ok d'"
  using assms by (auto simp: disk_ok_def)

text \<open>The page of an open file as the disk holds it.\<close>

definition disk_page :: "DiskManager \<Rightarrow> int \<Rightarrow> nat \<Rightarrow> byte list" where
  "disk_page d f p = (case dm_files d f of None \<Rightarrow> zero_page | Some h \<Rightarrow> page_at (file_content d (fh_fileName h)) p)"

abbreviation is_open :: "DiskManager \<Rightarrow> int \<Rightarrow> bool" where
  "is_open d f \<equiv> dm_files d f \<noteq> None"

lemma length_disk_page [simp]: "length (disk_page d f p) = PAGE_SIZE"
  by (simp add: disk_page_def split: option.splits)

lemma readPage_disk_page: "is_open d f \<Longrightarrow> readPage f p d = Inr (disk_page d f p)"
  by (auto simp: readPage_def disk_page_def)

lemma readPage_invalid: "\<not> is_open d f \<Longrightarrow> readPage f p d = Inl (RuntimeError ''DiskManager: invalid file ID'')"
  by (simp add: readPage_def)

lemma disk_page_file_name:
  "disk_page d f p = (case file_name d f of None \<Rightarrow> zero_page | Some n \<Rightarrow> page_at (file_content d n) p)"
  by (simp add: disk_page_def file_name_def split: option.splits)

text \<open>Overwriting one page of one file changes that page of that file only.\<close>

lemma disk_page_update:
  assumes "disk_ok d" "dm_files d f = Some h" "length buf = PAGE_SIZE" "file_name d' = file_name d"
    and "dm_os d' = (dm_os d)(fh_fileName h \<mapsto> write_at (file_content d (fh_fileName h)) (p * PAGE_SIZE) buf)"
  shows "disk_page d' = (\<lambda>g q. if g = f \<and> q = p then buf else disk_page d g q)"
proof (intro ext)
  fix g q
  have f: "file_name d f = Some (fh_fileName h)" using assms(2) by (simp add: file_name_def)
  have c: "file_content d' n = (if n = fh_fileName h
      then write_at (file_content d n) (p * PAGE_SIZE) buf else file_content d n)" for n
    using assms(5) by (simp add: file_content_def)
  show "disk_page d' g q = (if g = f \<and> q = p then buf else disk_page d g q)"
  proof (cases "g = f")
    case True
    then show ?thesis
      using f assms(3,4) c by (simp add: disk_page_file_name page_at_write_same page_at_write_other)
  next
    case False
    then have "file_name d g \<noteq> Some (fh_fileName h)" using assms(1) f by (auto simp: disk_ok_def)
    with False show ?thesis
      using assms(4) c by (auto simp: disk_page_file_name split: option.splits)
  qed
qed

lemma writePage_spec:
  assumes "disk_ok d" "is_open d f" "length buf = PAGE_SIZE"
  obtains d' where "writePage f p buf d = Inr d'" "disk_ok d'"
    "disk_page d' = (\<lambda>g q. if g = f \<and> q = p then buf else disk_page d g q)"
    "\<And>g. is_open d' g = is_open d g"
    "\<And>g. getFilePageCount g d' = (if g = f \<and> getFilePageCount f d \<le> p then to_u32 (p + 1) else getFilePageCount g d)"
    "dm_nextFileId d' = dm_nextFileId d"
proof -
  obtain h where h: "dm_files d f = Some h" using assms(2) by auto
  define d' where "d' = (let content = file_content d (fh_fileName h);
              d' = d\<lparr>dm_os := (dm_os d)(fh_fileName h \<mapsto> write_at content (p * PAGE_SIZE) buf)\<rparr>
          in (if p \<ge> fh_pageCount h
                  then d'\<lparr>dm_files := (dm_files d')(f \<mapsto> h\<lparr>fh_pageCount := to_u32 (p + 1)\<rparr>)\<rparr>
                  else d'))"
  have w: "writePage f p buf d = Inr d'" by (simp add: writePage_def h d'_def Let_def)
  have nm: "file_name d' = file_name d" using h by (auto simp: d'_def Let_def file_name_def)
  have "disk_page d' = (\<lambda>g q. if g = f \<and> q = p then buf else disk_page d g q)"
    by (rule disk_page_update [OF assms(1) h assms(3) nm]) (simp add: d'_def Let_def)
  moreover have "disk_ok d'"
    by (rule disk_ok_cong [OF assms(1) nm]) (auto simp: d'_def Let_def)
  ultimately show thesis
    using h by (intro that [OF w]) (auto simp: d'_def Let_def getFilePageCount_def fun_eq_iff)
qed

lemma allocateNewPage_spec:
  assumes "disk_ok d" "is_open d f"
  obtains d' where "allocateNewPage f d = Inr (getFilePageCount f d, d')" "disk_ok d'"
    "disk_page d' = (\<lambda>g q. if g = f \<and> q = getFilePageCount f d then zero_page else disk_page d g q)"
    "\<And>g. is_open d' g = is_open d g"
    "\<And>g. getFilePageCount g d' = (if g = f then to_u32 (getFilePageCount f d + 1) else getFilePageCount g d)"
    "dm_nextFileId d' = dm_nextFileId d"
proof -
  obtain h where h: "dm_files d f = Some h" using assms(2) by auto
  define d' where "d' = d\<lparr>dm_files := (dm_files d)(f \<mapsto> h\<lparr>fh_pageCount := to_u32 (fh_pageCount h + 1)\<rparr>),
      dm_os := (dm_os d)(fh_fileName h \<mapsto> write_at (file_content d (fh_fileName h)) (fh_pageCount h * PAGE_SIZE) zero_page)\<rparr>"
  have pc: "getFilePageCount f d = fh_pageCount h" by (simp add: getFilePageCount_def h)
  have w: "allocateNewPage f d = Inr (getFilePageCount f d, d')"
    by (simp add: allocateNewPage_def h d'_def Let_def getFilePageCount_def)
  have nm: "file_name d' = file_name d" using h by (auto simp: d'_def file_name_def)
  have "disk_page d' = (\<lambda>g q. if g = f \<and> q = getFilePageCount f d then zero_page else disk_page d g q)"
    by (rule disk_page_update [OF assms(1) h length_zero_page nm]) (simp add: d'_def pc)
  moreover have "disk_ok d'"
    by (rule disk_ok_cong [OF assms(1) nm]) (auto simp: d'_def)
  ultimately show thesis
    using h pc by (intro that [OF w]) (auto simp: d'_def getFilePageCount_def fun_eq_iff)
qed

lemma createFile_spec:
  assumes "disk_ok d" "dm_openable d (full_path n)" "dm_nextFileId d < 2147483647"
    and "\<And>f h. dm_files d f = Some h \<Longrightarrow> fh_fileName h \<noteq> full_path n"
  obtains d' where "createFile n d = Inr (dm_nextFileId d, d')" "disk_ok d'"
    "disk_page d' = (\<lambda>g q. if g = dm_nextFileId d then zero_page else disk_page d g q)"
    "\<And>g. is_open d' g = (is_open d g \<or> g = dm_nextFileId d)"
    "\<And>g. getFilePageCount g d' = (if g = dm_nextFileId d then 0 else getFilePageCount g d)"
    "dm_nextFileId d' = dm_nextFileId d + 1"
proof -
  let ?f = "dm_nextFileId d"
  define d' where "d' = d\<lparr>dm_nextFileId := ?f + 1,
      dm_files := (dm_files d)(?f \<mapsto> \<lparr>fh_fileName = full_path n, fh_pageCount = 0\<rparr>),
      dm_os := (dm_os d)(full_path n \<mapsto> [])\<rparr>"
  have "in_int32 (?f + 1)" using assms(1,3) by (simp add: disk_ok_def in_int32_def)
  then have w: "createFile n d = Inr (?f, d')" using assms(2) by (simp add: createFile_def Let_def d'_def)
  have "page_at [] p = zero_page" for p by (simp add: page_at_def zero_page_def)
  then have "disk_page d' g q = (if g = ?f then zero_page else disk_page d g q)" for g q
    using assms(4) by (auto simp: d'_def disk_page_def file_content_def split: option.splits)
  moreover have "disk_ok d'"
  proof -
    have nm: "file_name d' = (file_name d)(?f \<mapsto> full_path n)"
      by (auto simp: d'_def file_name_def)
    have "file_name d g \<noteq> Some (full_path n)" for g
      using assms(4) by (auto simp: file_name_def)
    then show ?thesis
      using assms(1) unfolding disk_ok_def nm
      by (auto simp: d'_def dest: less_imp_le)
  qed
  ultimately show thesis
    by (intro that [OF w]) (auto simp: d'_def getFilePageCount_def fun_eq_iff)
qed

lemma disk_ok_new: "disk_ok (new_DiskManager os openable)"
  by (simp add: disk_ok_def new_DiskManager_def file_name_def)

end
