(* ===== verification/BufferPool.thy ===== *)
theory BufferPool
  imports DiskManager "HOL-Library.AList"
begin

text \<open>
  The LRU page cache of \<open>src/storage/BufferPool.cpp\<close> over the disk manager.

  The pointer that \<open>fetchPage\<close> returns is the index of its frame; what a caller writes
  through the pointer is \<open>set_frame_data\<close>.  \<open>pageTable_\<close> is an association list, whose order
  stands for the unspecified iteration order of the hash map.  \<open>lruMap_\<close> is the set of its
  keys: its iterators point at the most recently pushed occurrence in \<open>lruList_\<close>, which is the
  first one, so erasing through an iterator is \<^const>\<open>remove1\<close>.
\<close>

section \<open>State (BufferPool.h)\<close>

record PageFrame =
  pf_data :: "byte list"
  pf_pageId :: nat
  pf_fileId :: int
  pf_pageNum :: nat
  pf_isDirty :: bool
  pf_pinCount :: int

record BufferPool =
  bp_poolSize :: nat
  bp_frames :: "PageFrame list"
  bp_pageTable :: "(64 word \<times> nat) list"
  bp_lruList :: "nat list"
  bp_lruMap :: "nat set"
  bp_freeList :: "nat list"
  bp_cacheHits :: nat
  bp_cacheMisses :: nat

text \<open>The pool holds a pointer to the disk manager: the operations work on both.\<close>

record Storage =
  st_disk :: DiskManager
  st_pool :: BufferPool

definition empty_frame :: PageFrame where
  "empty_frame = \<lparr>pf_data = zero_page, pf_pageId = INVALID_PAGE_ID, pf_fileId = - 1, pf_pageNum = 0,
     pf_isDirty = False, pf_pinCount = 0\<rparr>"

definition new_BufferPool :: "nat \<Rightarrow> BufferPool" where
  "new_BufferPool poolSize = \<lparr>bp_poolSize = poolSize, bp_frames = replicate poolSize empty_frame,
     bp_pageTable = [], bp_lruList = [], bp_lruMap = {}, bp_freeList = [0..<poolSize],
     bp_cacheHits = 0, bp_cacheMisses = 0\<rparr>"

section \<open>Operations\<close>

definition makePageKey :: "int \<Rightarrow> nat \<Rightarrow> 64 word" where
  "makePageKey fileId pageNum = or (push_bit 32 (word_of_int fileId)) (of_nat pageNum)"

definition get_frame :: "BufferPool \<Rightarrow> nat \<Rightarrow> PageFrame res" where
  "get_frame bp i = (if i < length (bp_frames bp) then Inr (bp_frames bp ! i)
     else Inl (UndefinedBehaviour ''frame index out of range''))"

definition put_frame :: "nat \<Rightarrow> PageFrame \<Rightarrow> BufferPool \<Rightarrow> BufferPool" where
  "put_frame i fr bp = bp\<lparr>bp_frames := (bp_frames bp)[i := fr]\<rparr>"

definition findVictimFrame :: "BufferPool \<Rightarrow> (nat \<times> BufferPool) res" where
  "findVictimFrame bp =
     (case bp_freeList bp of
        idx # rest \<Rightarrow> Inr (idx, bp\<lparr>bp_freeList := rest\<rparr>)
      | [] \<Rightarrow>
          if bp_lruList bp = [] then Inl (RuntimeError ''BufferPool: all frames are pinned, cannot evict'')
          else let victimIdx = last (bp_lruList bp)
               in Inr (victimIdx, bp\<lparr>bp_lruList := butlast (bp_lruList bp), bp_lruMap := bp_lruMap bp - {victimIdx}\<rparr>))"

text \<open>Emptying the chosen frame: the part of \<open>fetchPage\<close> that removes the old page from the table
  and writes it back if it is dirty.\<close>

definition evict :: "PageFrame \<Rightarrow> DiskManager \<Rightarrow> BufferPool \<Rightarrow> (DiskManager \<times> BufferPool) res" where
  "evict fr d bp =
     (if pf_fileId fr \<ge> 0 \<and> pf_pageId fr \<noteq> INVALID_PAGE_ID
      then let bp = bp\<lparr>bp_pageTable := AList.delete (makePageKey (pf_fileId fr) (pf_pageNum fr)) (bp_pageTable bp)\<rparr>
           in bindE (if pf_isDirty fr then writePage (pf_fileId fr) (pf_pageNum fr) (pf_data fr) d else Inr d) (\<lambda>d. Inr (d, bp))
      else Inr (d, bp))"

text \<open>\<open>frame.pinCount++\<close> on the largest \<open>int\<close> is undefined behaviour.\<close>

definition fetchPage :: "int \<Rightarrow> nat \<Rightarrow> bool \<Rightarrow> Storage \<Rightarrow> (nat \<times> Storage) res" where
  "fetchPage fileId pageNum forWrite s =
     (let bp = st_pool s; key = makePageKey fileId pageNum in
      case map_of (bp_pageTable bp) key of
        Some frameIdx \<Rightarrow>
          bindE (get_frame bp frameIdx) (\<lambda>fr.
          if \<not> in_int32 (pf_pinCount fr + 1) then Inl (UndefinedBehaviour ''signed overflow'')
          else let bp = bp\<lparr>bp_cacheHits := bp_cacheHits bp + 1\<rparr>;
              fr = fr\<lparr>pf_pinCount := pf_pinCount fr + 1\<rparr>;
              fr = (if forWrite then fr\<lparr>pf_isDirty := True\<rparr> else fr);
              bp = put_frame frameIdx fr bp;
              bp = (if frameIdx \<in> bp_lruMap bp
                    then bp\<lparr>bp_lruList := remove1 frameIdx (bp_lruList bp), bp_lruMap := bp_lruMap bp - {frameIdx}\<rparr>
                    else bp)
          in Inr (frameIdx, s\<lparr>st_pool := bp\<rparr>))
      | None \<Rightarrow>
          bindE (findVictimFrame (bp\<lparr>bp_cacheMisses := bp_cacheMisses bp + 1\<rparr>)) (\<lambda>(frameIdx, bp).
          bindE (get_frame bp frameIdx) (\<lambda>fr.
          bindE (evict fr (st_disk s) bp) (\<lambda>(d, bp).
          bindE (readPage fileId pageNum d) (\<lambda>bytes.
          let fr = \<lparr>pf_data = bytes, pf_pageId = pageNum, pf_fileId = fileId, pf_pageNum = pageNum,
                    pf_isDirty = forWrite, pf_pinCount = 1\<rparr>;
              bp = put_frame frameIdx fr bp;
              bp = bp\<lparr>bp_pageTable := AList.update key frameIdx (bp_pageTable bp)\<rparr>
          in Inr (frameIdx, s\<lparr>st_disk := d, st_pool := bp\<rparr>))))))"

definition unpinPage :: "int \<Rightarrow> nat \<Rightarrow> bool \<Rightarrow> Storage \<Rightarrow> Storage res" where
  "unpinPage fileId pageNum isDirty s =
     (let bp = st_pool s in
      case map_of (bp_pageTable bp) (makePageKey fileId pageNum) of
        None \<Rightarrow> Inr s
      | Some frameIdx \<Rightarrow>
          bindE (get_frame bp frameIdx) (\<lambda>fr.
          if pf_pinCount fr \<le> 0 then Inr s
          else let fr = fr\<lparr>pf_pinCount := pf_pinCount fr - 1\<rparr>;
                   fr = (if isDirty then fr\<lparr>pf_isDirty := True\<rparr> else fr);
                   bp = put_frame frameIdx fr bp;
                   bp = (if pf_pinCount fr = 0
                         then bp\<lparr>bp_lruList := frameIdx # bp_lruList bp, bp_lruMap := insert frameIdx (bp_lruMap bp)\<rparr>
                         else bp)
               in Inr (s\<lparr>st_pool := bp\<rparr>)))"

definition flushPage :: "int \<Rightarrow> nat \<Rightarrow> Storage \<Rightarrow> Storage res" where
  "flushPage fileId pageNum s =
     (let bp = st_pool s in
      case map_of (bp_pageTable bp) (makePageKey fileId pageNum) of
        None \<Rightarrow> Inr s
      | Some frameIdx \<Rightarrow>
          bindE (get_frame bp frameIdx) (\<lambda>fr.
          if pf_isDirty fr
          then bindE (writePage fileId pageNum (pf_data fr) (st_disk s)) (\<lambda>d.
               Inr (s\<lparr>st_disk := d, st_pool := put_frame frameIdx (fr\<lparr>pf_isDirty := False\<rparr>) bp\<rparr>))
          else Inr s))"

text \<open>One turn of the loop of \<open>flushAllPages\<close>.\<close>

definition flush_entry :: "64 word \<times> nat \<Rightarrow> Storage \<Rightarrow> Storage res" where
  "flush_entry entry s =
     bindE (get_frame (st_pool s) (snd entry)) (\<lambda>fr.
     if pf_isDirty fr \<and> pf_fileId fr \<ge> 0
     then bindE (writePage (pf_fileId fr) (pf_pageNum fr) (pf_data fr) (st_disk s)) (\<lambda>d.
          Inr (s\<lparr>st_disk := d, st_pool := put_frame (snd entry) (fr\<lparr>pf_isDirty := False\<rparr>) (st_pool s)\<rparr>))
     else Inr s)"

definition flushAllPages :: "Storage \<Rightarrow> Storage res" where
  "flushAllPages s = foldE flush_entry (bp_pageTable (st_pool s)) s"

text \<open>A write of a caller through the pointer into frame \<open>i\<close>.\<close>

definition frame_data :: "Storage \<Rightarrow> nat \<Rightarrow> byte list res" where
  "frame_data s i = bindE (get_frame (st_pool s) i) (\<lambda>fr. Inr (pf_data fr))"

definition set_frame_data :: "nat \<Rightarrow> byte list \<Rightarrow> Storage \<Rightarrow> Storage" where
  "set_frame_data i bytes s =
     s\<lparr>st_pool := put_frame i ((bp_frames (st_pool s) ! i)\<lparr>pf_data := bytes\<rparr>) (st_pool s)\<rparr>"

section \<open>Page keys\<close>

text \<open>The files and pages the engine addresses: positive file identifiers of type \<open>int\<close>, page
  numbers below the sentinel.\<close>

definition page_ok :: "int \<Rightarrow> nat \<Rightarrow> bool" where
  "page_ok f p \<longleftrightarrow> 0 < f \<and> f < 2147483648 \<and> p < 4294967295"

lemma makePageKey_eq:
  assumes "p < 4294967296"
  shows "makePageKey f p = word_of_int (f * 4294967296 + int p)"
proof -
  have b: "\<not> bit p n" if "32 \<le> n" for n
  proof -
    have "p < 2 ^ n" using assms power_increasing [OF that, of "2::nat"] by simp
    then show ?thesis by (simp add: bit_iff_odd)
  qed
  have "or (push_bit 32 (word_of_int f :: 64 word)) (of_nat p) = push_bit 32 (word_of_int f) + of_nat p"
    by (rule disjunctive_add [symmetric]) (auto simp: bit_simps b)
  also have "\<dots> = word_of_int (f * 4294967296 + int p)"
    by (simp add: push_bit_eq_mult)
  finally show ?thesis by (simp add: makePageKey_def)
qed

lemma makePageKey_inj:
  assumes "page_ok f p" "page_ok g q" "makePageKey f p = makePageKey g q"
  shows "f = g \<and> p = q"
proof -
  have r: "0 < f" "f < 2147483648" "p < 4294967296" "0 < g" "g < 2147483648" "q < 4294967296"
    using assms(1,2) by (auto simp: page_ok_def)
  have u: "uint (word_of_int n :: 64 word) = n" if "0 \<le> n" "n < 18446744073709551616" for n
    using that by (simp add: uint_word_of_int)
  have "uint (makePageKey f p) = f * 4294967296 + int p"
    using r by (subst makePageKey_eq, simp) (rule u, simp_all)
  moreover have "uint (makePageKey g q) = g * 4294967296 + int q"
    using r by (subst makePageKey_eq, simp) (rule u, simp_all)
  ultimately have e: "f * 4294967296 + int p = g * 4294967296 + int q" using assms(3) by simp
  then have "(f * 4294967296 + int p) mod 4294967296 = (g * 4294967296 + int q) mod 4294967296" by simp
  then have "p = q" using r(3,6) by simp
  with e show ?thesis by simp
qed
lemma makePageKey_eq_iff [simp]:
  "page_ok f p \<Longrightarrow> page_ok g q \<Longrightarrow> makePageKey f p = makePageKey g q \<longleftrightarrow> f = g \<and> p = q"
  using makePageKey_inj by blast

section \<open>The invariant\<close>

text \<open>A frame in the page table holds an existing page, and a clean one holds what the disk holds.\<close>

definition frame_ok :: "DiskManager \<Rightarrow> PageFrame \<Rightarrow> bool" where
  "frame_ok d fr \<longleftrightarrow> page_ok (pf_fileId fr) (pf_pageNum fr) \<and> pf_pageId fr = pf_pageNum fr \<and>
     is_open d (pf_fileId fr) \<and> pf_pageNum fr < getFilePageCount (pf_fileId fr) d \<and> 0 \<le> pf_pinCount fr \<and>
     (\<not> pf_isDirty fr \<longrightarrow> pf_data fr = disk_page d (pf_fileId fr) (pf_pageNum fr))"

definition frame_key :: "PageFrame \<Rightarrow> 64 word" where
  "frame_key fr = makePageKey (pf_fileId fr) (pf_pageNum fr)"

text \<open>The invariant over the components of the state, with a set \<open>D\<close> of frames that are between
  two homes: every other frame is either free or in the page table, and the LRU list holds
  exactly the unpinned frames of the table.\<close>

abbreviation used :: "(64 word \<times> nat) list \<Rightarrow> nat set" where
  "used T \<equiv> snd ` set T"

definition entry_ok :: "DiskManager \<Rightarrow> PageFrame list \<Rightarrow> 64 word \<Rightarrow> nat \<Rightarrow> bool" where
  "entry_ok d frs k i \<longleftrightarrow> i < length frs \<and> k = frame_key (frs ! i) \<and> frame_ok d (frs ! i)"

definition pool_ok ::
  "DiskManager \<Rightarrow> nat \<Rightarrow> PageFrame list \<Rightarrow> (64 word \<times> nat) list \<Rightarrow> nat list \<Rightarrow> nat set \<Rightarrow> nat list \<Rightarrow> nat set \<Rightarrow> bool" where
  "pool_ok d n frs T lru lmap free D \<longleftrightarrow>
     disk_ok d \<and> length frs = n \<and> (\<forall>i. i < n \<longrightarrow> length (pf_data (frs ! i)) = PAGE_SIZE) \<and>
     distinct (map fst T) \<and> distinct (map snd T) \<and> (\<forall>k i. (k, i) \<in> set T \<longrightarrow> entry_ok d frs k i) \<and>
     distinct free \<and> set free \<inter> used T = {} \<and> D \<inter> set free = {} \<and> D \<inter> used T = {} \<and>
     D \<union> set free \<union> used T = {..<n} \<and> (\<forall>i. i \<in> set free \<longrightarrow> pf_fileId (frs ! i) = - 1) \<and>
     distinct lru \<and> lmap = set lru \<and> (\<forall>i. i \<in> set lru \<longleftrightarrow> i \<in> used T \<and> pf_pinCount (frs ! i) = 0)"

definition pool_inv :: "Storage \<Rightarrow> bool" where
  "pool_inv s = (let bp = st_pool s in
     pool_ok (st_disk s) (bp_poolSize bp) (bp_frames bp) (bp_pageTable bp) (bp_lruList bp) (bp_lruMap bp) (bp_freeList bp) {})"

text \<open>The contents of a page as a client of the pool sees them: the cached copy if there is one,
  what the disk holds otherwise.\<close>

definition view_of :: "DiskManager \<Rightarrow> PageFrame list \<Rightarrow> (64 word \<times> nat) list \<Rightarrow> int \<Rightarrow> nat \<Rightarrow> byte list" where
  "view_of d frs T f p = (case map_of T (makePageKey f p) of
     Some i \<Rightarrow> pf_data (frs ! i) | None \<Rightarrow> disk_page d f p)"

definition page_view :: "Storage \<Rightarrow> int \<Rightarrow> nat \<Rightarrow> byte list" where
  "page_view s f p = view_of (st_disk s) (bp_frames (st_pool s)) (bp_pageTable (st_pool s)) f p"

text \<open>A page that exists.\<close>

definition page_exists :: "DiskManager \<Rightarrow> int \<Rightarrow> nat \<Rightarrow> bool" where
  "page_exists d f p \<longleftrightarrow> page_ok f p \<and> is_open d f \<and> p < getFilePageCount f d"

lemma pool_ok_facts:
  assumes "pool_ok d n frs T lru lmap free D"
  shows "disk_ok d" "length frs = n" "\<And>i. i < n \<Longrightarrow> length (pf_data (frs ! i)) = PAGE_SIZE"
    "distinct (map fst T)" "distinct (map snd T)" "\<And>k i. (k, i) \<in> set T \<Longrightarrow> entry_ok d frs k i"
    "distinct free" "set free \<inter> used T = {}" "D \<inter> set free = {}" "D \<inter> used T = {}"
    "D \<union> set free \<union> used T = {..<n}" "\<And>i. i \<in> set free \<Longrightarrow> pf_fileId (frs ! i) = - 1"
    "distinct lru" "lmap = set lru" "\<And>i. i \<in> set lru \<longleftrightarrow> i \<in> used T \<and> pf_pinCount (frs ! i) = 0"
  using assms unfolding pool_ok_def by simp_all

lemma pool_okI:
  assumes "disk_ok d" "length frs = n" "\<And>i. i < n \<Longrightarrow> length (pf_data (frs ! i)) = PAGE_SIZE"
    "distinct (map fst T)" "distinct (map snd T)" "\<And>k i. (k, i) \<in> set T \<Longrightarrow> entry_ok d frs k i"
    "distinct free" "set free \<inter> used T = {}" "D \<inter> set free = {}" "D \<inter> used T = {}"
    "D \<union> set free \<union> used T = {..<n}" "\<And>i. i \<in> set free \<Longrightarrow> pf_fileId (frs ! i) = - 1"
    "distinct lru" "lmap = set lru" "\<And>i. i \<in> set lru \<longleftrightarrow> i \<in> used T \<and> pf_pinCount (frs ! i) = 0"
  shows "pool_ok d n frs T lru lmap free D"
  unfolding pool_ok_def by (intro conjI allI impI; (rule assms | erule assms))

lemma pool_ok_entry:
  assumes "pool_ok d n frs T lru lmap free D" "(k, i) \<in> set T"
  shows "i < n" "i < length frs" "k = frame_key (frs ! i)" "frame_ok d (frs ! i)"
proof -
  have "entry_ok d frs k i" by (rule pool_ok_facts(6) [OF assms])
  moreover have "length frs = n" by (rule pool_ok_facts(2) [OF assms(1)])
  ultimately show "i < n" "i < length frs" "k = frame_key (frs ! i)" "frame_ok d (frs ! i)"
    by (simp_all add: entry_ok_def)
qed

lemma pool_ok_lookup:
  assumes "pool_ok d n frs T lru lmap free D" "map_of T (makePageKey f p) = Some i" "page_ok f p"
  shows "(makePageKey f p, i) \<in> set T" "pf_fileId (frs ! i) = f" "pf_pageNum (frs ! i) = p" "i < n"
proof -
  show e: "(makePageKey f p, i) \<in> set T" using assms(2) by (rule map_of_SomeD)
  note en = pool_ok_entry [OF assms(1) e]
  then show "i < n" by simp
  from en have "page_ok (pf_fileId (frs ! i)) (pf_pageNum (frs ! i))"
    "makePageKey f p = makePageKey (pf_fileId (frs ! i)) (pf_pageNum (frs ! i))"
    by (auto simp: frame_ok_def frame_key_def)
  with assms(3) show "pf_fileId (frs ! i) = f" "pf_pageNum (frs ! i) = p"
    using makePageKey_inj by blast+
qed

lemma pool_ok_same_index:
  assumes "pool_ok d n frs T lru lmap free D" "(k, i) \<in> set T" "(l, i) \<in> set T"
  shows "k = l"
  using pool_ok_entry(3) [OF assms(1,2)] pool_ok_entry(3) [OF assms(1,3)] by simp

lemma pool_ok_new:
  "disk_ok d \<Longrightarrow> pool_ok d n (replicate n empty_frame) [] [] {} [0..<n] {}"
  by (rule pool_okI) (auto simp: empty_frame_def)

lemma pool_inv_new: "disk_ok d \<Longrightarrow> pool_inv \<lparr>st_disk = d, st_pool = new_BufferPool n\<rparr>"
  by (simp add: pool_inv_def new_BufferPool_def pool_ok_new)

section \<open>Steps of the operations\<close>

text \<open>Changing a cached frame in place: pin counts, dirty flags, contents.\<close>

lemma pool_ok_update_frame:
  assumes inv: "pool_ok d n frs T lru lmap free D" and e: "(k, i) \<in> set T"
    and fr: "frame_ok d fr" "frame_key fr = k" "length (pf_data fr) = PAGE_SIZE"
    and lru': "distinct lru'" "set lru' = (if pf_pinCount fr = 0 then insert i (set lru) else set lru - {i})"
  shows "pool_ok d n (frs[i := fr]) T lru' (set lru') free D"
proof (rule pool_okI)
  note en = pool_ok_entry [OF inv e]
  note facts = pool_ok_facts [OF inv]
  have i: "i \<in> used T" using e by force
  then have "i \<notin> set free" using facts(8) by blast
  then show "pf_fileId (frs[i := fr] ! j) = - 1" if "j \<in> set free" for j
    using facts(12) that by (cases "j = i") auto
  show "length (pf_data (frs[i := fr] ! j)) = PAGE_SIZE" if "j < n" for j
    using facts(2,3) that fr(3) by (cases "j = i") auto
  show "entry_ok d (frs[i := fr]) l j" if lj: "(l, j) \<in> set T" for l j
  proof (cases "j = i")
    case True
    then have "l = k" using pool_ok_same_index [OF inv e, of l] lj by simp
    with True fr(1,2) en(2) show ?thesis by (simp add: entry_ok_def)
  next
    case False
    then show ?thesis using pool_ok_facts(6) [OF inv lj] by (simp add: entry_ok_def)
  qed
  show "j \<in> set lru' \<longleftrightarrow> j \<in> used T \<and> pf_pinCount (frs[i := fr] ! j) = 0" for j
    using lru'(2) en(2) i facts(15) [of j] by (cases "j = i") auto
qed (rule pool_ok_facts [OF inv] refl lru' | simp add: pool_ok_facts(2) [OF inv])+

lemma view_of_update_frame:
  assumes "pool_ok d n frs T lru lmap free D" "map_of T (makePageKey f p) = Some i" "page_ok f p" "page_ok g q"
  shows "view_of d (frs[i := fr]) T g q = (if g = f \<and> q = p then pf_data fr else view_of d frs T g q)"
proof -
  note en = pool_ok_lookup [OF assms(1,2,3)]
  have len: "i < length frs" using pool_ok_facts(2) [OF assms(1)] en(4) by simp
  show ?thesis
  proof (cases "g = f \<and> q = p")
    case True
    then show ?thesis using assms(2) len by (simp add: view_of_def)
  next
    case False
    then have "map_of T (makePageKey g q) \<noteq> Some i"
      using pool_ok_lookup(2,3) [OF assms(1) _ assms(4), of i] en(2,3) by metis
    then have "view_of d (frs[i := fr]) T g q = view_of d frs T g q"
      by (cases "map_of T (makePageKey g q)") (auto simp: view_of_def)
    with False show ?thesis by auto
  qed
qed

text \<open>Taking a frame out of the table: its page lives on on the disk.\<close>

lemma delete_table: "set (AList.delete k T) = {e \<in> set T. fst e \<noteq> k}"
  by (auto simp: AList.delete_eq)

lemma used_delete:
  assumes inv: "pool_ok d n frs T lru lmap free D" and e: "(k, v) \<in> set T"
  shows "used (AList.delete k T) = used T - {v}"
proof -
  have "l = k \<longleftrightarrow> j = v" if "(l, j) \<in> set T" for l j
    using that e pool_ok_same_index [OF inv] eq_key_imp_eq_value [OF pool_ok_facts(4) [OF inv]] by metis
  then show ?thesis by (force simp: delete_table)
qed

text \<open>The disk as it is after the contents of a frame were written to their place.\<close>

definition disk_absorbs :: "DiskManager \<Rightarrow> PageFrame \<Rightarrow> DiskManager \<Rightarrow> bool" where
  "disk_absorbs d fr d' \<longleftrightarrow> disk_ok d' \<and> (\<forall>g. is_open d' g = is_open d g) \<and>
     (\<forall>g. getFilePageCount g d' = getFilePageCount g d) \<and> dm_nextFileId d' = dm_nextFileId d \<and>
     disk_page d' = (\<lambda>g q. if g = pf_fileId fr \<and> q = pf_pageNum fr then pf_data fr else disk_page d g q)"

lemma disk_absorbsD:
  assumes "disk_absorbs d fr d'"
  shows "disk_ok d'" "is_open d' g = is_open d g" "getFilePageCount g d' = getFilePageCount g d"
    "dm_nextFileId d' = dm_nextFileId d"
    "disk_page d' g q = (if g = pf_fileId fr \<and> q = pf_pageNum fr then pf_data fr else disk_page d g q)"
  using assms by (simp_all add: disk_absorbs_def)

lemma frame_ok_other_page:
  assumes "frame_ok d fr" "disk_absorbs d fr' d'" "frame_key fr \<noteq> frame_key fr'"
  shows "frame_ok d' fr"
  using assms(1,3) disk_absorbsD [OF assms(2)] by (auto simp: frame_ok_def frame_key_def)

lemma pool_ok_detach:
  assumes inv: "pool_ok d n frs T lru lmap free {}" and e: "(k, v) \<in> set T"
    and lru': "distinct lru'" "set lru' = set lru - {v}"
    and disk: "disk_absorbs d (frs ! v) d'"
  shows "pool_ok d' n frs (AList.delete k T) lru' (set lru') free {v}"
proof (rule pool_okI)
  note facts = pool_ok_facts [OF inv] and u = used_delete [OF inv e]
  have v: "v \<in> used T" using e by force
  then have "v \<notin> set free" using facts(8) by blast
  then show "{v} \<inter> set free = {}" "{v} \<inter> used (AList.delete k T) = {}" using u by auto
  show "disk_ok d'" by (rule disk_absorbsD [OF disk])
  show "distinct (map fst (AList.delete k T))" "distinct (map snd (AList.delete k T))"
    using facts(4,5) by (auto simp: AList.delete_eq distinct_map_filter)
  show "entry_ok d' frs l j" if "(l, j) \<in> set (AList.delete k T)" for l j
  proof -
    have lj: "(l, j) \<in> set T" "l \<noteq> k" using that by (auto simp: delete_table)
    note en = pool_ok_entry [OF inv lj(1)]
    have "frame_ok d' (frs ! j)"
      using en(3,4) lj(2) pool_ok_entry(3) [OF inv e] by (intro frame_ok_other_page [OF _ disk]) simp_all
    with en show ?thesis by (simp add: entry_ok_def)
  qed
  show "set free \<inter> used (AList.delete k T) = {}" using facts(8) u by blast
  have "{v} \<union> set free \<union> (used T - {v}) = {} \<union> set free \<union> used T" using v by blast
  with facts(11) u show "{v} \<union> set free \<union> used (AList.delete k T) = {..<n}" by simp
  show "j \<in> set lru' \<longleftrightarrow> j \<in> used (AList.delete k T) \<and> pf_pinCount (frs ! j) = 0" for j
    using facts(15) [of j] lru'(2) u by auto
qed (rule pool_ok_facts [OF inv] refl lru' | assumption)+

lemma view_of_detach:
  assumes inv: "pool_ok d n frs T lru lmap free {}" and e: "(k, v) \<in> set T"
    and disk: "disk_absorbs d (frs ! v) d'" and gq: "page_ok g q"
  shows "view_of d' frs (AList.delete k T) g q = view_of d frs T g q"
proof -
  have kv: "map_of T k = Some v" using pool_ok_facts(4) [OF inv] e by simp
  show ?thesis
  proof (cases "makePageKey g q = k")
    case True
    then have "pf_fileId (frs ! v) = g" "pf_pageNum (frs ! v) = q"
      using pool_ok_lookup [OF inv _ gq] kv by simp_all
    with True kv show ?thesis by (simp add: view_of_def AList.delete_conv' disk_absorbsD(5) [OF disk])
  next
    case False
    then have "\<not> (g = pf_fileId (frs ! v) \<and> q = pf_pageNum (frs ! v))"
      using pool_ok_entry(3) [OF inv e] by (auto simp: frame_key_def)
    then have "disk_page d' g q = disk_page d g q" by (auto simp: disk_absorbsD(5) [OF disk])
    with False show ?thesis by (simp add: view_of_def AList.delete_conv' split: option.split)
  qed
qed

text \<open>Putting a detached frame back into the table with a new page.\<close>

lemma update_new_key: "map_of T k = None \<Longrightarrow> AList.update k v T = T @ [(k, v)]"
  by (induction T) (auto split: if_splits)

lemma pool_ok_attach:
  assumes inv: "pool_ok d n frs T lru lmap free {v}" and new: "map_of T k = None"
    and fr: "frame_ok d fr" "frame_key fr = k" "length (pf_data fr) = PAGE_SIZE" "pf_pinCount fr \<noteq> 0"
  shows "pool_ok d n (frs[v := fr]) (AList.update k v T) lru lmap free {}"
proof (rule pool_okI)
  note facts = pool_ok_facts [OF inv]
  have T: "AList.update k v T = T @ [(k, v)]" using new by (rule update_new_key)
  have v: "v < length frs" "v \<notin> set free" "v \<notin> used T" using facts(2,9,10,11) by auto
  show "length (frs[v := fr]) = n" using facts(2) by simp
  show "length (pf_data (frs[v := fr] ! j)) = PAGE_SIZE" if "j < n" for j
    using facts(2,3) that fr(3) v(1) by (cases "j = v") auto
  show "distinct (map fst (AList.update k v T))" using facts(4) by (rule AList.distinct_update)
  show "distinct (map snd (AList.update k v T))" using facts(5) v(3) by (auto simp: T)
  show "entry_ok d (frs[v := fr]) l j" if lj: "(l, j) \<in> set (AList.update k v T)" for l j
  proof (cases "j = v")
    case True
    with lj v(3) have "l = k" by (force simp: T)
    with True v(1) fr show ?thesis by (simp add: entry_ok_def)
  next
    case False
    with lj have "(l, j) \<in> set T" by (auto simp: T)
    with False show ?thesis using facts(6) by (simp add: entry_ok_def)
  qed
  show "set free \<inter> used (AList.update k v T) = {}" using facts(8) v(2) by (auto simp: T)
  have "used (AList.update k v T) = insert v (used T)" by (auto simp: T)
  with facts(11) show "{} \<union> set free \<union> used (AList.update k v T) = {..<n}" by auto
  show "pf_fileId (frs[v := fr] ! j) = - 1" if "j \<in> set free" for j
    using facts(12) that v(2) by (cases "j = v") auto
  show "j \<in> set lru \<longleftrightarrow> j \<in> used (AList.update k v T) \<and> pf_pinCount (frs[v := fr] ! j) = 0" for j
    using facts(15) [of j] v fr(4) by (cases "j = v") (auto simp: T)
qed (rule pool_ok_facts [OF inv] | simp)+

lemma view_of_attach:
  assumes inv: "pool_ok d n frs T lru lmap free {v}" and new: "map_of T (makePageKey f p) = None"
    and "pf_data fr = disk_page d f p" "page_ok f p" "page_ok g q"
  shows "view_of d (frs[v := fr]) (AList.update (makePageKey f p) v T) g q = view_of d frs T g q"
proof (cases "g = f \<and> q = p")
  case True
  have "v < length frs" using pool_ok_facts(2,11) [OF inv] by auto
  with True new assms(3) show ?thesis by (simp add: view_of_def AList.update_conv')
next
  case False
  then have ne: "makePageKey g q \<noteq> makePageKey f p" using assms(4,5) by simp
  have "map_of T (makePageKey g q) \<noteq> Some v"
    using pool_ok_facts(10) [OF inv] by (force dest!: map_of_SomeD)
  with ne show ?thesis
    by (cases "map_of T (makePageKey g q)") (auto simp: view_of_def AList.update_conv')
qed

section \<open>The contract of the cache\<close>

definition lookup_page :: "Storage \<Rightarrow> int \<Rightarrow> nat \<Rightarrow> nat option" where
  "lookup_page s f p = map_of (bp_pageTable (st_pool s)) (makePageKey f p)"

definition frame_at :: "Storage \<Rightarrow> nat \<Rightarrow> PageFrame" where
  "frame_at s i = bp_frames (st_pool s) ! i"

text \<open>How often a page is pinned; a page that is not cached is not pinned.\<close>

definition pin_view :: "Storage \<Rightarrow> int \<Rightarrow> nat \<Rightarrow> int" where
  "pin_view s f p = (case lookup_page s f p of None \<Rightarrow> 0 | Some i \<Rightarrow> pf_pinCount (frame_at s i))"

text \<open>Two states show the same pages, files and page counts.\<close>

definition same_files :: "Storage \<Rightarrow> Storage \<Rightarrow> bool" where
  "same_files s t \<longleftrightarrow> (\<forall>f. is_open (st_disk s) f = is_open (st_disk t) f) \<and>
     (\<forall>f. getFilePageCount f (st_disk s) = getFilePageCount f (st_disk t)) \<and>
     dm_nextFileId (st_disk s) = dm_nextFileId (st_disk t) \<and>
     bp_poolSize (st_pool s) = bp_poolSize (st_pool t)"

definition same_pages :: "Storage \<Rightarrow> Storage \<Rightarrow> bool" where
  "same_pages s t \<longleftrightarrow> (\<forall>f p. page_ok f p \<longrightarrow> page_view s f p = page_view t f p)"

text \<open>A frame is available for the page: it is cached, with a pin count that can still be raised, or some frame
  is free or unpinned.\<close>

definition available :: "Storage \<Rightarrow> int \<Rightarrow> nat \<Rightarrow> bool" where
  "available s f p \<longleftrightarrow> (case lookup_page s f p of
      None \<Rightarrow> bp_freeList (st_pool s) \<noteq> [] \<or> bp_lruList (st_pool s) \<noteq> []
    | Some i \<Rightarrow> pf_pinCount (frame_at s i) < 2147483647)"

lemma pool_inv_unfold:
  "pool_inv s \<longleftrightarrow> pool_ok (st_disk s) (bp_poolSize (st_pool s)) (bp_frames (st_pool s)) (bp_pageTable (st_pool s))
     (bp_lruList (st_pool s)) (bp_lruMap (st_pool s)) (bp_freeList (st_pool s)) {}"
  by (simp add: pool_inv_def Let_def)

lemma pool_inv_lookup:
  assumes "pool_inv s" "lookup_page s f p = Some i" "page_ok f p"
  shows "i < length (bp_frames (st_pool s))" "pf_fileId (frame_at s i) = f" "pf_pageNum (frame_at s i) = p"
    "frame_ok (st_disk s) (frame_at s i)" "length (pf_data (frame_at s i)) = PAGE_SIZE"
    "(makePageKey f p, i) \<in> set (bp_pageTable (st_pool s))" "page_view s f p = pf_data (frame_at s i)"
proof -
  note inv = assms(1) [unfolded pool_inv_unfold]
  note l = pool_ok_lookup [OF inv assms(2) [unfolded lookup_page_def] assms(3)]
  note e = pool_ok_entry [OF inv l(1)]
  show "i < length (bp_frames (st_pool s))" "pf_fileId (frame_at s i) = f" "pf_pageNum (frame_at s i) = p"
    "frame_ok (st_disk s) (frame_at s i)" "(makePageKey f p, i) \<in> set (bp_pageTable (st_pool s))"
    using l e by (simp_all add: frame_at_def)
  show "length (pf_data (frame_at s i)) = PAGE_SIZE"
    using pool_ok_facts(3) [OF inv l(4)] by (simp add: frame_at_def)
  show "page_view s f p = pf_data (frame_at s i)"
    using assms(2) by (simp add: page_view_def view_of_def lookup_page_def frame_at_def)
qed

text \<open>An in-place change of a cached frame, as seen through the contract.\<close>

lemma frame_change:
  assumes inv: "pool_inv s" and l: "lookup_page s f p = Some i" and fp: "page_ok f p"
    and fr: "frame_ok (st_disk s) fr" "pf_fileId fr = f" "pf_pageNum fr = p" "length (pf_data fr) = PAGE_SIZE"
    and s': "st_disk s' = st_disk s" "bp_poolSize (st_pool s') = bp_poolSize (st_pool s)"
      "bp_frames (st_pool s') = (bp_frames (st_pool s))[i := fr]" "bp_pageTable (st_pool s') = bp_pageTable (st_pool s)"
      "bp_freeList (st_pool s') = bp_freeList (st_pool s)" "bp_lruMap (st_pool s') = set (bp_lruList (st_pool s'))"
      "distinct (bp_lruList (st_pool s'))"
      "set (bp_lruList (st_pool s')) = (if pf_pinCount fr = 0 then insert i (set (bp_lruList (st_pool s))) else set (bp_lruList (st_pool s)) - {i})"
  shows "pool_inv s'" "same_files s' s" "lookup_page s' g q = lookup_page s g q" "frame_at s' i = fr"
    "page_ok g q \<Longrightarrow> page_view s' g q = (if g = f \<and> q = p then pf_data fr else page_view s g q)"
    "page_ok g q \<Longrightarrow> pin_view s' g q = (if g = f \<and> q = p then pf_pinCount fr else pin_view s g q)"
proof -
  note ok = inv [unfolded pool_inv_unfold]
  note i = pool_inv_lookup [OF inv l fp]
  have key: "frame_key fr = makePageKey f p" using fr by (simp add: frame_key_def)
  show "pool_inv s'"
    using pool_ok_update_frame [OF ok i(6) fr(1) key fr(4) s'(7,8)] by (simp add: pool_inv_unfold s'(1-6))
  show "same_files s' s" by (simp add: same_files_def s')
  show lk: "lookup_page s' g q = lookup_page s g q" for g q by (simp add: lookup_page_def s')
  show at: "frame_at s' i = fr" using i(1) by (simp add: frame_at_def s')
  show "page_view s' g q = (if g = f \<and> q = p then pf_data fr else page_view s g q)" if gq: "page_ok g q"
    using view_of_update_frame [OF ok l [unfolded lookup_page_def] fp gq] by (simp add: page_view_def s')
  show "pin_view s' g q = (if g = f \<and> q = p then pf_pinCount fr else pin_view s g q)" if gq: "page_ok g q"
  proof (cases "g = f \<and> q = p")
    case True
    then show ?thesis using l at lk by (simp add: pin_view_def)
  next
    case False
    then have "lookup_page s g q \<noteq> Some i"
      using pool_inv_lookup(2,3) [OF inv _ gq, of i] i(2,3) by metis
    then have "pin_view s' g q = pin_view s g q"
      by (cases "lookup_page s g q") (auto simp: pin_view_def lk frame_at_def s')
    with False show ?thesis by auto
  qed
qed

text \<open>A fetch of a cached page.\<close>

lemma fetchPage_hit:
  assumes inv: "pool_inv s" and l: "lookup_page s f p = Some i" and fp: "page_ok f p" and room: "pf_pinCount (frame_at s i) < 2147483647"
  obtains s' where "fetchPage f p w s = Inr (i, s')" "pool_inv s'" "same_files s' s" "lookup_page s' f p = Some i"
    "same_pages s' s" "w \<Longrightarrow> pf_isDirty (frame_at s' i)"
    "\<And>g q. page_ok g q \<Longrightarrow> pin_view s' g q = (if g = f \<and> q = p then pin_view s f p + 1 else pin_view s g q)"
    "\<And>g q j. lookup_page s g q = Some j \<Longrightarrow> page_ok g q \<Longrightarrow> 0 < pin_view s g q \<Longrightarrow> lookup_page s' g q = Some j"
proof -
  note i = pool_inv_lookup [OF inv l fp]
  note facts = pool_ok_facts [OF inv [unfolded pool_inv_unfold]]
  define fr where "fr = (let fr = (frame_at s i)\<lparr>pf_pinCount := pf_pinCount (frame_at s i) + 1\<rparr>
    in if w then fr\<lparr>pf_isDirty := True\<rparr> else fr)"
  define bp where "bp = put_frame i fr ((st_pool s)\<lparr>bp_cacheHits := bp_cacheHits (st_pool s) + 1\<rparr>)"
  define s' where "s' = s\<lparr>st_pool := (if i \<in> bp_lruMap bp
      then bp\<lparr>bp_lruList := remove1 i (bp_lruList bp), bp_lruMap := bp_lruMap bp - {i}\<rparr> else bp)\<rparr>"
  have "in_int32 (pf_pinCount (frame_at s i) + 1)" using i(4) room by (simp add: in_int32_def frame_ok_def)
  then have run: "fetchPage f p w s = Inr (i, s')"
    using l i(1) by (simp add: fetchPage_def lookup_page_def get_frame_def fr_def bp_def s'_def frame_at_def Let_def)
  have fr: "frame_ok (st_disk s) fr" "pf_fileId fr = f" "pf_pageNum fr = p" "length (pf_data fr) = PAGE_SIZE"
    "pf_pinCount fr = pin_view s f p + 1" "pf_pinCount fr \<noteq> 0" "pf_data fr = page_view s f p"
    using i l by (auto simp: fr_def Let_def frame_ok_def pin_view_def)
  have "bp_lruMap (st_pool s') = set (bp_lruList (st_pool s'))" "distinct (bp_lruList (st_pool s'))"
    "set (bp_lruList (st_pool s')) = set (bp_lruList (st_pool s)) - {i}"
    using facts(13,14) by (auto simp: s'_def bp_def put_frame_def)
  with fr(6) have ch: "pool_inv s'" "same_files s' s" "lookup_page s' g q = lookup_page s g q" "frame_at s' i = fr"
    "page_ok g q \<Longrightarrow> page_view s' g q = (if g = f \<and> q = p then pf_data fr else page_view s g q)"
    "page_ok g q \<Longrightarrow> pin_view s' g q = (if g = f \<and> q = p then pf_pinCount fr else pin_view s g q)" for g q
    by (intro frame_change [OF inv l fp fr(1-4), of s']; simp add: s'_def bp_def put_frame_def)+
  show thesis
  proof (rule that [OF run ch(1,2)])
    show "w \<Longrightarrow> pf_isDirty (frame_at s' i)" using ch(4) by (simp add: fr_def Let_def)
  qed (use ch l fr(5,7) in \<open>auto simp: same_pages_def\<close>)
qed

text \<open>Writing a frame to its place on the disk, or leaving it if it is clean.\<close>

lemma write_back:
  assumes "disk_ok d" "frame_ok d fr" "length (pf_data fr) = PAGE_SIZE"
  obtains d' where "(if pf_isDirty fr then writePage (pf_fileId fr) (pf_pageNum fr) (pf_data fr) d else Inr d) = Inr d'"
    "disk_absorbs d fr d'"
proof (cases "pf_isDirty fr")
  case True
  have o: "is_open d (pf_fileId fr)" "\<not> getFilePageCount (pf_fileId fr) d \<le> pf_pageNum fr"
    using assms(2) by (auto simp: frame_ok_def)
  from writePage_spec [OF assms(1) o(1) assms(3), of "pf_pageNum fr"] o(2)
  obtain d' where "writePage (pf_fileId fr) (pf_pageNum fr) (pf_data fr) d = Inr d'" "disk_absorbs d fr d'"
    unfolding disk_absorbs_def by (metis (no_types, lifting))
  with True show thesis using that by simp
next
  case False
  then have "disk_absorbs d fr d"
    using assms(1,2) by (auto simp: disk_absorbs_def frame_ok_def fun_eq_iff)
  with False show thesis using that by simp
qed

definition detached :: "Storage \<Rightarrow> nat \<Rightarrow> DiskManager \<Rightarrow> BufferPool \<Rightarrow> bool" where
  "detached s v d bp \<longleftrightarrow>
     pool_ok d (bp_poolSize bp) (bp_frames bp) (bp_pageTable bp) (bp_lruList bp) (bp_lruMap bp) (bp_freeList bp) {v} \<and>
     bp_frames bp = bp_frames (st_pool s) \<and> bp_poolSize bp = bp_poolSize (st_pool s) \<and>
     same_files (s\<lparr>st_disk := d, st_pool := bp\<rparr>) s \<and> same_pages (s\<lparr>st_disk := d, st_pool := bp\<rparr>) s \<and>
     (\<forall>g q. page_ok g q \<longrightarrow> pin_view (s\<lparr>st_disk := d, st_pool := bp\<rparr>) g q = pin_view s g q) \<and>
     (\<forall>k. map_of (bp_pageTable (st_pool s)) k = None \<longrightarrow> map_of (bp_pageTable bp) k = None) \<and>
     (\<forall>k j. map_of (bp_pageTable (st_pool s)) k = Some j \<longrightarrow> pf_pinCount (frame_at s j) \<noteq> 0 \<longrightarrow>
        map_of (bp_pageTable bp) k = Some j)"

lemma detached_free:
  assumes inv: "pool_inv s" and free: "bp_freeList (st_pool s) = v # rest"
    and bp: "bp = (st_pool s)\<lparr>bp_cacheMisses := m, bp_freeList := rest\<rparr>"
  shows "evict (frame_at s v) (st_disk s) bp = Inr (st_disk s, bp)" "detached s v (st_disk s) bp" "v < length (bp_frames bp)"
proof -
  note facts = pool_ok_facts [OF inv [unfolded pool_inv_unfold]]
  have v: "pf_fileId (frame_at s v) = - 1" "v \<notin> used (bp_pageTable (st_pool s))" "v < bp_poolSize (st_pool s)" "v \<notin> set rest"
    using facts(7,8,11,12) free by (auto simp: frame_at_def)
  then show "evict (frame_at s v) (st_disk s) bp = Inr (st_disk s, bp)" by (simp add: evict_def)
  show "v < length (bp_frames bp)" using v(3) facts(2) bp by simp
  have "pool_ok (st_disk s) (bp_poolSize bp) (bp_frames bp) (bp_pageTable bp) (bp_lruList bp) (bp_lruMap bp) (bp_freeList bp) {v}"
  proof (rule pool_okI)
    show "{v} \<union> set (bp_freeList bp) \<union> used (bp_pageTable bp) = {..<bp_poolSize bp}"
      using facts(11) free bp by simp
  qed (use facts(1-6) facts(12-15) in \<open>simp_all add: bp free\<close>, use facts(7,8) free v in auto)
  then show "detached s v (st_disk s) bp"
    by (simp add: detached_def bp same_files_def same_pages_def page_view_def pin_view_def lookup_page_def frame_at_def
        cong: option.case_cong)
qed

lemma detached_lru:
  assumes inv: "pool_inv s" and lru: "bp_lruList (st_pool s) = pre @ [v]" and free: "bp_freeList (st_pool s) = []"
    and bp: "bp = (st_pool s)\<lparr>bp_cacheMisses := m, bp_lruList := pre, bp_lruMap := bp_lruMap (st_pool s) - {v}\<rparr>"
  obtains d' bp' where "evict (frame_at s v) (st_disk s) bp = Inr (d', bp')" "detached s v d' bp'" "v < length (bp_frames bp')"
proof -
  note ok = inv [unfolded pool_inv_unfold]
  note facts = pool_ok_facts [OF ok]
  let ?T = "bp_pageTable (st_pool s)" and ?frs = "bp_frames (st_pool s)"
  have v: "v \<in> used ?T" "pf_pinCount (frame_at s v) = 0" "v \<notin> set pre" "distinct pre"
    using facts(15) [of v] facts(13) lru by (auto simp: frame_at_def)
  then obtain k where k: "(k, v) \<in> set ?T" by force
  note en = pool_ok_entry [OF ok k]
  have fr: "frame_ok (st_disk s) (frame_at s v)" "length (pf_data (frame_at s v)) = PAGE_SIZE"
    and key: "makePageKey (pf_fileId (frame_at s v)) (pf_pageNum (frame_at s v)) = k"
    using en facts(3) by (simp_all add: frame_at_def frame_key_def)
  obtain d' where wb: "(if pf_isDirty (frame_at s v) then writePage (pf_fileId (frame_at s v)) (pf_pageNum (frame_at s v))
      (pf_data (frame_at s v)) (st_disk s) else Inr (st_disk s)) = Inr d'" and ab: "disk_absorbs (st_disk s) (frame_at s v) d'"
    by (rule write_back [OF facts(1) fr])
  define bp' where "bp' = bp\<lparr>bp_pageTable := AList.delete k ?T\<rparr>"
  have "pf_fileId (frame_at s v) \<ge> 0" "pf_pageId (frame_at s v) \<noteq> INVALID_PAGE_ID"
    using fr(1) by (auto simp: frame_ok_def page_ok_def INVALID_PAGE_ID_def)
  then have ev: "evict (frame_at s v) (st_disk s) bp = Inr (d', bp')"
    using wb by (simp add: evict_def Let_def key bp'_def) (simp add: bp)
  have ab': "disk_absorbs (st_disk s) (?frs ! v) d'" using ab by (simp add: frame_at_def)
  have l: "set pre = set (bp_lruList (st_pool s)) - {v}" "bp_lruMap (st_pool s) - {v} = set pre"
    using v(3) lru facts(14) by auto
  have P: "pool_ok d' (bp_poolSize bp') (bp_frames bp') (bp_pageTable bp') (bp_lruList bp') (bp_lruMap bp') (bp_freeList bp') {v}"
    using pool_ok_detach [OF ok k v(4) l(1) ab'] l(2) by (simp add: bp'_def bp)
  have vw: "page_ok g q \<Longrightarrow> page_view (s\<lparr>st_disk := d', st_pool := bp'\<rparr>) g q = page_view s g q" for g q
    using view_of_detach [OF ok k ab'] by (simp add: page_view_def bp'_def bp)
  have pn: "pin_view (s\<lparr>st_disk := d', st_pool := bp'\<rparr>) g q = pin_view s g q" for g q
  proof -
    have "map_of ?T k = Some v" using facts(4) k by simp
    then show ?thesis
      using v(2) by (simp add: pin_view_def lookup_page_def bp'_def bp AList.delete_conv' frame_at_def cong: option.case_cong)
  qed
  have keep: "map_of (bp_pageTable bp') l = Some j" if "map_of ?T l = Some j" "pf_pinCount (frame_at s j) \<noteq> 0" for l j
  proof -
    have "map_of ?T k = Some v" using facts(4) k by simp
    with that v(2) have "l \<noteq> k" by auto
    with that show ?thesis by (simp add: bp'_def AList.delete_conv')
  qed
  have "detached s v d' bp'"
    using P vw pn keep disk_absorbsD(2,3,4) [OF ab]
    by (simp add: detached_def same_files_def same_pages_def) (simp add: bp'_def bp AList.delete_conv')
  moreover have "v < length (bp_frames bp')" using en(2) by (simp add: bp'_def bp)
  ultimately show thesis using ev that by blast
qed

lemma detached_exists:
  assumes inv: "pool_inv s" and av: "bp_freeList (st_pool s) \<noteq> [] \<or> bp_lruList (st_pool s) \<noteq> []"
  obtains v bp d' bp' where
    "findVictimFrame ((st_pool s)\<lparr>bp_cacheMisses := bp_cacheMisses (st_pool s) + 1\<rparr>) = Inr (v, bp)"
    "get_frame bp v = Inr (frame_at s v)" "evict (frame_at s v) (st_disk s) bp = Inr (d', bp')"
    "detached s v d' bp'" "v < length (bp_frames bp')"
proof (cases "bp_freeList (st_pool s)")
  case (Cons v rest)
  define bp where "bp = (st_pool s)\<lparr>bp_cacheMisses := bp_cacheMisses (st_pool s) + 1, bp_freeList := rest\<rparr>"
  note d = detached_free [OF inv Cons bp_def]
  show thesis
  proof (rule that [OF _ _ d])
    show "findVictimFrame ((st_pool s)\<lparr>bp_cacheMisses := bp_cacheMisses (st_pool s) + 1\<rparr>) = Inr (v, bp)"
      by (simp add: findVictimFrame_def Cons bp_def)
    show "get_frame bp v = Inr (frame_at s v)" using d(3) by (simp add: get_frame_def frame_at_def bp_def)
  qed
next
  case Nil
  with av obtain pre v where lru: "bp_lruList (st_pool s) = pre @ [v]" by (metis append_butlast_last_id)
  define bp where "bp = (st_pool s)\<lparr>bp_cacheMisses := bp_cacheMisses (st_pool s) + 1, bp_lruList := pre,
      bp_lruMap := bp_lruMap (st_pool s) - {v}\<rparr>"
  obtain d' bp' where d: "evict (frame_at s v) (st_disk s) bp = Inr (d', bp')" "detached s v d' bp'" "v < length (bp_frames bp')"
    by (rule detached_lru [OF inv lru Nil bp_def])
  show thesis
  proof (rule that [OF _ _ d])
    show "findVictimFrame ((st_pool s)\<lparr>bp_cacheMisses := bp_cacheMisses (st_pool s) + 1\<rparr>) = Inr (v, bp)"
      by (simp add: findVictimFrame_def Nil lru bp_def Let_def)
    show "get_frame bp v = Inr (frame_at s v)"
      using d(2,3) by (simp add: get_frame_def frame_at_def bp_def detached_def)
  qed
qed

text \<open>A fetch of a page that is not cached.\<close>

lemma fetchPage_miss:
  assumes inv: "pool_inv s" and l: "lookup_page s f p = None" and ex: "page_exists (st_disk s) f p"
    and av: "bp_freeList (st_pool s) \<noteq> [] \<or> bp_lruList (st_pool s) \<noteq> []"
  obtains i s' where "fetchPage f p w s = Inr (i, s')" "pool_inv s'" "same_files s' s" "lookup_page s' f p = Some i"
    "same_pages s' s" "w \<Longrightarrow> pf_isDirty (frame_at s' i)"
    "\<And>g q. page_ok g q \<Longrightarrow> pin_view s' g q = (if g = f \<and> q = p then pin_view s f p + 1 else pin_view s g q)"
    "\<And>g q j. lookup_page s g q = Some j \<Longrightarrow> page_ok g q \<Longrightarrow> 0 < pin_view s g q \<Longrightarrow> lookup_page s' g q = Some j"
proof -
  have fp: "page_ok f p" using ex by (simp add: page_exists_def)
  obtain v bp d' bp' where run: "findVictimFrame ((st_pool s)\<lparr>bp_cacheMisses := bp_cacheMisses (st_pool s) + 1\<rparr>) = Inr (v, bp)"
    "get_frame bp v = Inr (frame_at s v)" "evict (frame_at s v) (st_disk s) bp = Inr (d', bp')"
    and det: "detached s v d' bp'" and v: "v < length (bp_frames bp')"
    by (rule detached_exists [OF inv av])
  define t where "t = s\<lparr>st_disk := d', st_pool := bp'\<rparr>"
  have P: "pool_ok d' (bp_poolSize bp') (bp_frames bp') (bp_pageTable bp') (bp_lruList bp') (bp_lruMap bp') (bp_freeList bp') {v}"
    and sf: "same_files t s" and sp: "same_pages t s" and pin: "\<And>g q. page_ok g q \<Longrightarrow> pin_view t g q = pin_view s g q"
    and new: "map_of (bp_pageTable bp') (makePageKey f p) = None"
    and keep: "\<And>k j. map_of (bp_pageTable (st_pool s)) k = Some j \<Longrightarrow> pf_pinCount (frame_at s j) \<noteq> 0 \<Longrightarrow>
        map_of (bp_pageTable bp') k = Some j"
    using det l by (auto simp: detached_def t_def lookup_page_def)
  have ex': "is_open d' f" "p < getFilePageCount f d'" using ex sf by (auto simp: page_exists_def same_files_def t_def)
  define fr where "fr = \<lparr>pf_data = disk_page d' f p, pf_pageId = p, pf_fileId = f, pf_pageNum = p, pf_isDirty = w, pf_pinCount = 1\<rparr>"
  define s' where "s' = s\<lparr>st_disk := d', st_pool := (put_frame v fr bp')\<lparr>bp_pageTable := AList.update (makePageKey f p) v (bp_pageTable bp')\<rparr>\<rparr>"
  have fetch: "fetchPage f p w s = Inr (v, s')"
    using l run readPage_disk_page [OF ex'(1)]
    by (simp add: fetchPage_def lookup_page_def Let_def s'_def fr_def put_frame_def)
  have fr: "frame_ok d' fr" "frame_key fr = makePageKey f p" "length (pf_data fr) = PAGE_SIZE" "pf_pinCount fr \<noteq> 0"
    using ex' fp by (simp_all add: fr_def frame_ok_def frame_key_def)
  show thesis
  proof (rule that [OF fetch])
    show "pool_inv s'"
      using pool_ok_attach [OF P new fr] by (simp add: pool_inv_unfold s'_def put_frame_def)
    show "same_files s' s" using sf by (simp add: same_files_def s'_def t_def put_frame_def)
    show lk: "lookup_page s' f p = Some v" by (simp add: lookup_page_def s'_def AList.update_conv')
    show "pf_isDirty (frame_at s' v)" if w using that v by (simp add: frame_at_def s'_def put_frame_def fr_def)
    have "page_view s' g q = page_view t g q" if "page_ok g q" for g q
      using view_of_attach [OF P new _ fp that, of fr]
      by (simp add: page_view_def s'_def t_def put_frame_def fr_def)
    then show "same_pages s' s" using sp by (simp add: same_pages_def)
    show "lookup_page s' g q = Some j" if g: "lookup_page s g q = Some j" "page_ok g q" "0 < pin_view s g q" for g q j
    proof -
      have "\<not> (g = f \<and> q = p)" using g(1) l by auto
      then have "makePageKey g q \<noteq> makePageKey f p" using g(2) fp by simp
      moreover have "map_of (bp_pageTable bp') (makePageKey g q) = Some j"
        using g keep by (simp add: lookup_page_def pin_view_def)
      ultimately show ?thesis by (simp add: lookup_page_def s'_def AList.update_conv')
    qed
    show "pin_view s' g q = (if g = f \<and> q = p then pin_view s f p + 1 else pin_view s g q)" if gq: "page_ok g q" for g q
    proof (cases "g = f \<and> q = p")
      case True
      then show ?thesis
        using lk v l by (simp add: pin_view_def) (simp add: frame_at_def s'_def put_frame_def fr_def)
    next
      case False
      then have ne: "makePageKey g q \<noteq> makePageKey f p" using gq fp by simp
      have "map_of (bp_pageTable bp') (makePageKey g q) \<noteq> Some v"
        using pool_ok_facts(10) [OF P] by (force dest!: map_of_SomeD)
      then have "pin_view s' g q = pin_view t g q"
        using ne by (cases "map_of (bp_pageTable bp') (makePageKey g q)")
          (auto simp: pin_view_def lookup_page_def s'_def t_def AList.update_conv' frame_at_def put_frame_def)
      with False pin [OF gq] show ?thesis by auto
    qed
  qed
qed

lemma fetchPage_spec:
  assumes "pool_inv s" "page_exists (st_disk s) f p" "available s f p"
  shows "\<exists>i s'. fetchPage f p w s = Inr (i, s') \<and> pool_inv s' \<and> same_files s' s \<and> lookup_page s' f p = Some i \<and>
    same_pages s' s \<and> (w \<longrightarrow> pf_isDirty (frame_at s' i)) \<and>
    (\<forall>g q. page_ok g q \<longrightarrow> pin_view s' g q = (if g = f \<and> q = p then pin_view s f p + 1 else pin_view s g q)) \<and>
    (\<forall>g q j. lookup_page s g q = Some j \<longrightarrow> page_ok g q \<longrightarrow> 0 < pin_view s g q \<longrightarrow> lookup_page s' g q = Some j)"
proof (cases "lookup_page s f p")
  case None
  with assms(3) have "bp_freeList (st_pool s) \<noteq> [] \<or> bp_lruList (st_pool s) \<noteq> []" by (simp add: available_def)
  then obtain i s' where r: "fetchPage f p w s = Inr (i, s')" "pool_inv s'" "same_files s' s" "lookup_page s' f p = Some i"
    "same_pages s' s" "w \<Longrightarrow> pf_isDirty (frame_at s' i)"
    "\<And>g q. page_ok g q \<Longrightarrow> pin_view s' g q = (if g = f \<and> q = p then pin_view s f p + 1 else pin_view s g q)"
    "\<And>g q j. lookup_page s g q = Some j \<Longrightarrow> page_ok g q \<Longrightarrow> 0 < pin_view s g q \<Longrightarrow> lookup_page s' g q = Some j"
    using fetchPage_miss [OF assms(1) None assms(2), of w] by blast
  show ?thesis by (intro exI conjI allI impI; (rule r; assumption))
next
  case (Some i)
  have "page_ok f p" "pf_pinCount (frame_at s i) < 2147483647"
    using assms(2,3) Some by (simp_all add: page_exists_def available_def)
  then obtain s' where r: "fetchPage f p w s = Inr (i, s')" "pool_inv s'" "same_files s' s" "lookup_page s' f p = Some i"
    "same_pages s' s" "w \<Longrightarrow> pf_isDirty (frame_at s' i)"
    "\<And>g q. page_ok g q \<Longrightarrow> pin_view s' g q = (if g = f \<and> q = p then pin_view s f p + 1 else pin_view s g q)"
    "\<And>g q j. lookup_page s g q = Some j \<Longrightarrow> page_ok g q \<Longrightarrow> 0 < pin_view s g q \<Longrightarrow> lookup_page s' g q = Some j"
    using fetchPage_hit [OF assms(1) Some, of w] by blast
  show ?thesis by (intro exI conjI allI impI; (rule r; assumption))
qed

lemma fetchPage_exhausted:
  assumes "lookup_page s f p = None" "bp_freeList (st_pool s) = []" "bp_lruList (st_pool s) = []"
  shows "fetchPage f p w s = Inl (RuntimeError ''BufferPool: all frames are pinned, cannot evict'')"
  using assms by (simp add: fetchPage_def lookup_page_def findVictimFrame_def Let_def)

lemma unpinPage_spec:
  assumes inv: "pool_inv s" and l: "lookup_page s f p = Some i" and fp: "page_ok f p" and pin: "0 < pin_view s f p"
  shows "\<exists>s'. unpinPage f p dirty s = Inr s' \<and> pool_inv s' \<and> same_files s' s \<and> same_pages s' s \<and>
    (\<forall>g q. page_ok g q \<longrightarrow> pin_view s' g q = (if g = f \<and> q = p then pin_view s f p - 1 else pin_view s g q))"
proof -
  note i = pool_inv_lookup [OF inv l fp]
  note facts = pool_ok_facts [OF inv [unfolded pool_inv_unfold]]
  have pc: "pf_pinCount (frame_at s i) = pin_view s f p" using l by (simp add: pin_view_def)
  define fr where "fr = (let fr = (frame_at s i)\<lparr>pf_pinCount := pf_pinCount (frame_at s i) - 1\<rparr>
    in if dirty then fr\<lparr>pf_isDirty := True\<rparr> else fr)"
  define bp where "bp = put_frame i fr (st_pool s)"
  define s' where "s' = s\<lparr>st_pool := (if pf_pinCount fr = 0
      then bp\<lparr>bp_lruList := i # bp_lruList bp, bp_lruMap := insert i (bp_lruMap bp)\<rparr> else bp)\<rparr>"
  have run: "unpinPage f p dirty s = Inr s'"
    using l i(1) pin pc by (simp add: unpinPage_def lookup_page_def get_frame_def fr_def bp_def s'_def frame_at_def Let_def)
  have fr: "frame_ok (st_disk s) fr" "pf_fileId fr = f" "pf_pageNum fr = p" "length (pf_data fr) = PAGE_SIZE"
    "pf_pinCount fr = pin_view s f p - 1" "pf_data fr = page_view s f p"
    using i pc pin by (auto simp: fr_def Let_def frame_ok_def)
  have ni: "i \<notin> set (bp_lruList (st_pool s))" using facts(15) [of i] pc pin by (simp add: frame_at_def)
  have "bp_lruMap (st_pool s') = set (bp_lruList (st_pool s'))" "distinct (bp_lruList (st_pool s'))"
    "set (bp_lruList (st_pool s')) = (if pf_pinCount fr = 0 then insert i (set (bp_lruList (st_pool s)))
       else set (bp_lruList (st_pool s)) - {i})"
    using facts(13,14) ni by (auto simp: s'_def bp_def put_frame_def)
  then have ch: "pool_inv s'" "same_files s' s"
    "page_ok g q \<Longrightarrow> page_view s' g q = (if g = f \<and> q = p then pf_data fr else page_view s g q)"
    "page_ok g q \<Longrightarrow> pin_view s' g q = (if g = f \<and> q = p then pf_pinCount fr else pin_view s g q)" for g q
    by (intro frame_change [OF inv l fp fr(1-4), of s']; simp add: s'_def bp_def put_frame_def)+
  then show ?thesis using run fr(5,6) by (auto simp: same_pages_def)
qed

text \<open>A page that is not cached or not pinned: \<open>unpinPage\<close> does nothing.\<close>

lemma unpinPage_idle:
  "pool_inv s \<Longrightarrow> page_ok f p \<Longrightarrow> pin_view s f p \<le> 0 \<Longrightarrow> unpinPage f p dirty s = Inr s"
  using pool_inv_lookup(1) [of s f p]
  by (auto simp: unpinPage_def pin_view_def lookup_page_def get_frame_def frame_at_def Let_def split: option.splits)

lemma set_frame_data_spec:
  assumes inv: "pool_inv s" and l: "lookup_page s f p = Some i" and fp: "page_ok f p"
    and bytes: "length bytes = PAGE_SIZE" and d: "pf_isDirty (frame_at s i) \<or> bytes = page_view s f p"
  shows "pool_inv (set_frame_data i bytes s)" "same_files (set_frame_data i bytes s) s"
    "lookup_page (set_frame_data i bytes s) f p = Some i"
    "page_ok g q \<Longrightarrow> page_view (set_frame_data i bytes s) g q = (if g = f \<and> q = p then bytes else page_view s g q)"
    "page_ok g q \<Longrightarrow> pin_view (set_frame_data i bytes s) g q = pin_view s g q"
proof -
  note i = pool_inv_lookup [OF inv l fp]
  note facts = pool_ok_facts [OF inv [unfolded pool_inv_unfold]]
  define fr where "fr = (frame_at s i)\<lparr>pf_data := bytes\<rparr>"
  have fr: "frame_ok (st_disk s) fr" "pf_fileId fr = f" "pf_pageNum fr = p" "length (pf_data fr) = PAGE_SIZE"
    using i bytes d by (auto simp: fr_def frame_ok_def)
  have "i \<in> used (bp_pageTable (st_pool s))" using i(6) by force
  then have li: "set (bp_lruList (st_pool s)) = (if pf_pinCount fr = 0 then insert i (set (bp_lruList (st_pool s)))
      else set (bp_lruList (st_pool s)) - {i})"
    using facts(15) [of i] by (auto simp: fr_def frame_at_def)
  have ch: "pool_inv (set_frame_data i bytes s)" "same_files (set_frame_data i bytes s) s"
    "lookup_page (set_frame_data i bytes s) g q = lookup_page s g q"
    "page_ok g q \<Longrightarrow> page_view (set_frame_data i bytes s) g q = (if g = f \<and> q = p then pf_data fr else page_view s g q)"
    "page_ok g q \<Longrightarrow> pin_view (set_frame_data i bytes s) g q = (if g = f \<and> q = p then pf_pinCount fr else pin_view s g q)" for g q
    using li facts(13,14)
    by (intro frame_change [OF inv l fp fr, of "set_frame_data i bytes s"];
        simp add: set_frame_data_def put_frame_def fr_def frame_at_def)+
  then show "pool_inv (set_frame_data i bytes s)" "same_files (set_frame_data i bytes s) s"
    "lookup_page (set_frame_data i bytes s) f p = Some i"
    "page_ok g q \<Longrightarrow> page_view (set_frame_data i bytes s) g q = (if g = f \<and> q = p then bytes else page_view s g q)"
    "page_ok g q \<Longrightarrow> pin_view (set_frame_data i bytes s) g q = pin_view s g q"
    using l by (auto simp: fr_def pin_view_def)
qed

section \<open>Flushing\<close>

lemma pool_ok_flush:
  assumes inv: "pool_ok d n frs T lru lmap free D" and e: "(k, i) \<in> set T" and ab: "disk_absorbs d (frs ! i) d'"
  shows "pool_ok d' n (frs[i := (frs ! i)\<lparr>pf_isDirty := False\<rparr>]) T lru lmap free D"
proof (rule pool_okI)
  note facts = pool_ok_facts [OF inv] and en = pool_ok_entry [OF inv e]
  let ?frs = "frs[i := (frs ! i)\<lparr>pf_isDirty := False\<rparr>]"
  have nth: "pf_data (?frs ! j) = pf_data (frs ! j)" "pf_fileId (?frs ! j) = pf_fileId (frs ! j)"
    "pf_pinCount (?frs ! j) = pf_pinCount (frs ! j)" for j
    using en(2) by (cases "j = i"; simp)+
  show "disk_ok d'" by (rule disk_absorbsD [OF ab])
  show "entry_ok d' ?frs l j" if lj: "(l, j) \<in> set T" for l j
  proof (cases "j = i")
    case True
    have "k = l" using pool_ok_same_index [OF inv e] lj True by simp
    with True en disk_absorbsD [OF ab] show ?thesis
      by (auto simp: entry_ok_def frame_ok_def frame_key_def)
  next
    case False
    have "l \<noteq> k"
      using False lj e facts(4) by (metis eq_key_imp_eq_value)
    then have "frame_ok d' (frs ! j)"
      using pool_ok_entry [OF inv lj] en(3) by (intro frame_ok_other_page [OF _ ab]) auto
    with False pool_ok_entry [OF inv lj] show ?thesis by (simp add: entry_ok_def)
  qed
  show "length ?frs = n" using facts(2) by simp
  show "length (pf_data (?frs ! j)) = PAGE_SIZE" if "j < n" for j using facts(3) that nth(1) by simp
  show "pf_fileId (?frs ! j) = - 1" if "j \<in> set free" for j using facts(12) that nth(2) by simp
  show "j \<in> set lru \<longleftrightarrow> j \<in> used T \<and> pf_pinCount (?frs ! j) = 0" for j using facts(15) [of j] nth(3) by simp
qed (rule pool_ok_facts [OF inv])+

lemma flush_entry_spec:
  assumes inv: "pool_inv s" and e: "(k, i) \<in> set (bp_pageTable (st_pool s))"
  shows "\<exists>s'. flush_entry (k, i) s = Inr s' \<and> pool_inv s' \<and> same_files s' s \<and> same_pages s' s \<and>
    bp_pageTable (st_pool s') = bp_pageTable (st_pool s) \<and> \<not> pf_isDirty (frame_at s' i) \<and>
    (\<forall>j. pf_isDirty (frame_at s' j) \<longrightarrow> pf_isDirty (frame_at s j)) \<and> pin_view s' = pin_view s"
proof -
  note ok = inv [unfolded pool_inv_unfold]
  note en = pool_ok_entry [OF ok e] and facts = pool_ok_facts [OF ok]
  show ?thesis
  proof (cases "pf_isDirty (frame_at s i)")
    case False
    then have "flush_entry (k, i) s = Inr s"
      using en(2) by (simp add: flush_entry_def get_frame_def frame_at_def)
    with inv False show ?thesis by (auto simp: same_files_def same_pages_def)
  next
    case True
    have fr: "frame_ok (st_disk s) (frame_at s i)" "length (pf_data (frame_at s i)) = PAGE_SIZE"
      using en facts(3) by (simp_all add: frame_at_def)
    obtain d' where d': "writePage (pf_fileId (frame_at s i)) (pf_pageNum (frame_at s i)) (pf_data (frame_at s i)) (st_disk s) = Inr d'"
      and ab: "disk_absorbs (st_disk s) (frame_at s i) d'"
      using write_back [OF facts(1) fr] True by auto
    define s' where "s' = s\<lparr>st_disk := d', st_pool := put_frame i ((frame_at s i)\<lparr>pf_isDirty := False\<rparr>) (st_pool s)\<rparr>"
    have "pf_fileId (frame_at s i) \<ge> 0" using fr(1) by (simp add: frame_ok_def page_ok_def)
    then have run: "flush_entry (k, i) s = Inr s'"
      using True en(2) d' by (simp add: flush_entry_def get_frame_def frame_at_def s'_def)
    have frs: "bp_frames (st_pool s') = (bp_frames (st_pool s))[i := (bp_frames (st_pool s) ! i)\<lparr>pf_isDirty := False\<rparr>]"
      by (simp add: s'_def put_frame_def frame_at_def)
    have at: "pf_data (frame_at s' j) = pf_data (frame_at s j)" "pf_pinCount (frame_at s' j) = pf_pinCount (frame_at s j)"
      "pf_isDirty (frame_at s' j) \<longleftrightarrow> j \<noteq> i \<and> pf_isDirty (frame_at s j)" for j
      using en(2) by (cases "j = i"; simp add: frame_at_def frs)+
    have "pool_inv s'"
      using pool_ok_flush [OF ok e ab [unfolded frame_at_def]] by (simp add: pool_inv_unfold frs) (simp add: s'_def put_frame_def)
    moreover have "page_view s' f p = page_view s f p" if fp: "page_ok f p" for f p
    proof (cases "lookup_page s f p")
      case None
      then have "\<not> (f = pf_fileId (frame_at s i) \<and> p = pf_pageNum (frame_at s i))"
        using en(3) facts(4) e by (auto simp: lookup_page_def frame_key_def frame_at_def)
      then have "disk_page d' f p = disk_page (st_disk s) f p" by (auto simp: disk_absorbsD(5) [OF ab])
      with None show ?thesis
        by (simp add: page_view_def view_of_def lookup_page_def) (simp add: s'_def put_frame_def)
    next
      case (Some j)
      then show ?thesis
        using at(1) [of j] by (simp add: page_view_def view_of_def lookup_page_def s'_def put_frame_def frame_at_def)
    qed
    moreover have "pin_view s' = pin_view s"
      using at(2) by (simp add: pin_view_def fun_eq_iff lookup_page_def s'_def put_frame_def cong: option.case_cong)
    ultimately show ?thesis
      using run at(3) disk_absorbsD(2,3,4) [OF ab]
      by (simp add: same_files_def same_pages_def) (simp add: s'_def put_frame_def)
  qed
qed

lemma flush_entries:
  assumes "pool_inv s" "set es \<subseteq> set (bp_pageTable (st_pool s))"
  shows "\<exists>s'. foldE flush_entry es s = Inr s' \<and> pool_inv s' \<and> same_files s' s \<and> same_pages s' s \<and>
    bp_pageTable (st_pool s') = bp_pageTable (st_pool s) \<and> (\<forall>(k, i) \<in> set es. \<not> pf_isDirty (frame_at s' i)) \<and>
    (\<forall>j. pf_isDirty (frame_at s' j) \<longrightarrow> pf_isDirty (frame_at s j)) \<and> pin_view s' = pin_view s"
  using assms
proof (induction es arbitrary: s)
  case Nil
  then show ?case by (auto simp: same_files_def same_pages_def)
next
  case (Cons e es)
  obtain k i where e: "e = (k, i)" by (cases e)
  obtain t where t: "flush_entry (k, i) s = Inr t" "pool_inv t" "same_files t s" "same_pages t s"
    "bp_pageTable (st_pool t) = bp_pageTable (st_pool s)" "\<not> pf_isDirty (frame_at t i)"
    "\<forall>j. pf_isDirty (frame_at t j) \<longrightarrow> pf_isDirty (frame_at s j)" "pin_view t = pin_view s"
    using flush_entry_spec [of s k i] Cons.prems e by auto
  obtain s' where "foldE flush_entry es t = Inr s'" "pool_inv s'" "same_files s' t" "same_pages s' t"
    "bp_pageTable (st_pool s') = bp_pageTable (st_pool t)" "\<forall>(k, i) \<in> set es. \<not> pf_isDirty (frame_at s' i)"
    "\<forall>j. pf_isDirty (frame_at s' j) \<longrightarrow> pf_isDirty (frame_at t j)" "pin_view s' = pin_view t"
    using Cons.IH [OF t(2)] Cons.prems(2) t(5) by auto
  with t e show ?case by (auto simp: same_files_def same_pages_def)
qed

lemma flushAllPages_spec:
  assumes "pool_inv s"
  shows "\<exists>s'. flushAllPages s = Inr s' \<and> pool_inv s' \<and> same_files s' s \<and> same_pages s' s \<and> pin_view s' = pin_view s \<and>
    (\<forall>f p. page_ok f p \<longrightarrow> disk_page (st_disk s') f p = page_view s f p)"
proof -
  obtain s' where s': "foldE flush_entry (bp_pageTable (st_pool s)) s = Inr s'" "pool_inv s'" "same_files s' s" "same_pages s' s"
    "bp_pageTable (st_pool s') = bp_pageTable (st_pool s)" "\<forall>(k, i) \<in> set (bp_pageTable (st_pool s)). \<not> pf_isDirty (frame_at s' i)"
    "pin_view s' = pin_view s"
    using flush_entries [OF assms subset_refl] by auto
  have "disk_page (st_disk s') f p = page_view s' f p" if fp: "page_ok f p" for f p
  proof (cases "lookup_page s' f p")
    case None
    then show ?thesis by (simp add: page_view_def view_of_def lookup_page_def)
  next
    case (Some i)
    note i = pool_inv_lookup [OF s'(2) Some fp]
    have "\<not> pf_isDirty (frame_at s' i)" using s'(5,6) i(6) by auto
    with i show ?thesis by (simp add: frame_ok_def)
  qed
  with s' show ?thesis by (auto simp: flushAllPages_def same_pages_def)
qed

lemma flushPage_as_entry:
  assumes "pool_inv s" "lookup_page s f p = Some i" "page_ok f p"
  shows "flushPage f p s = flush_entry (makePageKey f p, i) s"
proof -
  note i = pool_inv_lookup [OF assms]
  have "pf_fileId (frame_at s i) \<ge> 0" using i(4) by (simp add: frame_ok_def page_ok_def)
  with i assms(2) show ?thesis
    by (simp add: flushPage_def flush_entry_def lookup_page_def get_frame_def frame_at_def Let_def)
qed

section \<open>The interface of a page cache\<close>

text \<open>
  What a client of the pool relies on, between two of its own operations, when no page is
  pinned: a fetch shows the page and pins it, a write through the pointer of a page fetched
  for writing changes that page only, an unpin releases it.  The lemmas show what the bracket
  fetch, work, unpin of the page manager does.
\<close>

locale page_cache =
  fixes inv :: "'s \<Rightarrow> bool"
    and view :: "'s \<Rightarrow> int \<Rightarrow> nat \<Rightarrow> byte list"
    and pins :: "'s \<Rightarrow> int \<Rightarrow> nat \<Rightarrow> int"
    and meta :: "'s \<Rightarrow> 'm"
    and ok :: "int \<Rightarrow> nat \<Rightarrow> bool"
    and present :: "'s \<Rightarrow> int \<Rightarrow> nat \<Rightarrow> bool"
    and fetch :: "int \<Rightarrow> nat \<Rightarrow> bool \<Rightarrow> 's \<Rightarrow> (nat \<times> 's) res"
    and unpin :: "int \<Rightarrow> nat \<Rightarrow> bool \<Rightarrow> 's \<Rightarrow> 's res"
    and get :: "'s \<Rightarrow> nat \<Rightarrow> byte list res"
    and put :: "nat \<Rightarrow> byte list \<Rightarrow> 's \<Rightarrow> 's"
    and held :: "'s \<Rightarrow> int \<Rightarrow> nat \<Rightarrow> nat \<Rightarrow> bool"
    and writable :: "'s \<Rightarrow> nat \<Rightarrow> bool"
  assumes present_ok: "present s f p \<Longrightarrow> ok f p"
    and fetch_law: "inv s \<Longrightarrow> present s f p \<Longrightarrow> (\<And>g q. ok g q \<Longrightarrow> pins s g q = 0) \<Longrightarrow>
      \<exists>i s'. fetch f p w s = Inr (i, s') \<and> inv s' \<and> meta s' = meta s \<and> held s' f p i \<and> (w \<longrightarrow> writable s' i) \<and>
        (\<forall>g q. ok g q \<longrightarrow> view s' g q = view s g q) \<and>
        (\<forall>g q. ok g q \<longrightarrow> pins s' g q = (if g = f \<and> q = p then 1 else 0))"
    and get_law: "inv s \<Longrightarrow> ok f p \<Longrightarrow> held s f p i \<Longrightarrow> get s i = Inr (view s f p)"
    and put_law: "inv s \<Longrightarrow> ok f p \<Longrightarrow> held s f p i \<Longrightarrow> length b = PAGE_SIZE \<Longrightarrow> writable s i \<or> b = view s f p \<Longrightarrow>
      inv (put i b s) \<and> meta (put i b s) = meta s \<and> held (put i b s) f p i \<and>
        (\<forall>g q. ok g q \<longrightarrow> view (put i b s) g q = (if g = f \<and> q = p then b else view s g q)) \<and>
        (\<forall>g q. ok g q \<longrightarrow> pins (put i b s) g q = pins s g q)"
    and unpin_law: "inv s \<Longrightarrow> ok f p \<Longrightarrow> held s f p i \<Longrightarrow> 0 < pins s f p \<Longrightarrow>
      \<exists>s'. unpin f p d s = Inr s' \<and> inv s' \<and> meta s' = meta s \<and> (\<forall>g q. ok g q \<longrightarrow> view s' g q = view s g q) \<and>
        (\<forall>g q. ok g q \<longrightarrow> pins s' g q = (if g = f \<and> q = p then pins s f p - 1 else pins s g q))"
begin

lemma bracket:
  assumes s: "inv s" "present s f p" "\<And>g q. ok g q \<Longrightarrow> pins s g q = 0"
    and g: "g (view s f p) = Inr (x, b, dirty)" "length b = PAGE_SIZE" "w \<or> b = view s f p"
  shows "\<exists>s'. bindE (fetch f p w s) (\<lambda>(i, s). bindE (get s i) (\<lambda>pg. bindE (g pg) (\<lambda>(x, pg', dirty).
      bindE (unpin f p dirty (put i pg' s)) (\<lambda>s. Inr (x, s))))) = Inr (x, s') \<and>
    inv s' \<and> meta s' = meta s \<and> (\<forall>h q. ok h q \<longrightarrow> pins s' h q = 0) \<and>
    (\<forall>h q. ok h q \<longrightarrow> view s' h q = (if h = f \<and> q = p then b else view s h q))"
proof -
  have fp: "ok f p" using s(2) by (rule present_ok)
  obtain i t where t: "fetch f p w s = Inr (i, t)" "inv t" "meta t = meta s" "held t f p i" "w \<longrightarrow> writable t i"
    "\<forall>g q. ok g q \<longrightarrow> view t g q = view s g q" "\<forall>g q. ok g q \<longrightarrow> pins t g q = (if g = f \<and> q = p then 1 else 0)"
    using fetch_law [OF s, of w] by blast
  have w: "writable t i \<or> b = view t f p" using t(5,6) g(3) fp by auto
  note u = put_law [OF t(2) fp t(4) g(2) w]
  have "0 < pins (put i b t) f p" using u t(7) fp by simp
  then obtain s' where s': "unpin f p dirty (put i b t) = Inr s'" "inv s'" "meta s' = meta (put i b t)"
    "\<forall>g q. ok g q \<longrightarrow> view s' g q = view (put i b t) g q"
    "\<forall>g q. ok g q \<longrightarrow> pins s' g q = (if g = f \<and> q = p then pins (put i b t) f p - 1 else pins (put i b t) g q)"
    using unpin_law [of "put i b t" f p i dirty] u fp by blast
  have "get t i = Inr (view s f p)" using get_law [OF t(2) fp t(4)] t(6) fp by simp
  then show ?thesis using t s' u g(1) fp by auto
qed

lemma bracket_error:
  assumes s: "inv s" "present s f p" "\<And>g q. ok g q \<Longrightarrow> pins s g q = 0" and g: "g (view s f p) = Inl e"
  shows "bindE (fetch f p w s) (\<lambda>(i, s). bindE (get s i) (\<lambda>pg. bindE (g pg) (h i s))) = Inl e"
proof -
  have fp: "ok f p" using s(2) by (rule present_ok)
  obtain i t where t: "fetch f p w s = Inr (i, t)" "inv t" "held t f p i" "\<forall>g q. ok g q \<longrightarrow> view t g q = view s g q"
    using fetch_law [OF s, of w] by blast
  then show ?thesis using get_law [OF t(2) fp t(3)] g fp by simp
qed

end

definition storage_inv :: "Storage \<Rightarrow> bool" where
  "storage_inv s \<longleftrightarrow> pool_inv s \<and> 0 < bp_poolSize (st_pool s)"

text \<open>What the operations of the pool never change: which files are open, their page counts, the next
  file identifier and the size of the pool.\<close>

definition storage_meta :: "Storage \<Rightarrow> (int \<Rightarrow> bool) \<times> (int \<Rightarrow> nat) \<times> int \<times> nat" where
  "storage_meta s = (\<lambda>f. is_open (st_disk s) f, \<lambda>f. getFilePageCount f (st_disk s), dm_nextFileId (st_disk s), bp_poolSize (st_pool s))"

lemma same_files_meta: "same_files s t \<longleftrightarrow> storage_meta s = storage_meta t"
  by (simp add: same_files_def storage_meta_def fun_eq_iff)

lemma unpinned_available:
  assumes "storage_inv s" "\<And>g q. page_ok g q \<Longrightarrow> pin_view s g q = 0"
  shows "bp_freeList (st_pool s) \<noteq> [] \<or> bp_lruList (st_pool s) \<noteq> []"
proof (rule ccontr)
  assume "\<not> ?thesis"
  then have empty: "bp_freeList (st_pool s) = []" "bp_lruList (st_pool s) = []" by auto
  note ok = assms(1) [unfolded storage_inv_def, THEN conjunct1, unfolded pool_inv_unfold]
  have "0 < bp_poolSize (st_pool s)" using assms(1) by (simp add: storage_inv_def)
  with pool_ok_facts(11) [OF ok] empty obtain k i where e: "(k, i) \<in> set (bp_pageTable (st_pool s))" by auto
  note en = pool_ok_entry [OF ok e]
  have fp: "page_ok (pf_fileId (frame_at s i)) (pf_pageNum (frame_at s i))"
    using en(4) by (simp add: frame_ok_def frame_at_def)
  have "lookup_page s (pf_fileId (frame_at s i)) (pf_pageNum (frame_at s i)) = Some i"
    using e en(3) pool_ok_facts(4) [OF ok] by (simp add: lookup_page_def frame_key_def frame_at_def)
  then have "pf_pinCount (frame_at s i) = 0" using assms(2) [OF fp] by (simp add: pin_view_def)
  moreover have "i \<in> used (bp_pageTable (st_pool s))" using e by force
  ultimately show False using pool_ok_facts(15) [OF ok, of i] empty(2) by (simp add: frame_at_def)
qed

interpretation bp: page_cache storage_inv page_view pin_view storage_meta page_ok
  "\<lambda>s. page_exists (st_disk s)" fetchPage unpinPage frame_data set_frame_data
  "\<lambda>s f p i. lookup_page s f p = Some i" "\<lambda>s i. pf_isDirty (frame_at s i)"
proof (unfold_locales, goal_cases)
  case (1 s f p)
  then show ?case by (simp add: page_exists_def)
next
  case (2 s f p w)
  have "pin_view s f p = 0" using 2(2,3) by (simp add: page_exists_def)
  then have "pool_inv s" "available s f p" using 2(1,3) unpinned_available [of s]
    by (auto simp: storage_inv_def available_def pin_view_def split: option.splits)
  from fetchPage_spec [OF this(1) 2(2) this(2), of w] obtain i s' where
    r: "fetchPage f p w s = Inr (i, s')" "pool_inv s'" "same_files s' s" "lookup_page s' f p = Some i" "same_pages s' s"
      "w \<longrightarrow> pf_isDirty (frame_at s' i)"
      "\<forall>g q. page_ok g q \<longrightarrow> pin_view s' g q = (if g = f \<and> q = p then pin_view s f p + 1 else pin_view s g q)"
    by blast
  moreover have "page_ok f p" using 2(2) by (simp add: page_exists_def)
  moreover have "0 < bp_poolSize (st_pool s')" using r(3) 2(1) by (simp add: same_files_def storage_inv_def)
  ultimately show ?case using 2(3)
    by (intro exI [of _ i] exI [of _ s']) (simp add: storage_inv_def same_pages_def same_files_meta)
next
  case (3 s f p i)
  then show ?case using pool_inv_lookup [of s f p i]
    by (simp add: storage_inv_def frame_data_def get_frame_def frame_at_def)
next
  case (4 s f p i b)
  then have inv: "pool_inv s" and d: "pf_isDirty (frame_at s i) \<or> b = page_view s f p" by (auto simp: storage_inv_def)
  note r = set_frame_data_spec [OF inv 4(3,2,4) d]
  have "0 < bp_poolSize (st_pool (set_frame_data i b s))" using r(2) 4(1) by (simp add: same_files_def storage_inv_def)
  with r show ?case by (simp add: storage_inv_def same_files_meta)
next
  case (5 s f p i d)
  then have inv: "pool_inv s" by (simp add: storage_inv_def)
  from unpinPage_spec [OF inv 5(3,2,4), of d] obtain s' where
    r: "unpinPage f p d s = Inr s'" "pool_inv s'" "same_files s' s" "same_pages s' s"
      "\<forall>g q. page_ok g q \<longrightarrow> pin_view s' g q = (if g = f \<and> q = p then pin_view s f p - 1 else pin_view s g q)"
    by blast
  moreover have "0 < bp_poolSize (st_pool s')" using r(3) 5(1) by (simp add: same_files_def storage_inv_def)
  ultimately show ?case by (intro exI [of _ s']) (simp add: storage_inv_def same_pages_def same_files_meta)
qed

section \<open>Every history of the pool\<close>

text \<open>The calls a client may make: a fetch of an existing page, a write through the pointer of a
  page it holds for writing, an unpin of a page it holds, and the flushes.  A write needs a frame that is
  marked dirty: the pool cannot see a write through the pointer it gave out, so a client that fetched the page
  with \<open>forWrite = false\<close> and wrote it before the dirty unpin could have a flush in between take the frame as
  clean.  The only client in the sources, \<open>PageManager\<close>, fetches every page it writes with \<open>forWrite = true\<close>.\<close>

inductive pool_step :: "Storage \<Rightarrow> Storage \<Rightarrow> bool" where
  fetch: "page_exists (st_disk s) f p \<Longrightarrow> fetchPage f p w s = Inr (i, s') \<Longrightarrow> pool_step s s'"
| store: "page_ok f p \<Longrightarrow> lookup_page s f p = Some i \<Longrightarrow> 0 < pin_view s f p \<Longrightarrow> pf_isDirty (frame_at s i) \<Longrightarrow>
    length bytes = PAGE_SIZE \<Longrightarrow> pool_step s (set_frame_data i bytes s)"
| unpin: "page_ok f p \<Longrightarrow> unpinPage f p dirty s = Inr s' \<Longrightarrow> pool_step s s'"
| flush: "page_ok f p \<Longrightarrow> flushPage f p s = Inr s' \<Longrightarrow> pool_step s s'"
| flush_all: "flushAllPages s = Inr s' \<Longrightarrow> pool_step s s'"

inductive_cases pool_stepE: "pool_step s s'"

inductive pool_reach :: "DiskManager \<Rightarrow> nat \<Rightarrow> Storage \<Rightarrow> bool" for d n where
  init: "pool_reach d n \<lparr>st_disk = d, st_pool = new_BufferPool n\<rparr>"
| step: "pool_reach d n s \<Longrightarrow> pool_step s s' \<Longrightarrow> pool_reach d n s'"

lemma fetchPage_Inr_available: "fetchPage f p w s = Inr r \<Longrightarrow> available s f p"
  using fetchPage_exhausted [of s f p w]
  by (auto simp: available_def fetchPage_def lookup_page_def get_frame_def frame_at_def in_int32_def Let_def
      split: option.splits if_splits)

lemma unpinPage_inv:
  assumes "pool_inv s" "page_ok f p" "unpinPage f p dirty s = Inr s'"
  shows "pool_inv s'"
proof (cases "0 < pin_view s f p")
  case True
  then obtain i where "lookup_page s f p = Some i" by (auto simp: pin_view_def split: option.splits)
  from unpinPage_spec [OF assms(1) this assms(2) True, of dirty] assms(3) show ?thesis by auto
next
  case False
  then show ?thesis using unpinPage_idle [OF assms(1,2), of dirty] assms(1,3) by simp
qed

lemma flushPage_uncached: "lookup_page s f p = None \<Longrightarrow> flushPage f p s = Inr s"
  by (simp add: flushPage_def lookup_page_def)

lemma flushPage_inv:
  assumes "pool_inv s" "page_ok f p" "flushPage f p s = Inr s'"
  shows "pool_inv s'"
proof (cases "lookup_page s f p")
  case None
  then show ?thesis using assms by (simp add: flushPage_uncached)
next
  case (Some i)
  then have "(makePageKey f p, i) \<in> set (bp_pageTable (st_pool s))" using pool_inv_lookup(6) [OF assms(1)] assms(2) by blast
  from flush_entry_spec [OF assms(1) this] show ?thesis
    using assms(3) flushPage_as_entry [OF assms(1) Some assms(2)] by auto
qed

lemma pool_step_inv:
  assumes "pool_step s s'" "pool_inv s"
  shows "pool_inv s'"
  using assms
proof (cases rule: pool_step.cases)
  case (fetch f p w i)
  from fetchPage_spec [OF assms(2) fetch(1) fetchPage_Inr_available [OF fetch(2)], of w] fetch(2) show ?thesis by auto
next
  case (store f p i bytes)
  then show ?thesis using set_frame_data_spec(1) [OF assms(2) store(3) store(2) store(6)] store(5) by blast
next
  case (unpin f p dirty)
  then show ?thesis using unpinPage_inv assms(2) by blast
next
  case (flush f p)
  then show ?thesis using flushPage_inv assms(2) by blast
next
  case flush_all
  then show ?thesis using flushAllPages_spec [OF assms(2)] by auto
qed

lemma pool_reach_inv: "pool_reach d n s \<Longrightarrow> disk_ok d \<Longrightarrow> pool_inv s"
  by (induction rule: pool_reach.induct) (auto intro: pool_inv_new pool_step_inv)

section \<open>Properties\<close>

text \<open>A concrete machine for the witnesses: one open file of three pages, a pool of two frames.\<close>

definition sample_disk :: DiskManager where
  "sample_disk = \<lparr>dm_files = [1 \<mapsto> \<lparr>fh_fileName = ''minidb_data/t.db'', fh_pageCount = 3\<rparr>], dm_nextFileId = 2,
     dm_os = [''minidb_data/t.db'' \<mapsto> replicate (3 * PAGE_SIZE) (CHR ''x'')], dm_openable = (\<lambda>_. True)\<rparr>"

definition sample_storage :: Storage where
  "sample_storage = \<lparr>st_disk = sample_disk, st_pool = new_BufferPool 2\<rparr>"

lemma sample_disk_ok: "disk_ok sample_disk"
  by (simp add: disk_ok_def sample_disk_def file_name_def)

lemma sample_page_exists: "p < 3 \<Longrightarrow> page_exists (st_disk sample_storage) 1 p"
  by (simp add: page_exists_def page_ok_def sample_storage_def sample_disk_def getFilePageCount_def)

lemma sample_reach: "pool_reach sample_disk 2 sample_storage"
  unfolding sample_storage_def by (rule pool_reach.init)

lemma sample_available: "available sample_storage f p"
  by (simp add: available_def sample_storage_def new_BufferPool_def lookup_page_def)

text \<open>C3: After any history of calls, a fetch of an existing page for which a frame is cached (and pinned fewer than
  \<open>INT_MAX\<close> times), free or unpinned succeeds, its pointer shows the page's current contents, the invariant holds, no page
  changes its contents, whatever frame was evicted, and every pinned page stays in its frame.\<close>

theorem fetchPage_correct:
  assumes "pool_reach d n s" "disk_ok d" "page_exists (st_disk s) f p" "available s f p"
  shows "\<exists>i s'. fetchPage f p w s = Inr (i, s') \<and> pool_inv s' \<and> frame_data s' i = Inr (page_view s f p) \<and>
    same_pages s' s \<and> same_files s' s \<and> pin_view s' f p = pin_view s f p + 1 \<and>
    (\<forall>g q j. lookup_page s g q = Some j \<longrightarrow> page_ok g q \<longrightarrow> 0 < pin_view s g q \<longrightarrow> lookup_page s' g q = Some j)"
proof -
  have inv: "pool_inv s" by (rule pool_reach_inv [OF assms(1,2)])
  have fp: "page_ok f p" using assms(3) by (simp add: page_exists_def)
  obtain i s' where r: "fetchPage f p w s = Inr (i, s')" "pool_inv s'" "same_files s' s" "lookup_page s' f p = Some i" "same_pages s' s"
    "\<forall>g q. page_ok g q \<longrightarrow> pin_view s' g q = (if g = f \<and> q = p then pin_view s f p + 1 else pin_view s g q)"
    "\<forall>g q j. lookup_page s g q = Some j \<longrightarrow> page_ok g q \<longrightarrow> 0 < pin_view s g q \<longrightarrow> lookup_page s' g q = Some j"
    using fetchPage_spec [OF inv assms(3,4), of w] by blast
  have "frame_data s' i = Inr (page_view s' f p)"
    using pool_inv_lookup [OF r(2,4) fp] by (simp add: frame_data_def get_frame_def frame_at_def)
  then have "frame_data s' i = Inr (page_view s f p)" using r(5) fp by (simp add: same_pages_def)
  moreover have "pin_view s' f p = pin_view s f p + 1" using r(6) fp by simp
  ultimately show ?thesis using r(1-3,5,7) by blast
qed

theorem fetchPage_correct_witness:
  "\<exists>i s'. fetchPage 1 2 True sample_storage = Inr (i, s') \<and> frame_data s' i = Inr (page_view sample_storage 1 2)"
  using fetchPage_correct [OF sample_reach sample_disk_ok sample_page_exists [of 2] sample_available, of True] by auto

text \<open>C12: After any history of calls, \<open>flushAllPages\<close> succeeds, and from then on the disk alone
  holds, for every existing page, the contents clients of the pool saw.\<close>

theorem flushAllPages_durable:
  assumes "pool_reach d n s" "disk_ok d"
  shows "\<exists>s'. flushAllPages s = Inr s' \<and> pool_inv s' \<and> same_pages s' s \<and> same_files s' s \<and>
    (\<forall>f p. page_exists (st_disk s) f p \<longrightarrow> readPage f p (st_disk s') = Inr (page_view s f p))"
proof -
  obtain s' where r: "flushAllPages s = Inr s'" "pool_inv s'" "same_files s' s" "same_pages s' s"
    "\<forall>f p. page_ok f p \<longrightarrow> disk_page (st_disk s') f p = page_view s f p"
    using flushAllPages_spec [OF pool_reach_inv [OF assms]] by blast
  have "readPage f p (st_disk s') = Inr (page_view s f p)" if "page_exists (st_disk s) f p" for f p
    using that r(3,5) readPage_disk_page [of "st_disk s'" f p] by (auto simp: page_exists_def same_files_def)
  with r show ?thesis by blast
qed

text \<open>A pool of one frame that holds page 0, pinned, with new contents not on the disk yet.\<close>

lemma one_frame_pool:
  obtains s where "pool_reach sample_disk 1 s" "page_view s 1 0 = replicate PAGE_SIZE (CHR ''x'')" "lookup_page s 1 0 = Some 0"
    "pin_view s 1 0 = 1" "\<And>p. p < 3 \<Longrightarrow> page_exists (st_disk s) 1 p" "bp_poolSize (st_pool s) = 1" "pool_inv s"
proof -
  let ?s0 = "\<lparr>st_disk = sample_disk, st_pool = new_BufferPool 1\<rparr>"
  let ?x = "replicate PAGE_SIZE (CHR ''x'')"
  have r0: "pool_reach sample_disk 1 ?s0" by (rule pool_reach.init)
  have i0: "pool_inv ?s0" by (rule pool_reach_inv [OF r0 sample_disk_ok])
  have e: "page_exists (st_disk ?s0) 1 p" if "p < 3" for p using sample_page_exists [OF that] by (simp add: sample_storage_def)
  have "available ?s0 1 0" by (simp add: available_def new_BufferPool_def lookup_page_def)
  from fetchPage_spec [OF i0 e this, of True] obtain i s where
    f: "fetchPage 1 0 True ?s0 = Inr (i, s)" "pool_inv s" "same_files s ?s0" "lookup_page s 1 0 = Some i" "pf_isDirty (frame_at s i)"
      "\<forall>g q. page_ok g q \<longrightarrow> pin_view s g q = (if g = 1 \<and> q = 0 then pin_view ?s0 1 0 + 1 else pin_view ?s0 g q)"
    by auto
  have ok: "page_ok 1 0" by (simp add: page_ok_def)
  have pin: "pin_view s 1 0 = 1" using f(6) ok by (simp add: pin_view_def lookup_page_def new_BufferPool_def)
  have sz: "bp_poolSize (st_pool s) = 1" using f(3) by (simp add: same_files_def new_BufferPool_def)
  have "length (bp_frames (st_pool s)) = 1" using pool_ok_facts(2) [OF f(2) [unfolded pool_inv_unfold]] sz by simp
  then have i: "i = 0" using pool_inv_lookup(1) [OF f(2,4) ok] by simp
  let ?t = "set_frame_data i ?x s"
  have "length ?x = PAGE_SIZE" by simp
  note u = set_frame_data_spec [OF f(2,4) ok this disjI1 [OF f(5)]]
  have "pool_reach sample_disk 1 s" by (rule pool_reach.step [OF r0]) (rule pool_step.fetch [OF e f(1)], simp)
  then have "pool_reach sample_disk 1 ?t"
    by (rule pool_reach.step) (rule pool_step.store [OF ok f(4) _ f(5)], use pin in simp_all)
  then show thesis
    by (rule that) (use u ok pin i f(4) sz e f(3) in \<open>simp_all add: page_exists_def same_files_def\<close>)
qed

theorem flushAllPages_durable_witness:
  "\<exists>s s'. pool_reach sample_disk 1 s \<and> flushAllPages s = Inr s' \<and> readPage 1 0 (st_disk s') = Inr (replicate PAGE_SIZE (CHR ''x''))"
proof -
  obtain s where s: "pool_reach sample_disk 1 s" "page_view s 1 0 = replicate PAGE_SIZE (CHR ''x'')" "page_exists (st_disk s) 1 0"
    by (rule one_frame_pool) auto
  from flushAllPages_durable [OF s(1) sample_disk_ok] s show ?thesis by auto
qed

text \<open>C28: After any history of calls, a fetch of an existing page fails with the exhaustion error exactly when the
  page is not cached and every frame holds a pinned page.\<close>

theorem fetchPage_fails_iff_all_pinned:
  assumes "pool_reach d n s" "disk_ok d" "page_exists (st_disk s) f p"
  shows "fetchPage f p w s = Inl (RuntimeError ''BufferPool: all frames are pinned, cannot evict'') \<longleftrightarrow>
      lookup_page s f p = None \<and>
      (\<forall>i < bp_poolSize (st_pool s). \<exists>k. (k, i) \<in> set (bp_pageTable (st_pool s)) \<and> 0 < pf_pinCount (frame_at s i))"
    (is "?L \<longleftrightarrow> _ \<and> ?R")
proof -
  have inv: "pool_inv s" by (rule pool_reach_inv [OF assms(1,2)])
  note ok = inv [unfolded pool_inv_unfold]
  note facts = pool_ok_facts [OF ok]
  have "?L \<longleftrightarrow> lookup_page s f p = None \<and> bp_freeList (st_pool s) = [] \<and> bp_lruList (st_pool s) = []"
  proof (cases "lookup_page s f p")
    case None
    have "\<exists>r. fetchPage f p w s = Inr r" if "bp_freeList (st_pool s) \<noteq> [] \<or> bp_lruList (st_pool s) \<noteq> []"
      using fetchPage_spec [OF inv assms(3), of w] that None by (auto simp: available_def)
    with None show ?thesis using fetchPage_exhausted [OF None, of w] by (metis sum.distinct(1))
  next
    case (Some i)
    have "page_ok f p" using assms(3) by (simp add: page_exists_def)
    from pool_inv_lookup(1) [OF inv Some this] have "\<not> ?L"
      using Some by (simp add: fetchPage_def lookup_page_def get_frame_def Let_def)
    with Some show ?thesis by simp
  qed
  moreover have "bp_freeList (st_pool s) = [] \<and> bp_lruList (st_pool s) = [] \<longleftrightarrow> ?R"
  proof
    assume e: "bp_freeList (st_pool s) = [] \<and> bp_lruList (st_pool s) = []"
    show ?R
    proof (intro allI impI)
      fix i assume "i < bp_poolSize (st_pool s)"
      then have u: "i \<in> used (bp_pageTable (st_pool s))" using facts(11) e by auto
      then obtain k where k: "(k, i) \<in> set (bp_pageTable (st_pool s))" by auto
      have "pf_pinCount (frame_at s i) \<noteq> 0" using facts(15) [of i] e u by (simp add: frame_at_def)
      moreover have "0 \<le> pf_pinCount (frame_at s i)" using pool_ok_entry(4) [OF ok k] by (simp add: frame_ok_def frame_at_def)
      ultimately show "\<exists>k. (k, i) \<in> set (bp_pageTable (st_pool s)) \<and> 0 < pf_pinCount (frame_at s i)" using k by auto
    qed
  next
    assume R: ?R
    have pinned: "i \<in> used (bp_pageTable (st_pool s)) \<and> pf_pinCount (frame_at s i) \<noteq> 0" if i: "i < bp_poolSize (st_pool s)" for i
    proof -
      obtain k where "(k, i) \<in> set (bp_pageTable (st_pool s))" "0 < pf_pinCount (frame_at s i)" using R i by blast
      then show ?thesis by (auto intro: image_eqI [where x = "(k, i)"])
    qed
    have below: "set (bp_freeList (st_pool s)) \<subseteq> {..<bp_poolSize (st_pool s)}" "used (bp_pageTable (st_pool s)) \<subseteq> {..<bp_poolSize (st_pool s)}"
      using facts(11) by auto
    have "i \<notin> set (bp_freeList (st_pool s))" for i using pinned [of i] below(1) facts(8) by auto
    moreover have "i \<notin> set (bp_lruList (st_pool s))" for i
      using pinned [of i] below(2) facts(15) [of i] by (auto simp: frame_at_def)
    ultimately show "bp_freeList (st_pool s) = [] \<and> bp_lruList (st_pool s) = []" by (metis list.set_intros(1) neq_Nil_conv)
  qed
  ultimately show ?thesis by blast
qed

theorem fetchPage_fails_iff_all_pinned_witness:
  "\<exists>s. pool_reach sample_disk 1 s \<and> fetchPage 1 1 False s = Inl (RuntimeError ''BufferPool: all frames are pinned, cannot evict'')"
proof -
  obtain s where s: "pool_reach sample_disk 1 s" "lookup_page s 1 0 = Some 0" "pin_view s 1 0 = 1"
    "page_exists (st_disk s) 1 1" "bp_poolSize (st_pool s) = 1" "pool_inv s"
    by (rule one_frame_pool) auto
  have ok: "page_ok 1 0" "page_ok 1 1" by (simp_all add: page_ok_def)
  note l = pool_inv_lookup [OF s(6,2) ok(1)]
  have "lookup_page s 1 1 = None"
  proof (cases "lookup_page s 1 1")
    case (Some j)
    note j = pool_inv_lookup [OF s(6) Some ok(2)]
    have "length (bp_frames (st_pool s)) = 1" using pool_ok_facts(2) [OF s(6) [unfolded pool_inv_unfold]] s(5) by simp
    then show ?thesis using l(3) j(1,3) by simp
  qed
  moreover have "0 < pf_pinCount (frame_at s 0)" using s(2,3) by (simp add: pin_view_def)
  ultimately show ?thesis
    using fetchPage_fails_iff_all_pinned [OF s(1) sample_disk_ok s(4), of False] l(6) s(1,5) by auto
qed

end
