(* ===== verification/PageManager.thy ===== *)
theory PageManager
  imports BufferPool "HOL-Library.Multiset"
begin

text \<open>
  Heap files of slotted pages, \<open>src/storage/PageManager.cpp\<close>.

  A page is the byte list of its frame; the fields of \<open>SlottedPageHeader\<close> are read and written
  at their offsets in it.  The bracket \<open>fetchPage\<close>, work on the bytes, \<open>unpinPage\<close> that every
  operation uses is \<open>with_page\<close>.  An access outside the 4096 bytes of the frame, or outside the
  128 entries of a slot array, is undefined behaviour.

  The abstraction \<open>heap\<close> of a file is the map from record identifiers to the bytes stored
  there; every operation is shown to act on it as a map.
\<close>

section \<open>The page header (PageManager.h)\<close>

definition HEADER_SIZE :: nat where "HEADER_SIZE = 520"

definition get_u16 :: "byte list \<Rightarrow> nat \<Rightarrow> nat" where
  "get_u16 pg off = le_val (rd pg off 2)"

definition set_u16 :: "nat \<Rightarrow> nat \<Rightarrow> byte list \<Rightarrow> byte list" where
  "set_u16 off v pg = wr pg off (le_bytes 2 v)"

definition header_pageId :: "byte list \<Rightarrow> nat" where "header_pageId pg = le_val (rd pg 0 4)"
definition numSlots :: "byte list \<Rightarrow> nat" where "numSlots pg = get_u16 pg 4"
definition freeSpacePtr :: "byte list \<Rightarrow> nat" where "freeSpacePtr pg = get_u16 pg 6"

definition slot_off :: "nat \<Rightarrow> nat" where "slot_off i = 8 + 2 * i"
definition len_off :: "nat \<Rightarrow> nat" where "len_off i = 264 + 2 * i"

definition slotDirectory :: "byte list \<Rightarrow> nat \<Rightarrow> nat res" where
  "slotDirectory pg i = (if i < MAX_SLOTS_PER_PAGE then Inr (get_u16 pg (slot_off i))
     else Inl (UndefinedBehaviour ''slotDirectory index''))"

definition slotLengths :: "byte list \<Rightarrow> nat \<Rightarrow> nat res" where
  "slotLengths pg i = (if i < MAX_SLOTS_PER_PAGE then Inr (get_u16 pg (len_off i))
     else Inl (UndefinedBehaviour ''slotLengths index''))"

text \<open>The two assignments \<open>slotDirectory[i] = off; slotLengths[i] = len\<close>.\<close>

definition set_slot :: "nat \<Rightarrow> nat \<Rightarrow> nat \<Rightarrow> byte list \<Rightarrow> byte list res" where
  "set_slot i off len pg = (if i < MAX_SLOTS_PER_PAGE then Inr (set_u16 (len_off i) len (set_u16 (slot_off i) off pg))
     else Inl (UndefinedBehaviour ''slotDirectory index''))"

section \<open>Operations on one page\<close>

definition initPage :: "nat \<Rightarrow> byte list \<Rightarrow> byte list" where
  "initPage pid pg =
     (let pg = zero_page;
          pg = wr pg 0 (le_bytes 4 pid);
          pg = set_u16 4 0 pg
      in set_u16 6 HEADER_SIZE pg)"

text \<open>\<open>uint16_t freeSpace = PAGE_SIZE - usedSpace\<close>: the subtraction is in \<open>uint32_t\<close>, the result is
  truncated.\<close>

definition freeSpace :: "byte list \<Rightarrow> nat" where
  "freeSpace pg = to_u16 (to_u32 (PAGE_SIZE + (u32_max - freeSpacePtr pg)))"

text \<open>The loop that looks for a slot whose offset and length are both zero.\<close>

fun find_slot :: "byte list \<Rightarrow> nat list \<Rightarrow> nat res" where
  "find_slot pg [] = Inr (numSlots pg)"
| "find_slot pg (i # is) =
     bindE (slotDirectory pg i) (\<lambda>off. bindE (slotLengths pg i) (\<lambda>len.
     if off = 0 \<and> len = 0 then Inr i else find_slot pg is))"

text \<open>Writing a tuple at the free space pointer and entering it in slot \<open>i\<close>.  \<open>memcpy\<close> reads
  \<open>dataLen\<close> bytes of the caller's buffer and writes them into the frame.\<close>

definition place_tuple :: "nat \<Rightarrow> byte list \<Rightarrow> nat \<Rightarrow> byte list \<Rightarrow> byte list res" where
  "place_tuple i bytes dataLen pg =
     (let fsp = freeSpacePtr pg in
      bindE (set_slot i fsp dataLen pg) (\<lambda>pg.
      bindE (requireE (dataLen \<le> length bytes) (UndefinedBehaviour ''memcpy past the end of the tuple data'')) (\<lambda>_.
      bindE (requireE (fsp + dataLen \<le> PAGE_SIZE) (UndefinedBehaviour ''memcpy past the end of the page'')) (\<lambda>_.
      Inr (set_u16 6 (to_u16 (fsp + dataLen)) (wr pg fsp (take dataLen bytes)))))))"

definition set_numSlots :: "nat \<Rightarrow> byte list \<Rightarrow> byte list" where
  "set_numSlots n pg = set_u16 4 n pg"

text \<open>The work of \<open>insertTuple\<close> on the page it found: \<open>None\<close> when every slot is taken.\<close>

definition insert_in_page :: "byte list \<Rightarrow> nat \<Rightarrow> byte list \<Rightarrow> (nat option \<times> byte list \<times> bool) res" where
  "insert_in_page bytes dataLen pg =
     bindE (find_slot pg [0..<numSlots pg]) (\<lambda>slotIdx.
     if slotIdx \<ge> MAX_SLOTS_PER_PAGE then Inr (None, pg, False)
     else bindE (place_tuple slotIdx bytes dataLen pg) (\<lambda>pg.
          Inr (Some slotIdx, (if slotIdx \<ge> numSlots pg then set_numSlots (slotIdx + 1) pg else pg), True)))"

text \<open>The work on a fresh page when every slot was taken.\<close>

definition insert_in_new_page :: "nat \<Rightarrow> byte list \<Rightarrow> nat \<Rightarrow> byte list \<Rightarrow> (unit \<times> byte list \<times> bool) res" where
  "insert_in_new_page newPage bytes dataLen pg =
     bindE (place_tuple 0 bytes dataLen (initPage newPage pg)) (\<lambda>pg. Inr ((), set_numSlots 1 pg, True))"

text \<open>The work of \<open>readTuple\<close>: the bytes copied to the caller's buffer (none when it returns 0).\<close>

definition read_in_page :: "nat \<Rightarrow> byte list \<Rightarrow> (byte list \<times> byte list \<times> bool) res" where
  "read_in_page slot pg =
     (if slot \<ge> numSlots pg then Inr ([], pg, False)
      else bindE (slotLengths pg slot) (\<lambda>len.
           if len = 0 then Inr ([], pg, False)
           else bindE (slotDirectory pg slot) (\<lambda>off.
                bindE (rd_bytes len pg off) (\<lambda>(bytes, _). Inr (bytes, pg, False)))))"

definition delete_in_page :: "nat \<Rightarrow> byte list \<Rightarrow> (unit \<times> byte list \<times> bool) res" where
  "delete_in_page slot pg =
     (if slot < numSlots pg then bindE (set_slot slot 0 0 pg) (\<lambda>pg. Inr ((), pg, True)) else Inr ((), pg, True))"

text \<open>The loop of \<open>scanTable\<close> over the slots of a page.  The callback gets the bytes from the
  tuple's offset on and the length, and tells whether to go on; its own state is threaded through.\<close>

fun scan_slots ::
  "(RID \<Rightarrow> byte list \<Rightarrow> nat \<Rightarrow> 'c \<Rightarrow> (bool \<times> 'c) res) \<Rightarrow> nat \<Rightarrow> byte list \<Rightarrow> nat list \<Rightarrow> 'c \<Rightarrow> (bool \<times> 'c) res" where
  "scan_slots callback p pg [] c = Inr (True, c)"
| "scan_slots callback p pg (i # is) c =
     bindE (slotLengths pg i) (\<lambda>tupleLen.
     if tupleLen > 0
     then bindE (slotDirectory pg i) (\<lambda>off.
          bindE (callback (RID p i) (drop off pg) tupleLen c) (\<lambda>(continue, c).
          if \<not> continue then Inr (False, c) else scan_slots callback p pg is c))
     else scan_slots callback p pg is c)"

section \<open>Operations on a file\<close>

definition with_page :: "int \<Rightarrow> nat \<Rightarrow> bool \<Rightarrow> (byte list \<Rightarrow> ('a \<times> byte list \<times> bool) res) \<Rightarrow> Storage \<Rightarrow> ('a \<times> Storage) res" where
  "with_page f p forWrite g s =
     bindE (fetchPage f p forWrite s) (\<lambda>(i, s). bindE (frame_data s i) (\<lambda>pg. bindE (g pg) (\<lambda>(x, pg', dirty).
     bindE (unpinPage f p dirty (set_frame_data i pg' s)) (\<lambda>s. Inr (x, s)))))"

text \<open>\<open>allocateNewPage\<close>, \<open>fetchPage\<close>, work, \<open>unpinPage\<close> on the new page.\<close>

definition with_new_page :: "int \<Rightarrow> (nat \<Rightarrow> byte list \<Rightarrow> (unit \<times> byte list \<times> bool) res) \<Rightarrow> Storage \<Rightarrow> (nat \<times> Storage) res" where
  "with_new_page f g s =
     bindE (allocateNewPage f (st_disk s)) (\<lambda>(newPage, d).
     bindE (with_page f newPage True (g newPage) (s\<lparr>st_disk := d\<rparr>)) (\<lambda>(_, s). Inr (newPage, s)))"

definition init_new_page :: "nat \<Rightarrow> byte list \<Rightarrow> (unit \<times> byte list \<times> bool) res" where
  "init_new_page newPage pg = Inr ((), initPage newPage pg, True)"

definition createTable :: "string \<Rightarrow> Storage \<Rightarrow> (int \<times> Storage) res" where
  "createTable tableName s =
     bindE (createFile (tableName @ ''.db'') (st_disk s)) (\<lambda>(fileId, d).
     bindE (with_new_page fileId init_new_page (s\<lparr>st_disk := d\<rparr>)) (\<lambda>(_, s). Inr (fileId, s)))"

definition openTable :: "string \<Rightarrow> Storage \<Rightarrow> (int \<times> Storage) res" where
  "openTable tableName s = bindE (openFile (tableName @ ''.db'') (st_disk s)) (\<lambda>(fileId, d). Inr (fileId, s\<lparr>st_disk := d\<rparr>))"

fun findFreePage_loop :: "int \<Rightarrow> nat \<Rightarrow> nat list \<Rightarrow> Storage \<Rightarrow> (nat option \<times> Storage) res" where
  "findFreePage_loop f requiredSpace [] s = Inr (None, s)"
| "findFreePage_loop f requiredSpace (p # ps) s =
     bindE (with_page f p False (\<lambda>pg. Inr (freeSpace pg, pg, False)) s) (\<lambda>(free, s).
     if free \<ge> requiredSpace then Inr (Some p, s) else findFreePage_loop f requiredSpace ps s)"

definition findFreePage :: "int \<Rightarrow> nat \<Rightarrow> Storage \<Rightarrow> (nat \<times> Storage) res" where
  "findFreePage f requiredSpace s =
     bindE (findFreePage_loop f requiredSpace [0..<getFilePageCount f (st_disk s)] s) (\<lambda>(found, s).
     case found of Some p \<Rightarrow> Inr (p, s) | None \<Rightarrow> with_new_page f init_new_page s)"

definition insertTuple :: "int \<Rightarrow> byte list \<Rightarrow> nat \<Rightarrow> Storage \<Rightarrow> (RID \<times> Storage) res" where
  "insertTuple f bytes dataLen s =
     bindE (findFreePage f dataLen s) (\<lambda>(pageNum, s).
     bindE (with_page f pageNum True (insert_in_page bytes dataLen) s) (\<lambda>(slot, s).
     case slot of
       Some slotIdx \<Rightarrow> Inr (RID pageNum slotIdx, s)
     | None \<Rightarrow>
         bindE (with_new_page f (\<lambda>newPage. insert_in_new_page newPage bytes dataLen) s) (\<lambda>(newPage, s).
         Inr (RID newPage 0, s))))"

definition readTuple :: "int \<Rightarrow> RID \<Rightarrow> Storage \<Rightarrow> (byte list \<times> Storage) res" where
  "readTuple f rid s = with_page f (pageId rid) False (read_in_page (slotNum rid)) s"

definition deleteTuple :: "int \<Rightarrow> RID \<Rightarrow> Storage \<Rightarrow> Storage res" where
  "deleteTuple f rid s = bindE (with_page f (pageId rid) True (delete_in_page (slotNum rid)) s) (\<lambda>(_, s). Inr s)"

definition getPageCount :: "int \<Rightarrow> Storage \<Rightarrow> nat" where
  "getPageCount f s = getFilePageCount f (st_disk s)"

fun scan_pages ::
  "(RID \<Rightarrow> byte list \<Rightarrow> nat \<Rightarrow> 'c \<Rightarrow> (bool \<times> 'c) res) \<Rightarrow> int \<Rightarrow> nat list \<Rightarrow> 'c \<Rightarrow> Storage \<Rightarrow> ('c \<times> Storage) res" where
  "scan_pages callback f [] c s = Inr (c, s)"
| "scan_pages callback f (p # ps) c s =
     bindE (with_page f p False (\<lambda>pg.
       bindE (scan_slots callback p pg [0..<numSlots pg] c) (\<lambda>r. Inr (r, pg, False))) s) (\<lambda>((continue, c), s).
     if \<not> continue then Inr (c, s) else scan_pages callback f ps c s)"

definition scanTable ::
  "int \<Rightarrow> (RID \<Rightarrow> byte list \<Rightarrow> nat \<Rightarrow> 'c \<Rightarrow> (bool \<times> 'c) res) \<Rightarrow> 'c \<Rightarrow> Storage \<Rightarrow> ('c \<times> Storage) res" where
  "scanTable f callback c s = scan_pages callback f [0..<getFilePageCount f (st_disk s)] c s"

section \<open>Well-formed pages\<close>

lemma get_set_u16_same [simp]:
  "off + 2 \<le> length pg \<Longrightarrow> v < 65536 \<Longrightarrow> get_u16 (set_u16 off v pg) off = v"
  by (simp add: get_u16_def set_u16_def mem_simps)

lemma get_set_u16_other [simp]:
  "o2 + 2 \<le> off \<or> off + 2 \<le> o2 \<Longrightarrow> off + 2 \<le> length pg \<Longrightarrow> get_u16 (set_u16 off v pg) o2 = get_u16 pg o2"
  by (auto simp: get_u16_def set_u16_def mem_simps)

lemma length_set_u16 [simp]: "off + 2 \<le> length pg \<Longrightarrow> length (set_u16 off v pg) = length pg"
  by (simp add: set_u16_def)

lemma get_u16_wr_other [simp]:
  "o2 + 2 \<le> off \<Longrightarrow> off + length d \<le> length pg \<Longrightarrow> get_u16 (wr pg off d) o2 = get_u16 pg o2"
  by (simp add: get_u16_def mem_simps)

lemma rd_set_u16_header [simp]:
  "off + 2 \<le> o2 \<Longrightarrow> off + 2 \<le> length pg \<Longrightarrow> rd (set_u16 off v pg) o2 n = rd pg o2 n"
  by (simp add: set_u16_def mem_simps)

lemma get_u16_less: "off + 2 \<le> length pg \<Longrightarrow> get_u16 pg off < 65536"
  using le_val_less [of "rd pg off 2"] by (simp add: get_u16_def)

lemmas page_consts = PAGE_SIZE_def MAX_SLOTS_PER_PAGE_def HEADER_SIZE_def

definition slot_start :: "byte list \<Rightarrow> nat \<Rightarrow> nat" where "slot_start pg i = get_u16 pg (slot_off i)"
definition slot_len :: "byte list \<Rightarrow> nat \<Rightarrow> nat" where "slot_len pg i = get_u16 pg (len_off i)"

text \<open>A page with at most 128 slots, a free space pointer inside the page and every stored tuple
  between the header and the free space pointer.\<close>

definition page_wf :: "byte list \<Rightarrow> bool" where
  "page_wf pg \<longleftrightarrow> length pg = PAGE_SIZE \<and> numSlots pg \<le> MAX_SLOTS_PER_PAGE \<and>
     HEADER_SIZE \<le> freeSpacePtr pg \<and> freeSpacePtr pg \<le> PAGE_SIZE \<and>
     (\<forall>i. i < numSlots pg \<longrightarrow> slot_len pg i \<noteq> 0 \<longrightarrow>
        HEADER_SIZE \<le> slot_start pg i \<and> slot_start pg i + slot_len pg i \<le> freeSpacePtr pg)"

text \<open>The tuples of a page, by slot.\<close>

definition page_tuples :: "byte list \<Rightarrow> nat \<rightharpoonup> byte list" where
  "page_tuples pg i = (if i < numSlots pg \<and> slot_len pg i \<noteq> 0 then Some (rd pg (slot_start pg i) (slot_len pg i)) else None)"

lemma page_wf_facts:
  assumes "page_wf pg"
  shows "length pg = 4096" "numSlots pg \<le> 128" "520 \<le> freeSpacePtr pg" "freeSpacePtr pg \<le> 4096"
    "\<And>i. i < numSlots pg \<Longrightarrow> slot_len pg i \<noteq> 0 \<Longrightarrow> 520 \<le> slot_start pg i \<and> slot_start pg i + slot_len pg i \<le> freeSpacePtr pg"
  using assms by (simp_all add: page_wf_def page_consts)

lemma slot_access [simp]:
  "i < 128 \<Longrightarrow> slotDirectory pg i = Inr (slot_start pg i)"
  "i < 128 \<Longrightarrow> slotLengths pg i = Inr (slot_len pg i)"
  by (simp_all add: slotDirectory_def slotLengths_def slot_start_def slot_len_def page_consts)

lemma freeSpace_wf: "page_wf pg \<Longrightarrow> freeSpace pg = 4096 - freeSpacePtr pg"
proof -
  assume "page_wf pg"
  note w = page_wf_facts(3,4) [OF this]
  have "(8192 + (4294967296 - 4096) - freeSpacePtr pg) mod 4294967296 = 4096 - freeSpacePtr pg" for k :: nat
    using w by (subst le_mod_geq) simp_all
  with w show ?thesis by (simp add: freeSpace_def page_consts to_u32_def)
qed

lemma find_slot_free:
  assumes "set is \<subseteq> {..<numSlots pg}" "page_wf pg"
  obtains k where "find_slot pg is = Inr k" "k \<le> numSlots pg" "k < numSlots pg \<longrightarrow> slot_len pg k = 0"
  using assms
proof (induction "is" arbitrary: thesis)
  case Nil
  then show ?case by simp
next
  case (Cons i "is")
  then have i: "i < numSlots pg" "i < 128" using page_wf_facts(2) [OF assms(2)] by auto
  show ?case
  proof (cases "slot_start pg i = 0 \<and> slot_len pg i = 0")
    case True
    with i show ?thesis by (intro Cons.prems(1) [of i]) auto
  next
    case False
    obtain k where "find_slot pg is = Inr k" "k \<le> numSlots pg" "k < numSlots pg \<longrightarrow> slot_len pg k = 0"
      using Cons.IH Cons.prems by auto
    with False i show ?thesis by (intro Cons.prems(1) [of k]) auto
  qed
qed

text \<open>The fields of a page after a tuple has been placed.\<close>

lemma place_tuple_fields:
  assumes wf: "page_wf pg" and i: "i < 128" and len: "n \<le> length bytes" "freeSpacePtr pg + n \<le> 4096"
  shows "\<exists>pg'. place_tuple i bytes n pg = Inr pg' \<and> length pg' = 4096 \<and>
    numSlots pg' = numSlots pg \<and> freeSpacePtr pg' = freeSpacePtr pg + n \<and>
    (\<forall>j. j < 128 \<longrightarrow> slot_start pg' j = (if j = i then freeSpacePtr pg else slot_start pg j)) \<and>
    (\<forall>j. j < 128 \<longrightarrow> slot_len pg' j = (if j = i then n else slot_len pg j)) \<and>
    rd pg' (freeSpacePtr pg) n = take n bytes \<and>
    (\<forall>off m. 520 \<le> off \<longrightarrow> off + m \<le> freeSpacePtr pg \<longrightarrow> rd pg' off m = rd pg off m)"
proof -
  note w = page_wf_facts [OF wf]
  define fsp where "fsp = freeSpacePtr pg"
  define p1 where "p1 = set_u16 (len_off i) n (set_u16 (slot_off i) fsp pg)"
  define p2 where "p2 = wr p1 fsp (take n bytes)"
  define p3 where "p3 = set_u16 6 (fsp + n) p2"
  have f: "520 \<le> fsp" "fsp + n \<le> 4096" using w len by (auto simp: fsp_def)
  have l1: "length p1 = 4096" using w(1) i by (simp add: p1_def slot_off_def len_off_def)
  have l2: "length p2 = 4096" using l1 f len(1) by (simp add: p2_def)
  have l3: "length p3 = 4096" using l2 by (simp add: p3_def)
  have run: "place_tuple i bytes n pg = Inr p3"
    using i f len by (simp add: place_tuple_def set_slot_def page_consts fsp_def p1_def p2_def p3_def Let_def)
  have g2: "get_u16 p2 off = get_u16 p1 off" if "off \<le> 518" for off
    using that f l1 len(1) by (simp add: p2_def)
  have ns: "numSlots p3 = numSlots pg" "freeSpacePtr p3 = fsp + n"
    using g2 [of 4] l2 f w(1) i by (simp_all add: numSlots_def freeSpacePtr_def p3_def p1_def slot_off_def len_off_def)
  have st: "slot_start p3 j = (if j = i then fsp else slot_start pg j)" if j: "j < 128" for j
  proof -
    have "slot_start p3 j = get_u16 p1 (slot_off j)"
      using g2 [of "slot_off j"] l2 j by (simp add: slot_start_def p3_def slot_off_def)
    also have "\<dots> = (if j = i then fsp else slot_start pg j)"
      using w(1) i j f by (cases "j < i"; cases "j = i") (simp_all add: p1_def slot_off_def len_off_def slot_start_def)
    finally show ?thesis .
  qed
  have ln: "slot_len p3 j = (if j = i then n else slot_len pg j)" if j: "j < 128" for j
  proof -
    have "slot_len p3 j = get_u16 p1 (len_off j)"
      using g2 [of "len_off j"] l2 j by (simp add: slot_len_def p3_def len_off_def)
    also have "\<dots> = (if j = i then n else slot_len pg j)"
      using w(1) i j f by (cases "j < i"; cases "j = i") (simp_all add: p1_def slot_off_def len_off_def slot_len_def)
    finally show ?thesis .
  qed
  have new: "rd p3 fsp n = take n bytes" using l2 l1 f len(1) by (simp add: p3_def p2_def mem_simps)
  have old: "rd p3 off m = rd pg off m" if "520 \<le> off" "off + m \<le> fsp" for off m
    using that l1 l2 f len(1) w(1) i by (simp add: p3_def p2_def p1_def mem_simps slot_off_def len_off_def)
  show ?thesis
    by (rule exI [of _ p3], intro conjI allI impI) (use run l3 ns st ln new old in \<open>simp_all add: fsp_def\<close>)
qed

lemma numSlots_set_numSlots [simp]:
  assumes "length pg = 4096" "n < 65536"
  shows "numSlots (set_numSlots n pg) = n" "length (set_numSlots n pg) = 4096"
    "freeSpacePtr (set_numSlots n pg) = freeSpacePtr pg" "slot_start (set_numSlots n pg) j = slot_start pg j"
    "slot_len (set_numSlots n pg) j = slot_len pg j" "520 \<le> off \<Longrightarrow> rd (set_numSlots n pg) off m = rd pg off m"
  using assms by (simp_all add: set_numSlots_def numSlots_def freeSpacePtr_def slot_start_def slot_len_def slot_off_def len_off_def)

text \<open>Placing a tuple in a free slot, or in the next one, adds it to the tuples of the page.\<close>

lemma place_tuple_spec:
  assumes wf: "page_wf pg" and i: "i < 128" "i \<le> numSlots pg" "i < numSlots pg \<longrightarrow> slot_len pg i = 0"
    and len: "n \<le> length bytes" "freeSpacePtr pg + n \<le> 4096"
  shows "\<exists>pg'. place_tuple i bytes n pg = Inr pg' \<and> numSlots pg' = numSlots pg \<and> length pg' = 4096 \<and>
    (\<forall>pg''. pg'' = (if i \<ge> numSlots pg then set_numSlots (i + 1) pg' else pg') \<longrightarrow>
       page_wf pg'' \<and> page_tuples pg'' = (page_tuples pg)(i := (if n = 0 then None else Some (take n bytes))))"
proof -
  note w = page_wf_facts [OF wf]
  obtain pg' where p: "place_tuple i bytes n pg = Inr pg'" "length pg' = 4096"
    "numSlots pg' = numSlots pg" "freeSpacePtr pg' = freeSpacePtr pg + n"
    "\<forall>j. j < 128 \<longrightarrow> slot_start pg' j = (if j = i then freeSpacePtr pg else slot_start pg j)"
    "\<forall>j. j < 128 \<longrightarrow> slot_len pg' j = (if j = i then n else slot_len pg j)"
    "rd pg' (freeSpacePtr pg) n = take n bytes"
    "\<forall>off m. 520 \<le> off \<longrightarrow> off + m \<le> freeSpacePtr pg \<longrightarrow> rd pg' off m = rd pg off m"
    using place_tuple_fields [OF wf i(1) len] by (elim exE conjE) (rule that; assumption)
  have "page_wf pg'' \<and> page_tuples pg'' = (page_tuples pg)(i := (if n = 0 then None else Some (take n bytes)))"
    if d: "pg'' = (if i \<ge> numSlots pg then set_numSlots (i + 1) pg' else pg')" for pg''
  proof -
    have q: "length pg'' = 4096" "numSlots pg'' = max (numSlots pg) (i + 1)" "freeSpacePtr pg'' = freeSpacePtr pg + n"
      "slot_start pg'' j = slot_start pg' j" "slot_len pg'' j = slot_len pg' j" "520 \<le> off \<Longrightarrow> rd pg'' off m = rd pg' off m" for j off m
      using p(2,3,4) i by (simp_all add: d)
    have slots: "j < 128 \<and> (if j = i then True else j < numSlots pg)" if "j < numSlots pg''" for j
      using that q(2) i(1,2) w(2) by (auto simp: max_def split: if_splits)
    have "page_wf pg''"
      unfolding page_wf_def page_consts
    proof (intro conjI allI impI)
      fix j assume j: "j < numSlots pg''" "slot_len pg'' j \<noteq> 0"
      note sl = slots [OF j(1)]
      show "520 \<le> slot_start pg'' j" "slot_start pg'' j + slot_len pg'' j \<le> freeSpacePtr pg''"
        using w(3) w(5) [of j] sl j(2) p(5) [THEN spec, of j] p(6) [THEN spec, of j] q(3,4,5) by (auto split: if_splits)
    qed (use q w i len in auto)
    moreover have "page_tuples pg'' j = ((page_tuples pg)(i := (if n = 0 then None else Some (take n bytes)))) j" for j
    proof (cases "j = i")
      case True
      then show ?thesis using p(5-7) q i(1) w(3) by (simp add: page_tuples_def less_max_iff_disj)
    next
      case False
      have e: "j < numSlots pg'' \<longleftrightarrow> j < numSlots pg" using False i(2) q(2) by auto
      show ?thesis
      proof (cases "j < numSlots pg \<and> slot_len pg j \<noteq> 0")
        case True
        then have "520 \<le> slot_start pg j" "slot_start pg j + slot_len pg j \<le> freeSpacePtr pg" "j < 128"
          using w(2) w(5) [of j] by auto
        with True False e show ?thesis using p(5,6,8) q(4-6) by (simp add: page_tuples_def)
      next
        case inactive: False
        then show ?thesis using False e w(2) p(6) [THEN spec, of j] q(5) by (auto simp: page_tuples_def)
      qed
    qed
    ultimately show ?thesis by blast
  qed
  with p(1-3) show ?thesis by blast
qed

lemma initPage_spec:
  shows "page_wf (initPage p pg)" "page_tuples (initPage p pg) = Map.empty" "numSlots (initPage p pg) = 0"
    "freeSpacePtr (initPage p pg) = 520" "length (initPage p pg) = PAGE_SIZE"
proof -
  let ?z = "wr zero_page 0 (le_bytes 4 p)"
  have l: "length ?z = 4096" by (simp add: page_consts)
  show n: "numSlots (initPage p pg) = 0" and f: "freeSpacePtr (initPage p pg) = 520"
    using l by (simp_all add: initPage_def numSlots_def freeSpacePtr_def Let_def HEADER_SIZE_def)
  show "length (initPage p pg) = PAGE_SIZE" using l by (simp add: initPage_def Let_def page_consts)
  with n f show "page_wf (initPage p pg)" by (simp add: page_wf_def page_consts)
  show "page_tuples (initPage p pg) = Map.empty" using n by (simp add: page_tuples_def fun_eq_iff)
qed

text \<open>The work of each operation on a well-formed page.\<close>

lemma insert_in_page_spec:
  assumes wf: "page_wf pg" and len: "n \<le> length bytes" "freeSpacePtr pg + n \<le> 4096"
  obtains (placed) i pg' where "insert_in_page bytes n pg = Inr (Some i, pg', True)" "page_wf pg'"
      "page_tuples pg i = None" "page_tuples pg' = (page_tuples pg)(i := (if n = 0 then None else Some (take n bytes)))" "i < 128"
  | (full) "insert_in_page bytes n pg = Inr (None, pg, False)"
proof -
  obtain k where k: "find_slot pg [0..<numSlots pg] = Inr k" "k \<le> numSlots pg" "k < numSlots pg \<longrightarrow> slot_len pg k = 0"
    by (rule find_slot_free [of "[0..<numSlots pg]" pg]) (use wf in auto)
  show thesis
  proof (cases "k < 128")
    case True
    obtain pg' where p: "place_tuple k bytes n pg = Inr pg'" "numSlots pg' = numSlots pg" "length pg' = 4096"
      "\<forall>pg''. pg'' = (if k \<ge> numSlots pg then set_numSlots (k + 1) pg' else pg') \<longrightarrow>
         page_wf pg'' \<and> page_tuples pg'' = (page_tuples pg)(k := (if n = 0 then None else Some (take n bytes)))"
      using place_tuple_spec [OF wf True k(2,3) len] by (elim exE conjE) (rule that; assumption)
    show thesis
    proof (rule placed [of k "if k \<ge> numSlots pg then set_numSlots (k + 1) pg' else pg'"])
      show "insert_in_page bytes n pg = Inr (Some k, if k \<ge> numSlots pg then set_numSlots (k + 1) pg' else pg', True)"
        using k(1) True p(1,2) by (simp add: insert_in_page_def page_consts)
      show "page_tuples pg k = None" using k(3) by (auto simp: page_tuples_def)
    qed (use p(4) True in blast)+
  next
    case False
    then show thesis using k(1) by (intro full) (simp add: insert_in_page_def page_consts)
  qed
qed

lemma insert_in_new_page_spec:
  assumes len: "n \<le> length bytes" "n \<le> 3576"
  obtains pg' where "insert_in_new_page p bytes n pg = Inr ((), pg', True)" "page_wf pg'"
    "page_tuples pg' = Map.empty(0 := (if n = 0 then None else Some (take n bytes)))"
proof -
  note ip = initPage_spec [of p pg]
  have f: "freeSpacePtr (initPage p pg) + n \<le> 4096" using ip(4) len(2) by simp
  obtain pg' where q: "place_tuple 0 bytes n (initPage p pg) = Inr pg'"
    "page_wf (set_numSlots 1 pg') \<and> page_tuples (set_numSlots 1 pg') = (page_tuples (initPage p pg))(0 := (if n = 0 then None else Some (take n bytes)))"
    using place_tuple_spec [of "initPage p pg" 0 n bytes] ip len(1) f by auto
  show thesis by (rule that [of "set_numSlots 1 pg'"]) (use q ip in \<open>simp_all add: insert_in_new_page_def\<close>)
qed

lemma insert_in_new_page_oversized:
  assumes "n \<le> length bytes" "3576 < n"
  shows "insert_in_new_page p bytes n pg = Inl (UndefinedBehaviour ''memcpy past the end of the page'')"
  using assms initPage_spec(4) [of p pg]
  by (simp add: insert_in_new_page_def place_tuple_def set_slot_def page_consts Let_def)

lemma read_in_page_spec:
  assumes "page_wf pg"
  shows "read_in_page i pg = Inr (case page_tuples pg i of None \<Rightarrow> [] | Some bytes \<Rightarrow> bytes, pg, False)"
proof (cases "i < numSlots pg")
  case True
  note w = page_wf_facts [OF assms]
  have "slot_start pg i + slot_len pg i \<le> length pg" if "slot_len pg i \<noteq> 0"
    using w(5) [OF True that] w(1,4) by simp
  with True w(2) show ?thesis by (auto simp: read_in_page_def page_tuples_def rd_bytes_def)
qed (simp add: read_in_page_def page_tuples_def)

lemma delete_in_page_spec:
  assumes wf: "page_wf pg"
  obtains pg' where "delete_in_page i pg = Inr ((), pg', True)" "page_wf pg'" "page_tuples pg' = (page_tuples pg)(i := None)"
proof (cases "i < numSlots pg")
  case True
  note w = page_wf_facts [OF wf]
  define pg' where "pg' = set_u16 (len_off i) 0 (set_u16 (slot_off i) 0 pg)"
  have i: "i < 128" using True w(2) by simp
  have run: "delete_in_page i pg = Inr ((), pg', True)"
    using True i by (simp add: delete_in_page_def set_slot_def page_consts pg'_def)
  have l: "length pg' = 4096" using w(1) i by (simp add: pg'_def slot_off_def len_off_def)
  have f: "numSlots pg' = numSlots pg" "freeSpacePtr pg' = freeSpacePtr pg"
    using w(1) i by (simp_all add: pg'_def numSlots_def freeSpacePtr_def slot_off_def len_off_def)
  have st: "slot_start pg' j = slot_start pg j" "slot_len pg' j = slot_len pg j" if "j < 128" "j \<noteq> i" for j
    using that w(1) i by (cases "j < i"; simp add: pg'_def slot_start_def slot_len_def slot_off_def len_off_def)+
  have z: "slot_len pg' i = 0" using w(1) i by (simp add: pg'_def slot_len_def slot_off_def len_off_def)
  have r: "520 \<le> off \<Longrightarrow> rd pg' off m = rd pg off m" for off m
    using w(1) i by (simp add: pg'_def slot_off_def len_off_def)
  have wf': "page_wf pg'"
    unfolding page_wf_def page_consts
  proof (intro conjI allI impI)
    fix j assume j: "j < numSlots pg'" "slot_len pg' j \<noteq> 0"
    with z have "j \<noteq> i" "j < 128" "j < numSlots pg" using f w(2) by auto
    with w(5) [of j] j st f show "520 \<le> slot_start pg' j" "slot_start pg' j + slot_len pg' j \<le> freeSpacePtr pg'" by auto
  qed (use l f w in auto)
  have "page_tuples pg' j = ((page_tuples pg)(i := None)) j" for j
  proof (cases "j < numSlots pg \<and> j \<noteq> i")
    case True
    with w(2) have "j < 128" by simp
    with True st f w(5) [of j] r show ?thesis by (simp add: page_tuples_def)
  qed (use f z in \<open>auto simp: page_tuples_def\<close>)
  with run wf' show thesis by (intro that) auto
next
  case False
  then have "page_tuples pg i = None" "delete_in_page i pg = Inr ((), pg, True)"
    by (simp_all add: page_tuples_def delete_in_page_def)
  with wf show thesis by (intro that) auto
qed

section \<open>Well-formed heap files\<close>

text \<open>The storage layer between two operations of the page manager: no page is pinned, and every
  page of every open file is well formed.\<close>

definition heap_inv :: "Storage \<Rightarrow> bool" where
  "heap_inv s \<longleftrightarrow> storage_inv s \<and> (\<forall>f p. page_ok f p \<longrightarrow> pin_view s f p = 0) \<and>
     (\<forall>f. is_open (st_disk s) f \<longrightarrow> 0 < f \<and> f < 2147483648 \<and> getPageCount f s \<le> 4294967295 \<and>
        (\<forall>p. p < getPageCount f s \<longrightarrow> page_wf (page_view s f p)))"

text \<open>The contents of a file: a map from record identifiers to stored bytes.\<close>

definition heap :: "Storage \<Rightarrow> int \<Rightarrow> RID \<rightharpoonup> byte list" where
  "heap s f r = (if is_open (st_disk s) f \<and> pageId r < getPageCount f s then page_tuples (page_view s f (pageId r)) (slotNum r) else None)"

abbreviation table_open :: "Storage \<Rightarrow> int \<Rightarrow> bool" where
  "table_open s f \<equiv> is_open (st_disk s) f"

lemma heap_inv_facts:
  assumes "heap_inv s"
  shows "storage_inv s" "pool_inv s" "disk_ok (st_disk s)" "\<And>f p. page_ok f p \<Longrightarrow> pin_view s f p = 0"
    "\<And>f. table_open s f \<Longrightarrow> 0 < f \<and> f < 2147483648 \<and> getPageCount f s \<le> 4294967295"
    "\<And>f p. table_open s f \<Longrightarrow> p < getPageCount f s \<Longrightarrow> page_wf (page_view s f p)"
    "\<And>f p. table_open s f \<Longrightarrow> p < getPageCount f s \<Longrightarrow> page_exists (st_disk s) f p"
    "\<And>f p. table_open s f \<Longrightarrow> p < getPageCount f s \<Longrightarrow> page_ok f p"
proof -
  have w: "storage_inv s" "\<forall>f p. page_ok f p \<longrightarrow> pin_view s f p = 0"
    "\<forall>f. table_open s f \<longrightarrow> 0 < f \<and> f < 2147483648 \<and> getPageCount f s \<le> 4294967295 \<and>
        (\<forall>p. p < getPageCount f s \<longrightarrow> page_wf (page_view s f p))"
    using assms unfolding heap_inv_def by blast+
  show "storage_inv s" by (rule w(1))
  then show i: "pool_inv s" by (simp add: storage_inv_def)
  then show "disk_ok (st_disk s)" by (simp add: pool_inv_unfold pool_ok_facts(1))
  show "\<And>f p. page_ok f p \<Longrightarrow> pin_view s f p = 0" using w(2) by blast
  show b: "\<And>f. table_open s f \<Longrightarrow> 0 < f \<and> f < 2147483648 \<and> getPageCount f s \<le> 4294967295" using w(3) by blast
  show "\<And>f p. table_open s f \<Longrightarrow> p < getPageCount f s \<Longrightarrow> page_wf (page_view s f p)" using w(3) by blast
  show ok: "\<And>f p. table_open s f \<Longrightarrow> p < getPageCount f s \<Longrightarrow> page_ok f p"
    using b by (fastforce simp: page_ok_def)
  then show "\<And>f p. table_open s f \<Longrightarrow> p < getPageCount f s \<Longrightarrow> page_exists (st_disk s) f p"
    by (simp add: page_exists_def getPageCount_def)
qed

lemma storage_meta_eq:
  assumes "storage_meta s' = storage_meta s"
  shows "table_open s' f = table_open s f" "getPageCount f s' = getPageCount f s"
    "dm_nextFileId (st_disk s') = dm_nextFileId (st_disk s)" "bp_poolSize (st_pool s') = bp_poolSize (st_pool s)"
  using assms by (auto simp: storage_meta_def getPageCount_def fun_eq_iff)

text \<open>The bracket around work on one page, for work that succeeds and keeps the page well formed.\<close>

lemma with_page_spec:
  assumes inv: "heap_inv s" and p: "table_open s f" "p < getPageCount f s"
    and g: "g (page_view s f p) = Inr (x, pg, dirty)" "page_wf pg" "w \<or> pg = page_view s f p"
  shows "\<exists>s'. with_page f p w g s = Inr (x, s') \<and> heap_inv s' \<and> storage_meta s' = storage_meta s \<and>
    (\<forall>h q. page_ok h q \<longrightarrow> page_view s' h q = (if h = f \<and> q = p then pg else page_view s h q))"
proof -
  note i = heap_inv_facts [OF inv]
  have l: "length pg = PAGE_SIZE" using g(2) by (simp add: page_wf_def)
  obtain s' where s': "with_page f p w g s = Inr (x, s')" "storage_inv s'" "storage_meta s' = storage_meta s"
    "\<forall>h q. page_ok h q \<longrightarrow> pin_view s' h q = 0"
    "\<forall>h q. page_ok h q \<longrightarrow> page_view s' h q = (if h = f \<and> q = p then pg else page_view s h q)"
    using bp.bracket [where g = g, OF i(1) i(7) [OF p] i(4) g(1) l g(3)] unfolding with_page_def by blast
  note m = storage_meta_eq [OF s'(3)]
  have "heap_inv s'"
    unfolding heap_inv_def
  proof (intro conjI allI impI)
    fix h q assume h: "table_open s' h" "q < getPageCount h s'"
    then show "page_wf (page_view s' h q)" using i(6) [of h q] i(8) [of h q] s'(5) g(2) m by auto
  qed (use s'(2,4) i(5) m in auto)
  with s' show ?thesis by blast
qed

lemma with_page_error:
  assumes inv: "heap_inv s" and p: "table_open s f" "p < getPageCount f s" and g: "g (page_view s f p) = Inl e"
  shows "with_page f p w g s = Inl e"
proof -
  note i = heap_inv_facts [OF inv]
  show ?thesis unfolding with_page_def
    by (rule bp.bracket_error [where g = g, OF i(1) i(7) [OF p] i(4) g])
qed

text \<open>The same on the contents of the file.\<close>

lemma with_page_heap:
  assumes inv: "heap_inv s" and p: "table_open s f" "p < getPageCount f s"
    and g: "g (page_view s f p) = Inr (x, pg, dirty)" "page_wf pg" "w \<or> pg = page_view s f p"
  obtains s' where "with_page f p w g s = Inr (x, s')" "heap_inv s'" "storage_meta s' = storage_meta s"
    "page_view s' f p = pg" "heap s' = (heap s)(f := \<lambda>r. if pageId r = p then page_tuples pg (slotNum r) else heap s f r)"
proof -
  obtain s' where s': "with_page f p w g s = Inr (x, s')" "heap_inv s'" "storage_meta s' = storage_meta s"
    "\<forall>h q. page_ok h q \<longrightarrow> page_view s' h q = (if h = f \<and> q = p then pg else page_view s h q)"
    using with_page_spec [where g = g, OF assms] by blast
  note m = storage_meta_eq [OF s'(3)] and i = heap_inv_facts [OF inv]
  have "heap s' h r = ((heap s)(f := \<lambda>r. if pageId r = p then page_tuples pg (slotNum r) else heap s f r)) h r" for h r
    using s'(4) m p i(8) [of h "pageId r"] by (auto simp: heap_def)
  then have hp: "heap s' = (heap s)(f := \<lambda>r. if pageId r = p then page_tuples pg (slotNum r) else heap s f r)" by (intro ext)
  have "page_view s' f p = pg" using s'(4) i(8) [OF p] by simp
  with s' hp show thesis by (intro that)
qed

section \<open>New pages and files\<close>

text \<open>The page manager allocates pages and files on the disk directly, below the pool: the cached
  pages keep their contents, and a new page is not cached yet.\<close>

lemma pool_inv_disk:
  assumes inv: "pool_inv s" and ok: "disk_ok d'"
    and ext: "\<And>g q. page_exists (st_disk s) g q \<Longrightarrow> page_exists d' g q \<and> disk_page d' g q = disk_page (st_disk s) g q"
  shows "pool_inv (s\<lparr>st_disk := d'\<rparr>)"
  unfolding pool_inv_unfold
proof (simp, rule pool_okI)
  note facts = pool_ok_facts [OF inv [unfolded pool_inv_unfold]]
  show "disk_ok d'" by (rule ok)
  show "\<And>k i. (k, i) \<in> set (bp_pageTable (st_pool s)) \<Longrightarrow> entry_ok d' (bp_frames (st_pool s)) k i"
  proof -
    fix k i assume "(k, i) \<in> set (bp_pageTable (st_pool s))"
    note e = facts(6) [OF this, unfolded entry_ok_def]
    define fr where "fr = bp_frames (st_pool s) ! i"
    have "frame_ok (st_disk s) fr" using e by (simp add: fr_def)
    then have "frame_ok d' fr" using ext [of "pf_fileId fr" "pf_pageNum fr"] by (auto simp: frame_ok_def page_exists_def)
    then show "entry_ok d' (bp_frames (st_pool s)) k i" using e by (simp add: entry_ok_def fr_def)
  qed
qed (rule pool_ok_facts [OF inv [unfolded pool_inv_unfold]]; assumption)+

lemma lookup_exists:
  assumes "pool_inv s" "page_ok f p" "lookup_page s f p = Some i"
  shows "page_exists (st_disk s) f p"
  using pool_inv_lookup [OF assms(1,3,2)] assms(2) by (auto simp: frame_ok_def page_exists_def)

text \<open>Changing the disk so that existing pages stay: the views of existing pages stay, a page that
  did not exist shows what the disk holds.\<close>

lemma view_disk_change:
  assumes "pool_inv s" "page_ok f p"
    and "page_exists (st_disk s) f p \<Longrightarrow> disk_page d' f p = disk_page (st_disk s) f p"
  shows "page_view (s\<lparr>st_disk := d'\<rparr>) f p =
      (if page_exists (st_disk s) f p then page_view s f p else disk_page d' f p)"
    "pin_view (s\<lparr>st_disk := d'\<rparr>) f p = pin_view s f p"
  using lookup_exists [OF assms(1,2)] assms(3)
  by (auto simp: page_view_def view_of_def pin_view_def lookup_page_def frame_at_def split: option.splits)

lemma allocate_step:
  assumes inv: "heap_inv s" and f: "table_open s f" and room: "getPageCount f s < 4294967295"
  shows "\<exists>d'. allocateNewPage f (st_disk s) = Inr (getPageCount f s, d') \<and> storage_inv (s\<lparr>st_disk := d'\<rparr>) \<and>
    page_exists d' f (getPageCount f s) \<and> dm_nextFileId d' = dm_nextFileId (st_disk s) \<and>
    (\<forall>g. is_open d' g = table_open s g) \<and>
    (\<forall>g. getFilePageCount g d' = (if g = f then getPageCount f s + 1 else getPageCount g s)) \<and>
    (\<forall>g q. page_ok g q \<longrightarrow> pin_view (s\<lparr>st_disk := d'\<rparr>) g q = 0) \<and>
    (\<forall>g q. page_exists (st_disk s) g q \<longrightarrow> page_view (s\<lparr>st_disk := d'\<rparr>) g q = page_view s g q)"
proof -
  note i = heap_inv_facts [OF inv]
  obtain d' where d': "allocateNewPage f (st_disk s) = Inr (getFilePageCount f (st_disk s), d')" "disk_ok d'"
    "disk_page d' = (\<lambda>g q. if g = f \<and> q = getFilePageCount f (st_disk s) then zero_page else disk_page (st_disk s) g q)"
    "\<And>g. is_open d' g = is_open (st_disk s) g"
    "\<And>g. getFilePageCount g d' = (if g = f then to_u32 (getFilePageCount f (st_disk s) + 1) else getFilePageCount g (st_disk s))"
    "dm_nextFileId d' = dm_nextFileId (st_disk s)"
    by (rule allocateNewPage_spec [OF i(3) f]) (rule that)
  have n: "getFilePageCount g d' = (if g = f then getPageCount f s + 1 else getPageCount g s)" for g
    using d'(5) room by (simp add: getPageCount_def)
  have ext: "page_exists d' g q \<and> disk_page d' g q = disk_page (st_disk s) g q" if "page_exists (st_disk s) g q" for g q
    using that d'(4) n by (auto simp: page_exists_def d'(3) getPageCount_def)
  have "storage_inv (s\<lparr>st_disk := d'\<rparr>)"
    using pool_inv_disk [OF i(2) d'(2) ext] i(1) by (simp add: storage_inv_def)
  moreover have "pin_view (s\<lparr>st_disk := d'\<rparr>) g q = 0" if "page_ok g q" for g q
    using view_disk_change(2) [OF i(2) that] ext i(4) [OF that] by simp
  moreover have "page_view (s\<lparr>st_disk := d'\<rparr>) g q = page_view s g q" if "page_exists (st_disk s) g q" for g q
  proof -
    have "page_ok g q" using that by (simp add: page_exists_def)
    from view_disk_change(1) [OF i(2) this] ext that show ?thesis by simp
  qed
  moreover have "page_exists d' f (getPageCount f s)"
    using i(5) [OF f] f room d'(4) n by (auto simp: page_exists_def page_ok_def)
  ultimately show ?thesis using d'(1,4,6) n by (simp add: getPageCount_def)
qed

lemma with_new_page_spec:
  assumes inv: "heap_inv s" and f: "table_open s f" and room: "getPageCount f s < 4294967295"
    and g: "\<And>pg. \<exists>pg'. g (getPageCount f s) pg = Inr ((), pg', True) \<and> page_wf pg' \<and> page_tuples pg' = m \<and> P pg'"
  shows "\<exists>s'. with_new_page f g s = Inr (getPageCount f s, s') \<and> heap_inv s' \<and> P (page_view s' f (getPageCount f s)) \<and>
    (\<forall>h. table_open s' h = table_open s h) \<and> dm_nextFileId (st_disk s') = dm_nextFileId (st_disk s) \<and>
    (\<forall>h. getPageCount h s' = (if h = f then getPageCount f s + 1 else getPageCount h s)) \<and>
    heap s' = (heap s)(f := \<lambda>r. if pageId r = getPageCount f s then m (slotNum r) else heap s f r)"
proof -
  note i = heap_inv_facts [OF inv]
  let ?n = "getPageCount f s"
  obtain d' where d': "allocateNewPage f (st_disk s) = Inr (?n, d')" "storage_inv (s\<lparr>st_disk := d'\<rparr>)"
    "page_exists d' f ?n" "dm_nextFileId d' = dm_nextFileId (st_disk s)" "\<forall>g. is_open d' g = table_open s g"
    "\<forall>g. getFilePageCount g d' = (if g = f then ?n + 1 else getPageCount g s)"
    "\<forall>g q. page_ok g q \<longrightarrow> pin_view (s\<lparr>st_disk := d'\<rparr>) g q = 0"
    "\<forall>g q. page_exists (st_disk s) g q \<longrightarrow> page_view (s\<lparr>st_disk := d'\<rparr>) g q = page_view s g q"
    using allocate_step [OF inv f room] by blast
  let ?t = "s\<lparr>st_disk := d'\<rparr>"
  obtain pg' where pg': "g ?n (page_view ?t f ?n) = Inr ((), pg', True)" "page_wf pg'" "page_tuples pg' = m" "P pg'"
    using g by blast
  have ex: "page_exists (st_disk ?t) f ?n" and l: "length pg' = PAGE_SIZE"
    using d'(3) pg'(2) by (simp_all add: page_wf_def)
  obtain s' where s': "with_page f ?n True (g ?n) ?t = Inr ((), s')" "storage_inv s'" "storage_meta s' = storage_meta ?t"
    "\<forall>h q. page_ok h q \<longrightarrow> pin_view s' h q = 0"
    "\<forall>h q. page_ok h q \<longrightarrow> page_view s' h q = (if h = f \<and> q = ?n then pg' else page_view ?t h q)"
    using bp.bracket [where g = "g ?n" and w = True, OF d'(2) ex d'(7) [rule_format] pg'(1) l] unfolding with_page_def by blast
  note me = storage_meta_eq [OF s'(3)]
  have op: "table_open s' h = table_open s h" for h using me(1) d'(5) by simp
  have cnt: "getPageCount h s' = (if h = f then ?n + 1 else getPageCount h s)" for h
    using me(2) [of h] d'(6) by (simp add: getPageCount_def)
  have view: "page_view s' h q = (if h = f \<and> q = ?n then pg' else page_view s h q)"
    if "table_open s h" "q < getPageCount h s'" for h q
  proof (cases "h = f \<and> q = ?n")
    case True
    then show ?thesis using s'(5) d'(3) by (simp add: page_exists_def)
  next
    case False
    with that cnt have q: "q < getPageCount h s" by (auto split: if_splits)
    show ?thesis using s'(5) d'(8) i(7) [OF that(1) q] i(8) [OF that(1) q] False by auto
  qed
  have "heap_inv s'"
    unfolding heap_inv_def
  proof (intro conjI allI impI)
    fix h q assume h: "table_open s' h" "q < getPageCount h s'"
    with op cnt have "h = f \<and> q = ?n \<or> q < getPageCount h s" by (auto split: if_splits)
    then show "page_wf (page_view s' h q)" using i(6) [of h q] view [of h q] h op pg'(2) by auto
  next
    fix h assume "table_open s' h"
    then show "getPageCount h s' \<le> 4294967295" using cnt [of h] room i(5) [of h] op by auto
  qed (use s'(2,4) i(5) op in auto)
  moreover have "heap s' = (heap s)(f := \<lambda>r. if pageId r = ?n then m (slotNum r) else heap s f r)"
  proof (intro ext)
    fix h r show "heap s' h r = ((heap s)(f := \<lambda>r. if pageId r = ?n then m (slotNum r) else heap s f r)) h r"
      using view [of h "pageId r"] op cnt pg'(3) f by (auto simp: heap_def)
  qed
  moreover have "page_view s' f ?n = pg'" using view [of f ?n] f cnt by simp
  ultimately show ?thesis
    using d'(1,4) s'(1) op cnt me(3) pg'(4) by (intro exI [of _ s']) (auto simp: with_new_page_def)
qed

section \<open>The operations act on the heap as on a map\<close>

text \<open>A step that only moves pages between the disk and the pool.\<close>

definition same_heap :: "Storage \<Rightarrow> Storage \<Rightarrow> bool" where
  "same_heap s' s \<longleftrightarrow> heap_inv s' \<and> storage_meta s' = storage_meta s \<and> heap s' = heap s \<and> same_pages s' s"

lemma same_heap_trans: "same_heap s2 s1 \<Longrightarrow> same_heap s1 s \<Longrightarrow> same_heap s2 s"
  by (simp add: same_heap_def same_pages_def)

lemma same_heap_facts:
  assumes "same_heap s' s"
  shows "heap_inv s'" "heap s' = heap s" "table_open s' f = table_open s f" "getPageCount f s' = getPageCount f s"
    "page_ok f p \<Longrightarrow> page_view s' f p = page_view s f p"
    "dm_nextFileId (st_disk s') = dm_nextFileId (st_disk s)"
  using assms storage_meta_eq [of s' s] by (auto simp: same_heap_def same_pages_def)

lemma with_page_read:
  assumes inv: "heap_inv s" and p: "table_open s f" "p < getPageCount f s"
    and g: "g (page_view s f p) = Inr (x, page_view s f p, dirty)"
  obtains s' where "with_page f p w g s = Inr (x, s')" "same_heap s' s"
proof -
  note i = heap_inv_facts [OF inv]
  obtain s' where s': "with_page f p w g s = Inr (x, s')" "heap_inv s'" "storage_meta s' = storage_meta s"
    "\<forall>h q. page_ok h q \<longrightarrow> page_view s' h q = (if h = f \<and> q = p then page_view s f p else page_view s h q)"
    using with_page_spec [where g = g, OF inv p g i(6) [OF p]] by blast
  note m = storage_meta_eq [OF s'(3)]
  have "heap s' h r = heap s h r" for h r
    using s'(4) m i(8) [of h "pageId r"] by (auto simp: heap_def)
  with s' have "same_heap s' s" by (auto simp: same_heap_def same_pages_def intro!: ext)
  with s'(1) show thesis by (rule that)
qed

lemma findFreePage_loop_spec:
  assumes "heap_inv s" "table_open s f" "set ps \<subseteq> {..<getPageCount f s}"
  shows "\<exists>found s'. findFreePage_loop f n ps s = Inr (found, s') \<and> same_heap s' s \<and>
    (case found of Some p \<Rightarrow> p \<in> set ps \<and> freeSpacePtr (page_view s f p) + n \<le> 4096
     | None \<Rightarrow> \<forall>p \<in> set ps. 4096 < freeSpacePtr (page_view s f p) + n)"
  using assms
proof (induction ps arbitrary: s)
  case Nil
  then show ?case by (simp add: same_heap_def same_pages_def)
next
  case (Cons p ps)
  have p: "p < getPageCount f s" using Cons.prems(3) by simp
  note i = heap_inv_facts [OF Cons.prems(1)]
  note w = page_wf_facts(4) [OF i(6) [OF Cons.prems(2) p]] freeSpace_wf [OF i(6) [OF Cons.prems(2) p]]
  obtain t where t: "with_page f p False (\<lambda>pg. Inr (freeSpace pg, pg, False)) s = Inr (freeSpace (page_view s f p), t)" "same_heap t s"
    by (rule with_page_read [OF Cons.prems(1,2) p]) (rule refl, rule that)
  note sh = same_heap_facts [OF t(2)]
  show ?case
  proof (cases "freeSpace (page_view s f p) \<ge> n")
    case True
    then show ?thesis using t w by (intro exI [of _ "Some p"] exI [of _ t]) auto
  next
    case False
    obtain found s' where r: "findFreePage_loop f n ps t = Inr (found, s')" "same_heap s' t"
      "case found of Some p \<Rightarrow> p \<in> set ps \<and> freeSpacePtr (page_view t f p) + n \<le> 4096
       | None \<Rightarrow> \<forall>p \<in> set ps. 4096 < freeSpacePtr (page_view t f p) + n"
      using Cons.IH [of t] sh Cons.prems by auto
    have v: "page_view t f q = page_view s f q" if "q \<in> set ps" for q
      using sh(5) [OF i(8) [OF Cons.prems(2)]] that Cons.prems(3) by auto
    show ?thesis
      using t(1) r False w v same_heap_trans [OF r(2) t(2)]
      by (intro exI [of _ found] exI [of _ s']) (auto split: option.splits)
  qed
qed

text \<open>What \<open>findFreePage\<close> returns: a page of the file with room for \<open>n\<close> bytes, unless \<open>n\<close> exceeds
  what an empty page offers, when it still returns a fresh page.\<close>

lemma findFreePage_spec:
  assumes inv: "heap_inv s" and f: "table_open s f" and room: "getPageCount f s < 4294967295"
  shows "\<exists>p s'. findFreePage f n s = Inr (p, s') \<and> heap_inv s' \<and> heap s' = heap s \<and> (\<forall>h. table_open s' h = table_open s h) \<and>
    dm_nextFileId (st_disk s') = dm_nextFileId (st_disk s) \<and> (\<forall>h. h \<noteq> f \<longrightarrow> getPageCount h s' = getPageCount h s) \<and>
    p < getPageCount f s' \<and> getPageCount f s \<le> getPageCount f s' \<and> getPageCount f s' \<le> getPageCount f s + 1 \<and>
    (n \<le> 3576 \<longrightarrow> freeSpacePtr (page_view s' f p) + n \<le> 4096) \<and> (3576 < n \<longrightarrow> numSlots (page_view s' f p) = 0 \<and> freeSpacePtr (page_view s' f p) = 520)"
proof -
  have sub: "set [0..<getPageCount f s] \<subseteq> {..<getPageCount f s}" by auto
  obtain found t where t: "findFreePage_loop f n [0..<getFilePageCount f (st_disk s)] s = Inr (found, t)" "same_heap t s"
    "case found of Some p \<Rightarrow> p \<in> set [0..<getPageCount f s] \<and> freeSpacePtr (page_view s f p) + n \<le> 4096
     | None \<Rightarrow> \<forall>p \<in> set [0..<getPageCount f s]. 4096 < freeSpacePtr (page_view s f p) + n"
    using findFreePage_loop_spec [OF inv f sub, of n] unfolding getPageCount_def by blast
  note sh = same_heap_facts [OF t(2)] and i = heap_inv_facts [OF inv]
  show ?thesis
  proof (cases found)
    case (Some p)
    with t(3) have p: "p < getPageCount f s" "freeSpacePtr (page_view s f p) + n \<le> 4096" by auto
    have "n \<le> 3576" using p(2) page_wf_facts(3) [OF i(6) [OF f p(1)]] by simp
    then show ?thesis
      using Some t(1) sh p i(8) [OF f p(1)] by (intro exI [of _ p] exI [of _ t]) (auto simp: findFreePage_def)
  next
    case None
    have g: "\<exists>pg'. init_new_page q pg = Inr ((), pg', True) \<and> page_wf pg' \<and> page_tuples pg' = Map.empty \<and>
        numSlots pg' = 0 \<and> freeSpacePtr pg' = 520" for q pg
      using initPage_spec [of q pg] by (simp add: init_new_page_def)
    have t': "table_open t f" "getPageCount f t < 4294967295" using f room sh(3,4) by auto
    obtain s' where s': "with_new_page f init_new_page t = Inr (getPageCount f t, s')" "heap_inv s'"
      "numSlots (page_view s' f (getPageCount f t)) = 0 \<and> freeSpacePtr (page_view s' f (getPageCount f t)) = 520"
      "\<forall>h. table_open s' h = table_open t h" "dm_nextFileId (st_disk s') = dm_nextFileId (st_disk t)"
      "\<forall>h. getPageCount h s' = (if h = f then getPageCount f t + 1 else getPageCount h t)"
      "heap s' = (heap t)(f := \<lambda>r. if pageId r = getPageCount f t then Map.empty (slotNum r) else heap t f r)"
      using with_new_page_spec [where g = init_new_page and m = Map.empty, OF sh(1) t' g] by blast
    have "heap s' h r = heap t h r" for h r using s'(7) by (auto simp: heap_def)
    then have "heap s' = heap s" using sh(2) by (simp add: fun_eq_iff)
    then show ?thesis
      using None t(1) s' sh by (intro exI [of _ "getPageCount f t"] exI [of _ s']) (auto simp: findFreePage_def)
  qed
qed

text \<open>A tuple of at most 3576 bytes, the room of an empty page, is stored under an identifier that
  was free, and nothing else changes in any file.\<close>

lemma insertTuple_spec:
  assumes inv: "heap_inv s" and f: "table_open s f" and room: "getPageCount f s + 1 < 4294967295"
    and n: "n \<le> length bytes" "n \<le> 3576"
  shows "\<exists>r s'. insertTuple f bytes n s = Inr (r, s') \<and> heap_inv s' \<and> heap s f r = None \<and>
    heap s' = (heap s)(f := (heap s f)(r := (if n = 0 then None else Some (take n bytes)))) \<and>
    (\<forall>h. table_open s' h = table_open s h) \<and> dm_nextFileId (st_disk s') = dm_nextFileId (st_disk s) \<and>
    pageId r < getPageCount f s' \<and> slotNum r < 128 \<and> getPageCount f s \<le> getPageCount f s' \<and> getPageCount f s' \<le> getPageCount f s + 2 \<and>
    (\<forall>h. h \<noteq> f \<longrightarrow> getPageCount h s' = getPageCount h s)"
proof -
  let ?v = "if n = 0 then None else Some (take n bytes)"
  have "getPageCount f s < 4294967295" using room by simp
  from findFreePage_spec [OF inv f this, of n] n(2) obtain p t where
    t: "findFreePage f n s = Inr (p, t)" "heap_inv t" "heap t = heap s" "\<forall>h. table_open t h = table_open s h"
      "dm_nextFileId (st_disk t) = dm_nextFileId (st_disk s)" "\<forall>h. h \<noteq> f \<longrightarrow> getPageCount h t = getPageCount h s"
      "p < getPageCount f t" "getPageCount f t \<le> getPageCount f s + 1" "freeSpacePtr (page_view t f p) + n \<le> 4096"
      "getPageCount f s \<le> getPageCount f t"
    by blast
  have tf: "table_open t f" using t(4) f by simp
  note wf = heap_inv_facts(6) [OF t(2) tf t(7)]
  show ?thesis
  proof (rule insert_in_page_spec [OF wf n(1) t(9)])
    fix k pg
    assume k: "insert_in_page bytes n (page_view t f p) = Inr (Some k, pg, True)" "page_wf pg"
      "page_tuples (page_view t f p) k = None" "page_tuples pg = (page_tuples (page_view t f p))(k := ?v)" "k < 128"
    obtain s' where s': "with_page f p True (insert_in_page bytes n) t = Inr (Some k, s')" "heap_inv s'"
      "storage_meta s' = storage_meta t"
      "heap s' = (heap t)(f := \<lambda>r. if pageId r = p then page_tuples pg (slotNum r) else heap t f r)" "page_view s' f p = pg"
      by (rule with_page_heap [where g = "insert_in_page bytes n" and w = True, OF t(2) tf t(7) k(1,2)]) (rule disjI1, rule TrueI, rule that)
    note m = storage_meta_eq [OF s'(3)]
    have v: "page_tuples (page_view t f p) j = heap s f (RID p j)" for j using t(3,7) tf by (auto simp: heap_def simp flip: t(3))
    have "heap s' = (heap s)(f := (heap s f)(RID p k := ?v))"
      unfolding s'(4) t(3) k(4) by (intro ext) (auto simp: v split: RID.splits)
    then show ?thesis
      using t s' m k(5) k(3) v by (intro exI [of _ "RID p k"] exI [of _ s']) (simp add: insertTuple_def)
  next
    assume full: "insert_in_page bytes n (page_view t f p) = Inr (None, page_view t f p, False)"
    obtain u where u: "with_page f p True (insert_in_page bytes n) t = Inr (None, u)" "same_heap u t"
      by (rule with_page_read [where g = "insert_in_page bytes n", OF t(2) tf t(7) full])
    note sh = same_heap_facts [OF u(2)]
    let ?q = "getPageCount f u" and ?g = "\<lambda>newPage. insert_in_new_page newPage bytes n"
    have g: "\<exists>pg'. ?g ?q pg = Inr ((), pg', True) \<and> page_wf pg' \<and> page_tuples pg' = Map.empty(0 := ?v) \<and> True" for pg
      by (rule insert_in_new_page_spec [OF n, of ?q pg]) auto
    have uf: "table_open u f" "?q < 4294967295" using tf sh(3,4) t(8) room by auto
    obtain s' where s': "with_new_page f ?g u = Inr (?q, s')" "heap_inv s'" "\<forall>h. table_open s' h = table_open u h"
      "dm_nextFileId (st_disk s') = dm_nextFileId (st_disk u)"
      "\<forall>h. getPageCount h s' = (if h = f then ?q + 1 else getPageCount h u)"
      "heap s' = (heap u)(f := \<lambda>r. if pageId r = ?q then (Map.empty(0 := ?v)) (slotNum r) else heap u f r)"
      using with_new_page_spec [where g = ?g and P = "\<lambda>_. True", OF sh(1) uf g] by blast
    have none: "heap s f r = None" if "pageId r = ?q" for r using that sh(2) t(3) by (metis heap_def less_irrefl)
    have "heap s' = (heap s)(f := (heap s f)(RID ?q 0 := ?v))"
      unfolding s'(6) sh(2) t(3) using none by (intro ext) (auto simp: RID_eq_iff)
    then show ?thesis
      using t u s' sh none by (intro exI [of _ "RID ?q 0"] exI [of _ s']) (simp add: insertTuple_def)
  qed
qed

text \<open>A longer tuple makes \<open>insertTuple\<close> copy past the end of the frame.\<close>

lemma insertTuple_overflow:
  assumes inv: "heap_inv s" and f: "table_open s f" and room: "getPageCount f s < 4294967295"
    and n: "n \<le> length bytes" "3576 < n"
  shows "insertTuple f bytes n s = Inl (UndefinedBehaviour ''memcpy past the end of the page'')"
proof -
  from findFreePage_spec [OF inv f room, of n] n(2) obtain p t where
    t: "findFreePage f n s = Inr (p, t)" "heap_inv t" "\<forall>h. table_open t h = table_open s h" "p < getPageCount f t"
      "numSlots (page_view t f p) = 0" "freeSpacePtr (page_view t f p) = 520"
    by blast
  have "insert_in_page bytes n (page_view t f p) = Inl (UndefinedBehaviour ''memcpy past the end of the page'')"
    using t(5,6) n by (simp add: insert_in_page_def place_tuple_def set_slot_def page_consts Let_def)
  from with_page_error [where g = "insert_in_page bytes n", OF t(2) _ t(4) this] t f show ?thesis
    by (simp add: insertTuple_def)
qed

lemma readTuple_spec:
  assumes "heap_inv s" "table_open s f" "pageId r < getPageCount f s"
  obtains s' where "readTuple f r s = Inr (case heap s f r of None \<Rightarrow> [] | Some bytes \<Rightarrow> bytes, s')" "same_heap s' s"
proof -
  note wf = heap_inv_facts(6) [OF assms]
  have h: "heap s f r = page_tuples (page_view s f (pageId r)) (slotNum r)" using assms by (simp add: heap_def)
  show thesis
    by (rule with_page_read [where g = "read_in_page (slotNum r)" and w = False, OF assms read_in_page_spec [OF wf]])
      (rule that; simp add: readTuple_def h)
qed

lemma deleteTuple_spec:
  assumes inv: "heap_inv s" and f: "table_open s f" "pageId r < getPageCount f s"
  shows "\<exists>s'. deleteTuple f r s = Inr s' \<and> heap_inv s' \<and> heap s' = (heap s)(f := (heap s f)(r := None)) \<and>
    storage_meta s' = storage_meta s"
proof -
  note wf = heap_inv_facts(6) [OF assms]
  obtain pg' where p: "delete_in_page (slotNum r) (page_view s f (pageId r)) = Inr ((), pg', True)" "page_wf pg'"
    "page_tuples pg' = (page_tuples (page_view s f (pageId r)))(slotNum r := None)"
    by (rule delete_in_page_spec [OF wf])
  obtain s' where s': "with_page f (pageId r) True (delete_in_page (slotNum r)) s = Inr ((), s')" "heap_inv s'"
    "storage_meta s' = storage_meta s"
    "heap s' = (heap s)(f := \<lambda>q. if pageId q = pageId r then page_tuples pg' (slotNum q) else heap s f q)"
    by (rule with_page_heap [where g = "delete_in_page (slotNum r)" and w = True, OF assms p(1,2)]) (rule disjI1, rule TrueI, rule that)
  have v: "page_tuples (page_view s f (pageId r)) (slotNum q) = heap s f q" if "pageId q = pageId r" for q
    using f that by (auto simp: heap_def)
  have "heap s' = (heap s)(f := (heap s f)(r := None))"
    unfolding s'(4) p(3) by (intro ext) (auto simp: v RID_eq_iff)
  with s' show ?thesis by (simp add: deleteTuple_def)
qed

section \<open>Scans\<close>

text \<open>The stored tuples in the order of their identifiers, and what a callback makes of them.\<close>

definition page_list :: "Storage \<Rightarrow> int \<Rightarrow> nat \<Rightarrow> (RID \<times> byte list) list" where
  "page_list s f p = List.map_filter (\<lambda>i. map_option (Pair (RID p i)) (page_tuples (page_view s f p) i)) [0..<numSlots (page_view s f p)]"

definition heap_list :: "Storage \<Rightarrow> int \<Rightarrow> (RID \<times> byte list) list" where
  "heap_list s f = concat (map (page_list s f) [0..<getPageCount f s])"

fun fold_until :: "('a \<Rightarrow> 'c \<Rightarrow> (bool \<times> 'c) res) \<Rightarrow> 'a list \<Rightarrow> 'c \<Rightarrow> (bool \<times> 'c) res" where
  "fold_until g [] c = Inr (True, c)"
| "fold_until g (x # xs) c = bindE (g x c) (\<lambda>(continue, c). if continue then fold_until g xs c else Inr (False, c))"

lemma fold_until_append:
  "fold_until g (xs @ ys) c = bindE (fold_until g xs c) (\<lambda>(continue, c). if continue then fold_until g ys c else Inr (False, c))"
proof (induction xs arbitrary: c)
  case (Cons x xs)
  then show ?case by (cases "g x c") (auto split: prod.splits)
qed simp

text \<open>A callback that does on each stored tuple what \<open>g\<close> does with its bytes, whatever follows them
  in the page.\<close>

definition reads_tuples ::
  "(RID \<Rightarrow> byte list \<Rightarrow> nat \<Rightarrow> 'c \<Rightarrow> (bool \<times> 'c) res) \<Rightarrow> (RID \<times> byte list \<Rightarrow> 'c \<Rightarrow> (bool \<times> 'c) res) \<Rightarrow> (RID \<times> byte list) list \<Rightarrow> bool" where
  "reads_tuples callback g xs \<longleftrightarrow> (\<forall>r bytes rest c. (r, bytes) \<in> set xs \<longrightarrow> callback r (bytes @ rest) (length bytes) c = g (r, bytes) c)"

lemma page_tuples_bytes:
  assumes "page_wf pg" "page_tuples pg i = Some bytes"
  obtains rest where "drop (slot_start pg i) pg = bytes @ rest" "length bytes = slot_len pg i" "i < 128" "slot_len pg i \<noteq> 0"
proof -
  note w = page_wf_facts [OF assms(1)]
  have i: "i < numSlots pg" "slot_len pg i \<noteq> 0" "bytes = rd pg (slot_start pg i) (slot_len pg i)"
    using assms(2) by (auto simp: page_tuples_def split: if_splits)
  show thesis
    by (rule that [of "drop (slot_len pg i) (drop (slot_start pg i) pg)"])
      (use i w(1,2,4) w(5) [OF i(1,2)] in \<open>auto simp: rd_def simp del: drop_drop\<close>)
qed

lemma scan_slots_spec:
  assumes "page_wf pg" "set is \<subseteq> {..<numSlots pg}"
    and "reads_tuples callback g (List.map_filter (\<lambda>i. map_option (Pair (RID p i)) (page_tuples pg i)) is)"
  shows "scan_slots callback p pg is c =
    fold_until g (List.map_filter (\<lambda>i. map_option (Pair (RID p i)) (page_tuples pg i)) is) c"
  using assms(2,3)
proof (induction "is" arbitrary: c)
  case Nil
  then show ?case by (simp add: List.map_filter_def)
next
  case (Cons i "is")
  have i: "i < numSlots pg" "i < 128" using Cons.prems(1) page_wf_facts(2) [OF assms(1)] by auto
  show ?case
  proof (cases "page_tuples pg i")
    case None
    then have "slot_len pg i = 0" using i by (simp add: page_tuples_def split: if_splits)
    with None i Cons show ?thesis by (simp add: map_filter_Cons)
  next
    case (Some bytes)
    obtain rest where b: "drop (slot_start pg i) pg = bytes @ rest" "length bytes = slot_len pg i" "slot_len pg i \<noteq> 0"
      by (rule page_tuples_bytes [OF assms(1) Some])
    have m: "reads_tuples callback g (List.map_filter (\<lambda>i. map_option (Pair (RID p i)) (page_tuples pg i)) is)"
      "callback (RID p i) (bytes @ rest) (slot_len pg i) c = g (RID p i, bytes) c"
      using Cons.prems(2) Some b(2) by (auto simp: reads_tuples_def map_filter_Cons)
    have "scan_slots callback p pg (i # is) c =
        bindE (g (RID p i, bytes) c) (\<lambda>(continue, c). if \<not> continue then Inr (False, c) else scan_slots callback p pg is c)"
      using b i m(2) by simp
    also have "\<dots> = bindE (g (RID p i, bytes) c) (\<lambda>(continue, c). if continue
        then fold_until g (List.map_filter (\<lambda>i. map_option (Pair (RID p i)) (page_tuples pg i)) is) c else Inr (False, c))"
      using Cons.IH [OF _ m(1)] Cons.prems(1) by (cases "g (RID p i, bytes) c") (auto split: prod.splits)
    finally show ?thesis using Some by (simp add: map_filter_Cons)
  qed
qed

lemma scan_pages_spec:
  assumes "heap_inv s" "table_open s f" "set ps \<subseteq> {..<getPageCount f s}"
    and "reads_tuples callback g (concat (map (page_list s f) ps))"
    and "fold_until g (concat (map (page_list s f) ps)) c = Inr (b, c')"
  shows "\<exists>s'. scan_pages callback f ps c s = Inr (c', s') \<and> same_heap s' s"
  using assms
proof (induction ps arbitrary: s c)
  case Nil
  then show ?case by (simp add: same_heap_def same_pages_def)
next
  case (Cons p ps)
  note i = heap_inv_facts [OF Cons.prems(1)]
  have p: "p < getPageCount f s" using Cons.prems(3) by simp
  let ?pg = "page_view s f p"
  have pl: "page_list s f p = List.map_filter (\<lambda>i. map_option (Pair (RID p i)) (page_tuples ?pg i)) [0..<numSlots ?pg]"
    by (simp add: page_list_def)
  have reads: "reads_tuples callback g (page_list s f p)" "reads_tuples callback g (concat (map (page_list s f) ps))"
    using Cons.prems(4) by (auto simp: reads_tuples_def)
  obtain c1 b1 where c1: "fold_until g (page_list s f p) c = Inr (b1, c1)"
    "if b1 then fold_until g (concat (map (page_list s f) ps)) c1 = Inr (b, c') else c' = c1"
    using Cons.prems(5) by (auto simp: fold_until_append bindE_Inr_iff split: if_splits)
  have sub: "set [0..<numSlots ?pg] \<subseteq> {..<numSlots ?pg}" by auto
  have sc: "scan_slots callback p ?pg [0..<numSlots ?pg] c = Inr (b1, c1)"
    using scan_slots_spec [OF i(6) [OF Cons.prems(2) p] sub reads(1) [unfolded pl]] c1(1) pl by simp
  let ?g = "\<lambda>pg. bindE (scan_slots callback p pg [0..<numSlots pg] c) (\<lambda>r. Inr (r, pg, False))"
  have "?g ?pg = Inr ((b1, c1), ?pg, False)" using sc by simp
  then obtain t where t: "with_page f p False ?g s = Inr ((b1, c1), t)" "same_heap t s"
    by (rule with_page_read [where g = ?g, OF Cons.prems(1,2) p])
  show ?case
  proof (cases b1)
    case False
    with t c1(2) show ?thesis by (intro exI [of _ t]) auto
  next
    case True
    note sh = same_heap_facts [OF t(2)]
    have v: "page_list t f q = page_list s f q" if "q \<in> set ps" for q
      using sh(5) [OF i(8) [OF Cons.prems(2)]] that Cons.prems(3) by (auto simp: page_list_def)
    then have m: "map (page_list t f) ps = map (page_list s f) ps" by simp
    obtain s' where "scan_pages callback f ps c1 t = Inr (c', s')" "same_heap s' t"
      using Cons.IH [of t c1] sh Cons.prems(2,3) reads(2) c1(2) True m by auto
    with t True same_heap_trans show ?thesis by (intro exI [of _ s']) auto
  qed
qed

text \<open>A scan visits every stored tuple once, in increasing order of identifiers, until the callback
  stops it.\<close>

lemma scanTable_spec:
  assumes "heap_inv s" "table_open s f" "reads_tuples callback g (heap_list s f)"
    and "fold_until g (heap_list s f) c = Inr (b, c')"
  obtains s' where "scanTable f callback c s = Inr (c', s')" "same_heap s' s"
  using scan_pages_spec [OF assms(1,2), of "[0..<getPageCount f s]" callback g c b c'] assms(3,4)
  by (auto simp: scanTable_def heap_list_def getPageCount_def)

lemma page_list_sorted: "sorted_wrt (<) (map fst (page_list s f p))" "set (map fst (page_list s f p)) \<subseteq> {r. pageId r = p}"
proof -
  have "sorted_wrt (<) (map fst (List.map_filter (\<lambda>i. map_option (Pair (RID p i)) (m i)) xs)) \<and>
      fst ` set (List.map_filter (\<lambda>i. map_option (Pair (RID p i)) (m i)) xs) \<subseteq> RID p ` set xs"
    if "sorted_wrt (<) xs" for xs :: "nat list" and m :: "nat \<Rightarrow> byte list option"
    using that
  proof (induction xs)
    case Nil
    then show ?case by (simp add: List.map_filter_simps)
  next
    case (Cons x xs)
    have lt: "\<forall>r \<in> RID p ` set xs. RID p x < r" using Cons.prems by (auto simp: less_RID_def rid_less_def)
    with Cons have "\<forall>r \<in> fst ` set (List.map_filter (\<lambda>i. map_option (Pair (RID p i)) (m i)) xs). RID p x < r" by auto
    with Cons show ?case by (cases "m x") (auto simp: map_filter_Cons)
  qed
  from this [of "[0..<numSlots (page_view s f p)]" "page_tuples (page_view s f p)"]
  show "sorted_wrt (<) (map fst (page_list s f p))" "set (map fst (page_list s f p)) \<subseteq> {r. pageId r = p}"
    by (auto simp: page_list_def sorted_wrt_upt)
qed

lemma heap_list_sorted: "sorted_wrt (<) (map fst (heap_list s f))"
proof -
  have "sorted_wrt (<) (map fst (concat (map (page_list s f) [0..<n]))) \<and>
      (\<forall>r \<in> set (map fst (concat (map (page_list s f) [0..<n]))). pageId r < n)" for n
  proof (induction n)
    case (Suc n)
    have new: "\<forall>r \<in> fst ` set (page_list s f n). pageId r = n" using page_list_sorted(2) [of s f n] by auto
    let ?A = "map fst (concat (map (page_list s f) [0..<n]))"
    have "\<forall>a \<in> set ?A. \<forall>r \<in> fst ` set (page_list s f n). a < r"
      using Suc new by (auto simp: less_RID_def rid_less_def)
    moreover have "\<forall>r \<in> set ?A. pageId r < Suc n" using Suc by (auto intro: less_SucI)
    moreover have "map fst (concat (map (page_list s f) [0..<Suc n])) = ?A @ map fst (page_list s f n)" by simp
    ultimately show ?case using Suc page_list_sorted(1) [of s f n] new
      by (simp only: sorted_wrt_append set_append set_map ball_Un) auto
  qed simp
  then show ?thesis by (simp add: heap_list_def)
qed

lemma heap_list_set: "table_open s f \<Longrightarrow> set (heap_list s f) = {(r, bytes). heap s f r = Some bytes}"
proof -
  assume f: "table_open s f"
  have "(r, bytes) \<in> set (page_list s f p) \<longleftrightarrow> pageId r = p \<and> page_tuples (page_view s f p) (slotNum r) = Some bytes" for r bytes p
  proof (cases r)
    case (RID q i)
    then show ?thesis by (auto simp: page_list_def set_map_filter page_tuples_def)
  qed
  then show ?thesis using f by (auto simp: heap_list_def heap_def split: if_splits)
qed

lemma heap_list_map_of: "table_open s f \<Longrightarrow> map_of (heap_list s f) = heap s f"
proof
  fix r assume f: "table_open s f"
  have d: "distinct (map fst (heap_list s f))" using heap_list_sorted [of s f] strict_sorted_iff by blast
  show "map_of (heap_list s f) r = heap s f r"
  proof (cases "heap s f r")
    case None
    then have "r \<notin> fst ` set (heap_list s f)" using heap_list_set [OF f] by auto
    with None show ?thesis by (simp add: map_of_eq_None_iff)
  next
    case (Some bytes)
    then show ?thesis using heap_list_set [OF f] d by (simp add: map_of_eq_Some_iff)
  qed
qed

text \<open>Two files with the same contents are scanned alike.\<close>

lemma heap_list_unique:
  assumes "table_open s f" "table_open t g" "heap s f = heap t g"
  shows "heap_list s f = heap_list t g"
proof (rule map_sorted_distinct_set_unique [where f = fst])
  have d: "distinct (map fst (heap_list s f)) \<and> sorted (map fst (heap_list s f))" for s f
    using heap_list_sorted [of s f] strict_sorted_iff by blast
  have e: "set (heap_list s f) = set (heap_list t g)" using assms by (simp add: heap_list_set)
  show "inj_on fst (set (heap_list s f) \<union> set (heap_list t g))"
    using d [of s f] e by (simp add: distinct_map)
qed (use heap_list_sorted [of s f] heap_list_sorted [of t g] strict_sorted_iff assms heap_list_set in \<open>auto\<close>)

lemma heap_list_distinct: "distinct (map fst (heap_list s f))" "sorted (map fst (heap_list s f))" "distinct (heap_list s f)"
proof -
  show d: "distinct (map fst (heap_list s f))" "sorted (map fst (heap_list s f))"
    using heap_list_sorted [of s f] strict_sorted_iff by blast+
  show "distinct (heap_list s f)" using d(1) distinct_map by blast
qed

lemma heap_list_filter:
  assumes "table_open s f" "table_open t f" "heap t f = heap s f |` (- R)"
  shows "heap_list t f = filter (\<lambda>(r, _). r \<notin> R) (heap_list s f)"
proof (rule map_sorted_distinct_set_unique [where f = fst])
  let ?ys = "filter (\<lambda>(r, _). r \<notin> R) (heap_list s f)"
  show e: "set (heap_list t f) = set ?ys" using assms by (auto simp: heap_list_set restrict_map_def split: if_splits)
  show "inj_on fst (set (heap_list t f) \<union> set ?ys)"
    using heap_list_distinct(1) [of t f] e by (simp add: distinct_map)
  have "sorted (map fst ?ys) \<and> distinct (map fst ?ys)"
    using heap_list_distinct(1,2) [of s f] by (simp add: sorted_filter distinct_map_filter)
  then show "sorted (map fst ?ys)" "distinct (map fst ?ys)" by simp_all
qed (rule heap_list_distinct)+

lemma heap_list_insert:
  assumes "table_open s f" "table_open t f" "heap s f r = None" "heap t f = (heap s f)(r \<mapsto> b)"
  shows "mset (heap_list t f) = add_mset (r, b) (mset (heap_list s f))"
proof -
  have n: "(r, b) \<notin> set (heap_list s f)" using assms(1,3) by (simp add: heap_list_set)
  have "set (heap_list t f) = set ((r, b) # heap_list s f)" using assms by (auto simp: heap_list_set split: if_splits)
  then have "mset (heap_list t f) = mset ((r, b) # heap_list s f)"
    using n heap_list_distinct(3) by (subst set_eq_iff_mset_eq_distinct [symmetric]) simp_all
  then show ?thesis by simp
qed

section \<open>New tables\<close>

definition fresh_table :: "Storage \<Rightarrow> string \<Rightarrow> bool" where
  "fresh_table s n \<longleftrightarrow> dm_openable (st_disk s) (full_path (n @ ''.db'')) \<and> dm_nextFileId (st_disk s) < 2147483647 \<and>
     (\<forall>f h. dm_files (st_disk s) f = Some h \<longrightarrow> fh_fileName h \<noteq> full_path (n @ ''.db''))"

lemma open_below_next:
  assumes "disk_ok d" "is_open d f"
  shows "0 < f" "f < dm_nextFileId d"
proof -
  obtain h where "dm_files d f = Some h" using assms(2) by auto
  then have "file_name d f = Some (fh_fileName h)" by (simp add: file_name_def)
  with assms(1) show "0 < f" "f < dm_nextFileId d" unfolding disk_ok_def by blast+
qed

lemma next_not_open: "disk_ok d \<Longrightarrow> \<not> is_open d (dm_nextFileId d)"
  using open_below_next(2) [of d "dm_nextFileId d"] by blast

lemma create_step:
  assumes inv: "heap_inv s" and fr: "fresh_table s n"
  shows "\<exists>d'. createFile (n @ ''.db'') (st_disk s) = Inr (dm_nextFileId (st_disk s), d') \<and> heap_inv (s\<lparr>st_disk := d'\<rparr>) \<and>
    heap (s\<lparr>st_disk := d'\<rparr>) = heap s \<and> dm_nextFileId d' = dm_nextFileId (st_disk s) + 1 \<and>
    (\<forall>g. is_open d' g = (table_open s g \<or> g = dm_nextFileId (st_disk s))) \<and>
    (\<forall>g. getFilePageCount g d' = (if g = dm_nextFileId (st_disk s) then 0 else getPageCount g s))"
proof -
  note i = heap_inv_facts [OF inv]
  let ?f = "dm_nextFileId (st_disk s)"
  have f: "0 < ?f" "?f < 2147483648" using i(3) fr by (auto simp: disk_ok_def fresh_table_def)
  have nf: "\<not> table_open s ?f" using next_not_open [OF i(3)] .
  have fr1: "dm_openable (st_disk s) (full_path (n @ ''.db''))" "?f < 2147483647" using fr by (simp_all add: fresh_table_def)
  have fr2: "fh_fileName h \<noteq> full_path (n @ ''.db'')" if "dm_files (st_disk s) f = Some h" for f h
    using fr that by (auto simp: fresh_table_def)
  obtain d' where d': "createFile (n @ ''.db'') (st_disk s) = Inr (?f, d')" "disk_ok d'"
    "disk_page d' = (\<lambda>g q. if g = ?f then zero_page else disk_page (st_disk s) g q)"
    "\<And>g. is_open d' g = (is_open (st_disk s) g \<or> g = ?f)"
    "\<And>g. getFilePageCount g d' = (if g = ?f then 0 else getFilePageCount g (st_disk s))"
    "dm_nextFileId d' = ?f + 1"
    by (rule createFile_spec [OF i(3) fr1 fr2]) (assumption, rule that)
  let ?t = "s\<lparr>st_disk := d'\<rparr>"
  have ext: "page_exists d' g q \<and> disk_page d' g q = disk_page (st_disk s) g q" if "page_exists (st_disk s) g q" for g q
    using that nf d'(4,5) by (auto simp: page_exists_def d'(3))
  have "pool_inv ?t" by (rule pool_inv_disk [OF i(2) d'(2) ext])
  then have st: "storage_inv ?t" using i(1) by (simp add: storage_inv_def)
  have cnt: "getPageCount g ?t = (if g = ?f then 0 else getPageCount g s)" for g using d'(5) by (simp add: getPageCount_def)
  have view: "page_view ?t g q = page_view s g q" if "table_open s g" "q < getPageCount g s" for g q
    using view_disk_change(1) [OF i(2) i(8) [OF that], of d'] ext i(7) [OF that] by simp
  have "heap_inv ?t"
    unfolding heap_inv_def
  proof (intro conjI allI impI)
    fix g q assume "page_ok g q"
    then show "pin_view ?t g q = 0" using view_disk_change(2) [OF i(2), of g q d'] ext i(4) by simp
  next
    fix g assume g: "table_open ?t g"
    show "0 < g" "g < 2147483648" "getPageCount g ?t \<le> 4294967295"
      using g f i(5) [of g] d'(4) [of g] cnt [of g] by auto
    fix q assume "q < getPageCount g ?t"
    with g cnt [of g] d'(4) [of g] view [of g q] i(6) [of g q] show "page_wf (page_view ?t g q)" by (auto split: if_splits)
  qed (rule st)
  moreover have "heap ?t g r = heap s g r" for g r
    using view [of g "pageId r"] d'(4) [of g] cnt [of g] nf by (auto simp: heap_def)
  ultimately show ?thesis using d' by (auto simp: getPageCount_def intro!: ext exI [of _ d'])
qed

text \<open>A new table is empty and disturbs no other.\<close>

lemma createTable_spec:
  assumes inv: "heap_inv s" and fr: "fresh_table s n"
  shows "\<exists>s'. createTable n s = Inr (dm_nextFileId (st_disk s), s') \<and> heap_inv s' \<and> heap s' = heap s \<and>
    \<not> table_open s (dm_nextFileId (st_disk s)) \<and>
    (\<forall>g. table_open s' g = (table_open s g \<or> g = dm_nextFileId (st_disk s))) \<and>
    dm_nextFileId (st_disk s') = dm_nextFileId (st_disk s) + 1 \<and>
    (\<forall>g. getPageCount g s' = (if g = dm_nextFileId (st_disk s) then 1 else getPageCount g s))"
proof -
  let ?f = "dm_nextFileId (st_disk s)"
  have nf: "\<not> table_open s ?f" using next_not_open [OF heap_inv_facts(3) [OF inv]] .
  obtain d' where d': "createFile (n @ ''.db'') (st_disk s) = Inr (?f, d')" "heap_inv (s\<lparr>st_disk := d'\<rparr>)"
    "heap (s\<lparr>st_disk := d'\<rparr>) = heap s" "dm_nextFileId d' = ?f + 1"
    "\<forall>g. is_open d' g = (table_open s g \<or> g = ?f)"
    "\<forall>g. getFilePageCount g d' = (if g = ?f then 0 else getPageCount g s)"
    using create_step [OF assms] by blast
  let ?t = "s\<lparr>st_disk := d'\<rparr>"
  have t: "table_open ?t ?f" "getPageCount ?f ?t = 0" "getPageCount ?f ?t < 4294967295" using d'(5,6) by (auto simp: getPageCount_def)
  have g: "\<exists>pg'. init_new_page q pg = Inr ((), pg', True) \<and> page_wf pg' \<and> page_tuples pg' = Map.empty \<and> True" for q pg
    using initPage_spec [of q pg] by (simp add: init_new_page_def)
  obtain s' where s': "with_new_page ?f init_new_page ?t = Inr (getPageCount ?f ?t, s')" "heap_inv s'"
    "\<forall>h. table_open s' h = table_open ?t h" "dm_nextFileId (st_disk s') = dm_nextFileId (st_disk ?t)"
    "\<forall>h. getPageCount h s' = (if h = ?f then getPageCount ?f ?t + 1 else getPageCount h ?t)"
    "heap s' = (heap ?t)(?f := \<lambda>r. if pageId r = getPageCount ?f ?t then Map.empty (slotNum r) else heap ?t ?f r)"
    using with_new_page_spec [where g = init_new_page and m = Map.empty and P = "\<lambda>_. True", OF d'(2) t(1,3) g] by blast
  have "heap s ?f r = None" for r using nf by (simp add: heap_def)
  then have "heap s' = heap s" unfolding s'(6) d'(3) by (intro ext) auto
  with s' d' t nf show ?thesis by (intro exI [of _ s']) (auto simp: createTable_def getPageCount_def)
qed

lemma heap_inv_new: "0 < n \<Longrightarrow> heap_inv \<lparr>st_disk = new_DiskManager os openable, st_pool = new_BufferPool n\<rparr>"
  using pool_inv_new [OF disk_ok_new, of os openable n]
  by (simp add: heap_inv_def storage_inv_def pin_view_def lookup_page_def new_BufferPool_def new_DiskManager_def)

section \<open>The interface of a heap file\<close>

text \<open>
  What the executor, the recovery and the engine rely on: a file is a map from record
  identifiers to byte strings, \<open>insert\<close> picks a free identifier, \<open>read\<close> looks up, \<open>delete\<close>
  removes, and nothing else changes in any file.
\<close>

locale heap_file =
  fixes inv :: "'s \<Rightarrow> bool"
    and live :: "'s \<Rightarrow> int \<Rightarrow> bool"
    and pages :: "int \<Rightarrow> 's \<Rightarrow> nat"
    and contents :: "'s \<Rightarrow> int \<Rightarrow> RID \<rightharpoonup> byte list"
    and ins :: "int \<Rightarrow> byte list \<Rightarrow> nat \<Rightarrow> 's \<Rightarrow> (RID \<times> 's) res"
    and fetch :: "int \<Rightarrow> RID \<Rightarrow> 's \<Rightarrow> (byte list \<times> 's) res"
    and del :: "int \<Rightarrow> RID \<Rightarrow> 's \<Rightarrow> 's res"
    and max_len :: nat
    and max_pages :: nat
  assumes ins_law: "inv s \<Longrightarrow> live s f \<Longrightarrow> pages f s + 1 < max_pages \<Longrightarrow> bytes \<noteq> [] \<Longrightarrow> length bytes \<le> max_len \<Longrightarrow>
      \<exists>r s'. ins f bytes (length bytes) s = Inr (r, s') \<and> inv s' \<and> live s' = live s \<and> contents s f r = None \<and>
        contents s' = (contents s)(f := (contents s f)(r \<mapsto> bytes)) \<and> pages f s' \<le> pages f s + 2 \<and>
        (\<forall>g. g \<noteq> f \<longrightarrow> pages g s' = pages g s)"
    and fetch_law: "inv s \<Longrightarrow> live s f \<Longrightarrow> contents s f r = Some bytes \<Longrightarrow>
      \<exists>s'. fetch f r s = Inr (bytes, s') \<and> inv s' \<and> live s' = live s \<and> contents s' = contents s \<and> (\<forall>g. pages g s' = pages g s)"
    and del_law: "inv s \<Longrightarrow> live s f \<Longrightarrow> contents s f r \<noteq> None \<Longrightarrow>
      \<exists>s'. del f r s = Inr s' \<and> inv s' \<and> live s' = live s \<and> contents s' = (contents s)(f := (contents s f)(r := None)) \<and>
        (\<forall>g. pages g s' = pages g s)"
begin

lemma ins_then_fetch:
  assumes "inv s" "live s f" "pages f s + 1 < max_pages" "bytes \<noteq> []" "length bytes \<le> max_len"
  shows "\<exists>r t. ins f bytes (length bytes) s = Inr (r, t) \<and> (\<exists>s'. fetch f r t = Inr (bytes, s')) \<and>
    (\<forall>q old. contents s f q = Some old \<longrightarrow> (\<exists>s'. fetch f q t = Inr (old, s')))"
proof -
  obtain r t where t: "ins f bytes (length bytes) s = Inr (r, t)" "inv t" "live t = live s" "contents s f r = None"
    "contents t = (contents s)(f := (contents s f)(r \<mapsto> bytes))"
    using ins_law [OF assms] by blast
  have f: "\<exists>s'. fetch f q t = Inr (b, s')" if "contents t f q = Some b" for q b
    using fetch_law [of t f q b] t(2,3) assms(2) that by auto
  have "contents t f r = Some bytes" using t(5) by simp
  moreover have "contents t f q = Some old" if "contents s f q = Some old" for q old using that t(4,5) by auto
  ultimately show ?thesis using t(1) f by blast
qed

text \<open>Deleting every identifier of a list leaves the file without them.\<close>

lemma del_all:
  assumes "inv s" "live s f" "distinct rs" "set rs \<subseteq> dom (contents s f)"
  shows "\<exists>s'. foldE (del f) rs s = Inr s' \<and> inv s' \<and> live s' = live s \<and>
    contents s' = (contents s)(f := contents s f |` (- set rs)) \<and> (\<forall>g. pages g s' = pages g s)"
  using assms
proof (induction rs arbitrary: s)
  case Nil
  then show ?case by (simp add: fun_upd_def restrict_map_def)
next
  case (Cons r rs)
  obtain t where t: "del f r s = Inr t" "inv t" "live t = live s" "contents t = (contents s)(f := (contents s f)(r := None))"
    "\<forall>g. pages g t = pages g s"
    using del_law [of s f r] Cons.prems by auto
  have "set rs \<subseteq> dom (contents t f)" using Cons.prems(3,4) t(4) by (auto simp: dom_def)
  then obtain s' where s': "foldE (del f) rs t = Inr s'" "inv s'" "live s' = live t"
    "contents s' = (contents t)(f := contents t f |` (- set rs))" "\<forall>g. pages g s' = pages g t"
    using Cons.IH [of t] t(2,3) Cons.prems(2,3) by (metis distinct.simps(2))
  have "contents s' = (contents s)(f := contents s f |` (- set (r # rs)))"
    unfolding s'(4) t(4) by (intro ext) (auto simp: restrict_map_def)
  with t s' show ?case by auto
qed

text \<open>Inserting a list of byte strings adds each of them under an identifier of its own.\<close>

lemma ins_all:
  assumes "inv s" "live s f" "pages f s + 2 * length bs < max_pages" "\<And>b. b \<in> set bs \<Longrightarrow> b \<noteq> [] \<and> length b \<le> max_len"
  shows "\<exists>rs s'. foldE (\<lambda>b (rs, s). bindE (ins f b (length b) s) (\<lambda>(r, s). Inr (rs @ [r], s))) bs (acc, s) = Inr (acc @ rs, s') \<and>
    inv s' \<and> live s' = live s \<and> length rs = length bs \<and> distinct rs \<and> set rs \<inter> dom (contents s f) = {} \<and>
    contents s' = (contents s)(f := contents s f ++ map_of (zip rs bs)) \<and> (\<forall>g. g \<noteq> f \<longrightarrow> pages g s' = pages g s)"
  using assms
proof (induction bs arbitrary: s acc)
  case Nil
  then show ?case by (intro exI [of _ "[]"] exI [of _ s]) simp
next
  case (Cons b bs)
  obtain r t where t: "ins f b (length b) s = Inr (r, t)" "inv t" "live t = live s" "contents s f r = None"
    "contents t = (contents s)(f := (contents s f)(r \<mapsto> b))" "pages f t \<le> pages f s + 2" "\<forall>g. g \<noteq> f \<longrightarrow> pages g t = pages g s"
    using ins_law [of s f b] Cons.prems by fastforce
  obtain rs s' where s': "foldE (\<lambda>b (rs, s). bindE (ins f b (length b) s) (\<lambda>(r, s). Inr (rs @ [r], s))) bs (acc @ [r], t) = Inr ((acc @ [r]) @ rs, s')"
    "inv s'" "live s' = live t" "length rs = length bs" "distinct rs" "set rs \<inter> dom (contents t f) = {}"
    "contents s' = (contents t)(f := contents t f ++ map_of (zip rs bs))" "\<forall>g. g \<noteq> f \<longrightarrow> pages g s' = pages g t"
    using Cons.IH [of t "acc @ [r]"] t Cons.prems by fastforce
  have nr: "r \<notin> set rs" using s'(6) t(5) by auto
  then have "map_of (zip rs bs) r = None" using s'(4) by (simp add: map_of_zip_is_None)
  then have c: "contents s' = (contents s)(f := contents s f ++ map_of (zip (r # rs) (b # bs)))"
    unfolding s'(7) t(5) by (intro ext) (auto simp: map_add_def split: option.splits)
  have d: "set (r # rs) \<inter> dom (contents s f) = {}" using s'(6) t(4,5) by auto
  show ?case
    by (intro exI [of _ "r # rs"] exI [of _ s'] conjI c d) (use t(1,3,7) s'(1-5,8) nr in simp_all)
qed

end

interpretation pm: heap_file heap_inv table_open getPageCount heap insertTuple readTuple deleteTuple 3576 4294967295
proof (unfold_locales, goal_cases)
  case (1 s f bytes)
  from insertTuple_spec [OF 1(1-3), of "length bytes" bytes] 1(4,5) show ?case by (auto simp: fun_eq_iff)
next
  case (2 s f r bytes)
  then have "pageId r < getPageCount f s" by (auto simp: heap_def split: if_splits)
  from readTuple_spec [OF 2(1,2) this] 2(3) obtain s' where "readTuple f r s = Inr (bytes, s')" "same_heap s' s" by auto
  then show ?case using same_heap_facts [of s' s] by (intro exI [of _ s']) (auto simp: fun_eq_iff)
next
  case (3 s f r)
  then have "pageId r < getPageCount f s" by (auto simp: heap_def split: if_splits)
  from deleteTuple_spec [OF 3(1,2) this] obtain s' where
    "deleteTuple f r s = Inr s'" "heap_inv s'" "heap s' = (heap s)(f := (heap s f)(r := None))" "storage_meta s' = storage_meta s" by blast
  then show ?case using storage_meta_eq [of s' s] by (intro exI [of _ s']) (auto simp: fun_eq_iff)
qed

section \<open>Properties\<close>

text \<open>A concrete machine for the witnesses: no files, a pool of three frames, and the state after
  \<open>createTable\<close>.\<close>

definition fresh_storage :: Storage where
  "fresh_storage = \<lparr>st_disk = new_DiskManager Map.empty (\<lambda>_. True), st_pool = new_BufferPool 3\<rparr>"

lemma fresh_storage_ok: "heap_inv fresh_storage" "fresh_table fresh_storage ''t''" "dm_nextFileId (st_disk fresh_storage) = 1"
  using heap_inv_new [of 3 Map.empty "\<lambda>_. True"] by (simp_all add: fresh_storage_def fresh_table_def new_DiskManager_def)

lemma sample_table:
  obtains s where "createTable ''t'' fresh_storage = Inr (1, s)" "heap_inv s" "table_open s 1" "getPageCount 1 s = 1" "heap s 1 = Map.empty"
proof -
  obtain s where s: "createTable ''t'' fresh_storage = Inr (1, s)" "heap_inv s" "heap s = heap fresh_storage" "\<not> table_open fresh_storage 1"
    "\<forall>g. table_open s g = (table_open fresh_storage g \<or> g = 1)"
    "\<forall>g. getPageCount g s = (if g = 1 then 1 else getPageCount g fresh_storage)"
    using createTable_spec [OF fresh_storage_ok(1,2)] unfolding fresh_storage_ok(3) by blast
  have "heap s 1 r = Map.empty r" for r using s(3,4) by (simp add: heap_def)
  then have "heap s 1 = Map.empty" by (rule ext)
  with s show thesis by (intro that [of s]) auto
qed

lemma sample_tuple:
  obtains s r t where "createTable ''t'' fresh_storage = Inr (1, s)" "insertTuple 1 ''ab'' 2 s = Inr (r, t)" "heap_inv t" "table_open t 1"
    "heap t 1 = [r \<mapsto> ''ab'']" "pageId r < getPageCount 1 t"
proof -
  obtain s where s: "createTable ''t'' fresh_storage = Inr (1, s)" "heap_inv s" "table_open s 1" "getPageCount 1 s = 1" "heap s 1 = Map.empty"
    by (rule sample_table)
  obtain r t where t: "insertTuple 1 ''ab'' 2 s = Inr (r, t)" "heap_inv t" "heap t = (heap s)(1 := (heap s 1)(r \<mapsto> ''ab''))"
    using pm.ins_law [OF s(2,3), of "''ab''"] s(4) by (auto simp: numeral_2_eq_2)
  have h: "heap t 1 = [r \<mapsto> ''ab'']" using t(3) s(5) by simp
  then have "heap t 1 r \<noteq> None" by simp
  then have "table_open t 1" "pageId r < getPageCount 1 t" by (auto simp: heap_def split: if_splits)
  with s(1) t(1,2) h show thesis by (intro that)
qed

text \<open>C2: \<open>insertTuple\<close> of at least one and at most 3576 bytes into an open table implements the
  insertion of a new key into the table's map: the record identifier it returns was unused, exactly
  that entry is added, with exactly those bytes, and no other table changes.\<close>

theorem insertTuple_refines_map:
  assumes "heap_inv s" "table_open s f" "getPageCount f s + 1 < 4294967295" "bytes \<noteq> []" "length bytes \<le> 3576"
  shows "\<exists>r s'. insertTuple f bytes (length bytes) s = Inr (r, s') \<and> heap_inv s' \<and> heap s f r = None \<and>
    heap s' = (heap s)(f := (heap s f)(r \<mapsto> bytes))"
  using pm.ins_law [OF assms] by blast

theorem insertTuple_refines_map_witness:
  "\<exists>s r s'. createTable ''t'' fresh_storage = Inr (1, s) \<and> insertTuple 1 ''ab'' 2 s = Inr (r, s') \<and> heap s' 1 = [r \<mapsto> ''ab'']"
proof -
  obtain s where s: "createTable ''t'' fresh_storage = Inr (1, s)" "heap_inv s" "table_open s 1" "getPageCount 1 s = 1" "heap s 1 = Map.empty"
    by (rule sample_table)
  then show ?thesis using insertTuple_refines_map [OF s(2,3), of "''ab''"] by (auto simp: numeral_2_eq_2)
qed

text \<open>What \<open>insertTuple\<close> stored, \<open>readTuple\<close> returns under the identifier it gave, byte for
  byte, and every tuple that was stored before still reads the same.\<close>

theorem insertTuple_readTuple:
  assumes "heap_inv s" "table_open s f" "getPageCount f s + 1 < 4294967295" "bytes \<noteq> []" "length bytes \<le> 3576"
  shows "\<exists>r t. insertTuple f bytes (length bytes) s = Inr (r, t) \<and> (\<exists>s'. readTuple f r t = Inr (bytes, s')) \<and>
    (\<forall>q old. heap s f q = Some old \<longrightarrow> (\<exists>s'. readTuple f q t = Inr (old, s')))"
  by (rule pm.ins_then_fetch [OF assms])

theorem insertTuple_readTuple_witness:
  "\<exists>s r t s'. createTable ''t'' fresh_storage = Inr (1, s) \<and> insertTuple 1 ''ab'' 2 s = Inr (r, t) \<and> readTuple 1 r t = Inr (''ab'', s')"
proof -
  obtain s where s: "createTable ''t'' fresh_storage = Inr (1, s)" "heap_inv s" "table_open s 1" "getPageCount 1 s = 1" "heap s 1 = Map.empty"
    by (rule sample_table)
  from insertTuple_readTuple [OF s(2,3), of "''ab''"] s(4) have
    "\<exists>r t. insertTuple 1 ''ab'' 2 s = Inr (r, t) \<and> (\<exists>s'. readTuple 1 r t = Inr (''ab'', s'))" by (auto simp: numeral_2_eq_2)
  with s(1) show ?thesis by blast
qed

text \<open>C19: \<open>deleteTuple\<close> of any identifier on a page of the table removes exactly that entry of the
  table's map (nothing, if the slot was empty), and \<open>readTuple\<close> then reports an empty slot.\<close>

theorem deleteTuple_refines_map:
  assumes "heap_inv s" "table_open s f" "pageId r < getPageCount f s"
  shows "\<exists>s'. deleteTuple f r s = Inr s' \<and> heap_inv s' \<and> heap s' = (heap s)(f := (heap s f)(r := None)) \<and>
    (\<exists>s''. readTuple f r s' = Inr ([], s''))"
proof -
  obtain s' where s': "deleteTuple f r s = Inr s'" "heap_inv s'" "heap s' = (heap s)(f := (heap s f)(r := None))"
    "storage_meta s' = storage_meta s"
    using deleteTuple_spec [OF assms] by blast
  note m = storage_meta_eq [OF s'(4)]
  have "\<exists>s''. readTuple f r s' = Inr ([], s'')"
    by (rule readTuple_spec [OF s'(2), of f r]) (use m assms s'(3) in auto)
  with s' show ?thesis by blast
qed

theorem deleteTuple_refines_map_witness:
  "\<exists>r t s' s''. heap t 1 = [r \<mapsto> ''ab''] \<and> deleteTuple 1 r t = Inr s' \<and> heap s' 1 = Map.empty \<and> readTuple 1 r s' = Inr ([], s'')"
proof -
  obtain r t where t: "heap_inv t" "table_open t 1" "heap t 1 = [r \<mapsto> ''ab'']" "pageId r < getPageCount 1 t" by (rule sample_tuple)
  obtain s' s'' where "deleteTuple 1 r t = Inr s'" "heap s' = (heap t)(1 := (heap t 1)(r := None))" "readTuple 1 r s' = Inr ([], s'')"
    using deleteTuple_refines_map [OF t(1,2,4)] by blast
  moreover from this have "heap s' 1 = Map.empty" using t(3) by simp
  ultimately show ?thesis using t(3) by blast
qed

text \<open>A callback that collects what it is given.\<close>

definition collect :: "RID \<Rightarrow> byte list \<Rightarrow> nat \<Rightarrow> (RID \<times> byte list) list \<Rightarrow> (bool \<times> (RID \<times> byte list) list) res" where
  "collect r tupleData tupleLen acc = Inr (True, acc @ [(r, take tupleLen tupleData)])"

text \<open>C13: \<open>scanTable\<close> with a callback that collects what it is given yields every stored tuple of the
  table exactly once, in strictly increasing order of record identifiers, and changes no table.\<close>

theorem scanTable_complete:
  assumes "heap_inv s" "table_open s f"
  shows "\<exists>xs s'. scanTable f collect [] s = Inr (xs, s') \<and> heap_inv s' \<and> heap s' = heap s \<and>
    sorted_wrt (<) (map fst xs) \<and> map_of xs = heap s f"
proof -
  let ?g = "\<lambda>x acc. Inr (True, acc @ [x])"
  have g: "fold_until ?g xs acc = Inr (True, acc @ xs)" for xs :: "(RID \<times> byte list) list" and acc
    by (induction xs arbitrary: acc) simp_all
  have "reads_tuples collect ?g (heap_list s f)" by (simp add: reads_tuples_def collect_def)
  then obtain s' where "scanTable f collect [] s = Inr (heap_list s f, s')" "same_heap s' s"
    by (rule scanTable_spec [where g = ?g and c = "[]" and b = True, OF assms]) (simp add: g, rule that)
  then show ?thesis
    using same_heap_facts(1,2) [of s' s] heap_list_sorted [of s f] heap_list_map_of [OF assms(2)] by blast
qed

theorem scanTable_complete_witness:
  "\<exists>s r t xs s'. createTable ''t'' fresh_storage = Inr (1, s) \<and> insertTuple 1 ''ab'' 2 s = Inr (r, t) \<and>
     scanTable 1 collect [] t = Inr (xs, s') \<and> map_of xs = [r \<mapsto> ''ab'']"
proof -
  obtain s r t where t: "createTable ''t'' fresh_storage = Inr (1, s)" "insertTuple 1 ''ab'' 2 s = Inr (r, t)" "heap_inv t" "table_open t 1"
    "heap t 1 = [r \<mapsto> ''ab'']" by (rule sample_tuple)
  from scanTable_complete [OF t(3,4)] t(1,2,5) show ?thesis by auto
qed

text \<open>C39: A tuple longer than the 3576 bytes an empty page offers makes \<open>insertTuple\<close> copy past the
  end of the frame: no length check precedes the \<open>memcpy\<close> into the fresh page.\<close>

theorem insertTuple_oversized:
  assumes "heap_inv s" "table_open s f" "getPageCount f s < 4294967295" "dataLen \<le> length bytes" "3576 < dataLen"
  shows "insertTuple f bytes dataLen s = Inl (UndefinedBehaviour ''memcpy past the end of the page'')"
  by (rule insertTuple_overflow [OF assms])

theorem insertTuple_oversized_witness:
  "\<exists>s. createTable ''t'' fresh_storage = Inr (1, s) \<and>
     insertTuple 1 (replicate 3577 (CHR ''x'')) 3577 s = Inl (UndefinedBehaviour ''memcpy past the end of the page'')"
proof -
  obtain s where s: "createTable ''t'' fresh_storage = Inr (1, s)" "heap_inv s" "table_open s 1" "getPageCount 1 s = 1"
    by (rule sample_table)
  then show ?thesis using insertTuple_oversized [OF s(2,3), of 3577 "replicate 3577 (CHR ''x'')"] by auto
qed

text \<open>C31: \<open>createTable\<close> under a name whose file is not open gives a new file identifier, an empty
  table with one page, and leaves every other table as it was.\<close>

theorem createTable_empty:
  assumes "heap_inv s" "fresh_table s n"
  shows "\<exists>f s'. createTable n s = Inr (f, s') \<and> heap_inv s' \<and> \<not> table_open s f \<and> table_open s' f \<and> getPageCount f s' = 1 \<and>
    heap s' f = Map.empty \<and> (\<forall>g. table_open s g \<longrightarrow> table_open s' g \<and> heap s' g = heap s g)"
proof -
  obtain s' where s': "createTable n s = Inr (dm_nextFileId (st_disk s), s')" "heap_inv s'" "heap s' = heap s"
    "\<not> table_open s (dm_nextFileId (st_disk s))" "\<forall>g. table_open s' g = (table_open s g \<or> g = dm_nextFileId (st_disk s))"
    "\<forall>g. getPageCount g s' = (if g = dm_nextFileId (st_disk s) then 1 else getPageCount g s)"
    using createTable_spec [OF assms] by blast
  have "heap s (dm_nextFileId (st_disk s)) = Map.empty" using s'(4) by (auto simp: heap_def fun_eq_iff)
  with s' show ?thesis by (intro exI [of _ "dm_nextFileId (st_disk s)"] exI [of _ s']) auto
qed

theorem createTable_empty_witness:
  "\<exists>f s. createTable ''t'' fresh_storage = Inr (f, s) \<and> heap s f = Map.empty"
  using createTable_empty [OF fresh_storage_ok(1,2)] by blast

end
