(* ===== verification/StorageFrame.thy ===== *)
theory StorageFrame
  imports PageManager
begin

text \<open>
  What no operation on pages changes: the names of the open files, the counter of file identifiers
  and which paths can be opened.  Only \<open>createTable\<close>, \<open>openTable\<close> and \<open>closeFile\<close> do.  The
  lemmas need no invariant: they hold of every run that returns.
\<close>

definition disk_names :: "DiskManager \<Rightarrow> (int \<rightharpoonup> string) \<times> int \<times> (string \<Rightarrow> bool)" where
  "disk_names d = (file_name d, dm_nextFileId d, dm_openable d)"

abbreviation names :: "Storage \<Rightarrow> (int \<rightharpoonup> string) \<times> int \<times> (string \<Rightarrow> bool)" where
  "names s \<equiv> disk_names (st_disk s)"

named_theorems keeps_names \<open>operations that keep the names of files\<close>

lemma disk_names_os [simp]: "disk_names (d\<lparr>dm_os := x\<rparr>) = disk_names d"
  by (simp add: disk_names_def file_name_def fun_eq_iff)

lemma disk_names_count [simp]:
  "dm_files d f = Some h \<Longrightarrow> disk_names (d\<lparr>dm_files := (dm_files d)(f \<mapsto> h\<lparr>fh_pageCount := n\<rparr>), dm_os := x\<rparr>) = disk_names d"
  "dm_files d f = Some h \<Longrightarrow> disk_names (d\<lparr>dm_files := (dm_files d)(f \<mapsto> h\<lparr>fh_pageCount := n\<rparr>)\<rparr>) = disk_names d"
  by (auto simp: disk_names_def file_name_def fun_eq_iff)

lemma writePage_names [keeps_names]: "writePage f p b d = Inr d' \<Longrightarrow> disk_names d' = disk_names d"
  using disk_names_os by (auto simp: writePage_def Let_def disk_names_def file_name_def fun_eq_iff split: option.splits if_splits)

lemma allocateNewPage_names [keeps_names]: "allocateNewPage f d = Inr (p, d') \<Longrightarrow> disk_names d' = disk_names d"
  by (auto simp: allocateNewPage_def Let_def split: option.splits)

lemma evict_names [keeps_names]: "evict fr d bp = Inr (d', bp') \<Longrightarrow> disk_names d' = disk_names d"
  by (auto simp: evict_def Let_def bindE_Inr_iff split: if_splits dest: writePage_names)

lemma fetchPage_names [keeps_names]: "fetchPage f p w s = Inr (i, s') \<Longrightarrow> names s' = names s"
  by (auto simp: fetchPage_def Let_def bindE_Inr_iff split: option.splits if_splits dest: evict_names)

lemma unpinPage_names [keeps_names]: "unpinPage f p w s = Inr s' \<Longrightarrow> names s' = names s"
  by (auto simp: unpinPage_def Let_def bindE_Inr_iff split: option.splits if_splits)

lemma with_page_names [keeps_names]: "with_page f p w g s = Inr (x, s') \<Longrightarrow> names s' = names s"
  by (auto simp: with_page_def bindE_Inr_iff set_frame_data_def dest!: fetchPage_names unpinPage_names)

lemma with_new_page_names [keeps_names]: "with_new_page f g s = Inr (p, s') \<Longrightarrow> names s' = names s"
  by (auto simp: with_new_page_def bindE_Inr_iff dest!: allocateNewPage_names with_page_names)

lemma findFreePage_loop_names: "findFreePage_loop f n ps s = Inr (r, s') \<Longrightarrow> names s' = names s"
proof (induction ps arbitrary: s)
  case (Cons p ps)
  then show ?case by (auto simp: bindE_Inr_iff split: if_splits dest: with_page_names)
qed simp

lemma findFreePage_names [keeps_names]: "findFreePage f n s = Inr (p, s') \<Longrightarrow> names s' = names s"
  by (auto simp: findFreePage_def bindE_Inr_iff split: option.splits dest!: findFreePage_loop_names with_new_page_names)

lemma insertTuple_names [keeps_names]: "insertTuple f bytes n s = Inr (r, s') \<Longrightarrow> names s' = names s"
  by (auto simp: insertTuple_def bindE_Inr_iff split: option.splits dest!: findFreePage_names with_page_names with_new_page_names)

lemma deleteTuple_names [keeps_names]: "deleteTuple f r s = Inr s' \<Longrightarrow> names s' = names s"
  by (auto simp: deleteTuple_def bindE_Inr_iff dest: with_page_names)

lemma scan_pages_names: "scan_pages cb f ps c s = Inr (c', s') \<Longrightarrow> names s' = names s"
proof (induction ps arbitrary: c s)
  case (Cons p ps)
  then show ?case by (auto simp: bindE_Inr_iff split: if_splits dest: with_page_names)
qed simp

lemma scanTable_names [keeps_names]: "scanTable f cb c s = Inr (c', s') \<Longrightarrow> names s' = names s"
  by (auto simp: scanTable_def dest: scan_pages_names)

text \<open>A created table adds its own file.\<close>

lemma createTable_names:
  assumes "createTable n s = Inr (f, s')"
  shows "names s' = ((file_name (st_disk s))(f \<mapsto> full_path (n @ ''.db'')), dm_nextFileId (st_disk s) + 1, dm_openable (st_disk s))"
    "f = dm_nextFileId (st_disk s)"
proof -
  obtain d p where d: "createFile (n @ ''.db'') (st_disk s) = Inr (f, d)" "with_new_page f init_new_page (s\<lparr>st_disk := d\<rparr>) = Inr (p, s')"
    using assms by (auto simp: createTable_def bindE_Inr_iff)
  have "names s' = disk_names d" using with_new_page_names [OF d(2)] by simp
  with d(1) show "names s' = ((file_name (st_disk s))(f \<mapsto> full_path (n @ ''.db'')), dm_nextFileId (st_disk s) + 1, dm_openable (st_disk s))"
    "f = dm_nextFileId (st_disk s)"
    by (auto simp: createFile_def Let_def disk_names_def file_name_def fun_eq_iff split: if_splits)
qed

lemma fresh_table_iff: "fresh_table s n \<longleftrightarrow> dm_openable (st_disk s) (full_path (n @ ''.db'')) \<and> dm_nextFileId (st_disk s) < 2147483647 \<and>
     full_path (n @ ''.db'') \<notin> ran (file_name (st_disk s))"
  by (auto simp: fresh_table_def file_name_def ran_def)

lemma fresh_table_names: "names s' = names s \<Longrightarrow> fresh_table s' n = fresh_table s n"
  by (simp add: fresh_table_iff disk_names_def)

end
