(* ===== verification/TupleCodec.thy ===== *)
theory TupleCodec
  imports Common
begin

text \<open>
  The storage format of tuples: \<open>serializeTuple\<close> and \<open>deserializeTuple\<close> of
  \<open>src/query/Executor.cpp\<close>.  A value is a marker byte followed by the four bytes of an \<open>int\<close> or
  by a two-byte length and the characters of a string.
\<close>

section \<open>Definitions\<close>

definition serialize_value :: "Value \<Rightarrow> byte list" where
  "serialize_value v = (case v of
      IntValue i \<Rightarrow> CHR 0x01 # le_bytes 4 (int32_to_u32 i)
    | TextValue s \<Rightarrow> CHR 0x02 # le_bytes 2 (to_u16 (length s)) @ s)"

definition serializeTuple :: "Tuple \<Rightarrow> Schema \<Rightarrow> byte list" where
  "serializeTuple t sch = concat (map serialize_value t)"

text \<open>One turn of the loop of \<open>deserializeTuple\<close>: the value at an offset, and the offset after it.\<close>

definition deserialize_value :: "byte list \<Rightarrow> nat \<Rightarrow> (Value \<times> nat) res" where
  "deserialize_value bytes off =
     bindE (rd_le 1 bytes off) (\<lambda>(typeMarker, off).
     if typeMarker = 1
     then bindE (rd_le 4 bytes off) (\<lambda>(v, off). Inr (IntValue (u32_to_int32 v), off))
     else bindE (rd_le 2 bytes off) (\<lambda>(len, off).
          bindE (rd_bytes len bytes off) (\<lambda>(s, off). Inr (TextValue s, off))))"

fun deserialize_loop :: "nat \<Rightarrow> byte list \<Rightarrow> nat \<Rightarrow> nat \<Rightarrow> Tuple \<Rightarrow> Tuple res" where
  "deserialize_loop 0 bytes dataLen off vals = Inr vals"
| "deserialize_loop (Suc n) bytes dataLen off vals =
     (if off < dataLen
      then bindE (deserialize_value bytes off) (\<lambda>(v, off). deserialize_loop n bytes dataLen off (vals @ [v]))
      else Inr vals)"

text \<open>\<open>bytes\<close> is everything readable from the pointer on, \<open>dataLen\<close> the length the caller passes.\<close>

definition deserializeTuple :: "byte list \<Rightarrow> nat \<Rightarrow> Schema \<Rightarrow> Tuple res" where
  "deserializeTuple bytes dataLen sch = deserialize_loop (columnCount sch) bytes dataLen 0 []"

section \<open>Values as a codec\<close>

text \<open>The values the format can hold: a string longer than 65535 bytes loses the high part of its
  length.\<close>

primrec storable_value :: "Value \<Rightarrow> bool" where
  "storable_value (IntValue i) \<longleftrightarrow> in_int32 i"
| "storable_value (TextValue s) \<longleftrightarrow> length s < 65536"

definition storable :: "Tuple \<Rightarrow> bool" where
  "storable t \<longleftrightarrow> list_all storable_value t"

lemma rd_le_marker: "rd_le 1 (pre @ c # post) (length pre) = Inr (of_char c, length pre + 1)"
  by (simp add: rd_le_def rd_def)

interpretation vc: codec serialize_value deserialize_value storable_value
proof
  fix v :: Value and pre post :: "byte list"
  assume ok: "storable_value v"
  show "deserialize_value (pre @ serialize_value v @ post) (length pre) = Inr (v, length pre + length (serialize_value v))"
  proof (cases v)
    case (IntValue i)
    have "rd_le 4 (pre @ CHR 0x01 # le_bytes 4 (int32_to_u32 i) @ post) (length pre + 1) = Inr (int32_to_u32 i, length pre + 5)"
      using u32.dec_enc_at [of "int32_to_u32 i" _ "pre @ [CHR 0x01]" post "length pre + 1"] by simp
    then show ?thesis
      using ok IntValue rd_le_marker [of pre "CHR 0x01"] by (simp add: serialize_value_def deserialize_value_def)
  next
    case (TextValue s)
    with ok have s: "length s < 65536" by simp
    let ?b = "pre @ CHR 0x02 # le_bytes 2 (length s) @ s @ post"
    have "rd_le 2 ?b (length pre + 1) = Inr (length s, length pre + 3)"
      using u16.dec_enc_at [OF s, of ?b "pre @ [CHR 0x02]" "s @ post" "length pre + 1"] by simp
    moreover have "rd_bytes (length s) ?b (length pre + 3) = Inr (s, length pre + 3 + length s)"
      using rd_append_exact [of "length s" s "pre @ CHR 0x02 # le_bytes 2 (length s)" post] by (simp add: rd_bytes_def)
    ultimately show ?thesis
      using s TextValue rd_le_marker [of pre "CHR 0x02"] by (simp add: serialize_value_def deserialize_value_def)
  qed
qed

lemma serialize_value_nonempty [simp]: "serialize_value v \<noteq> []"
  by (simp add: serialize_value_def split: Value.splits)

lemma serializeTuple_simps [simp]:
  "serializeTuple [] sch = []"
  "serializeTuple (v # t) sch = serialize_value v @ serializeTuple t sch"
  by (simp_all add: serializeTuple_def)

lemma serializeTuple_empty_iff [simp]: "serializeTuple t sch = [] \<longleftrightarrow> t = []"
  by (cases t) simp_all

lemma deserialize_loop_serialized:
  assumes "storable t"
  shows "deserialize_loop n (pre @ serializeTuple t sch @ rest) (length pre + length (serializeTuple t sch)) (length pre) acc =
    Inr (acc @ take n t)"
  using assms
proof (induction t arbitrary: n pre acc)
  case Nil
  then show ?case by (cases n) simp_all
next
  case (Cons v t)
  show ?case
  proof (cases n)
    case (Suc n')
    have v: "storable_value v" "storable t" using Cons.prems by (simp_all add: storable_def)
    have "deserialize_value (pre @ serialize_value v @ serializeTuple t sch @ rest) (length pre) = Inr (v, length pre + length (serialize_value v))"
      by (rule vc.dec_enc [OF v(1)])
    then show ?thesis
      using Cons.IH [OF v(2), of n' "pre @ serialize_value v" "acc @ [v]"] Suc by (simp add: add.assoc)
  qed simp
qed

lemma deserializeTuple_serialized:
  "storable t \<Longrightarrow> deserializeTuple (serializeTuple t sch @ rest) (length (serializeTuple t sch)) sch = Inr (take (columnCount sch) t)"
  using deserialize_loop_serialized [of t "columnCount sch" "[]" sch rest "[]"] by (simp add: deserializeTuple_def)

lemma well_typed_length: "well_typed t sch \<Longrightarrow> length t = columnCount sch"
  by (simp add: well_typed_def columnCount_def list_all2_lengthD)

lemma serializeTuple_inj:
  assumes "storable t" "storable u" "length t = length u" "serializeTuple t sch = serializeTuple u sch"
  shows "t = u"
  using vc.enc_seq_inj [of t u] assms by (simp add: storable_def serializeTuple_def)

section \<open>Properties\<close>

text \<open>C18: A tuple of 32-bit integers and of strings shorter than 65536 bytes that matches the schema
  is read back from its serialized form exactly, whatever bytes follow it in the page.\<close>

theorem tuple_roundtrip:
  assumes "storable t" "matchesSchema t sch = Inr True"
  shows "deserializeTuple (serializeTuple t sch @ rest) (length (serializeTuple t sch)) sch = Inr t"
  using deserializeTuple_serialized [OF assms(1)] well_typed_length [of t sch] assms(2)
  by (simp add: matchesSchema_iff)

theorem tuple_roundtrip_witness:
  "deserializeTuple (serializeTuple [IntValue (- 7), TextValue ''ab''] [\<lparr>col_name = ''i'', col_type = DT_INT\<rparr>, \<lparr>col_name = ''s'', col_type = DT_TEXT\<rparr>] @ ''zz'') 10
     [\<lparr>col_name = ''i'', col_type = DT_INT\<rparr>, \<lparr>col_name = ''s'', col_type = DT_TEXT\<rparr>] = Inr [IntValue (- 7), TextValue ''ab'']"
  using tuple_roundtrip [of "[IntValue (- 7), TextValue ''ab'']" "[\<lparr>col_name = ''i'', col_type = DT_INT\<rparr>, \<lparr>col_name = ''s'', col_type = DT_TEXT\<rparr>]" "''zz''"]
  by (simp add: storable_def in_int32_def matchesSchema_iff well_typed_def serialize_value_def)

end
