(* ===== verification/Catalog.thy ===== *)
theory Catalog
  imports Common "HOL-Library.AList"
begin

text \<open>
  The table catalog of \<open>src/storage/Catalog.h\<close>.  The hash map is an association list with distinct
  keys; the order of its entries stands for the unspecified iteration order.  The pointer that
  \<open>getTable\<close> returns is used by callers to update \<open>rowCount\<close> in place: those updates are
  \<open>modifyTable\<close>.
\<close>

record TableInfo =
  ti_name :: string
  ti_schema :: Schema
  ti_fileId :: int
  ti_rowCount :: nat
  ti_hasIndex :: bool
  ti_indexFileId :: int

type_synonym Catalog = "(string \<times> TableInfo) list"

definition addTable :: "string \<Rightarrow> Schema \<Rightarrow> int \<Rightarrow> Catalog \<Rightarrow> Catalog" where
  "addTable name sch fileId cat =
     AList.update name \<lparr>ti_name = name, ti_schema = sch, ti_fileId = fileId, ti_rowCount = 0,
       ti_hasIndex = False, ti_indexFileId = - 1\<rparr> cat"

definition getTable :: "string \<Rightarrow> Catalog \<Rightarrow> TableInfo option" where
  "getTable name cat = map_of cat name"

definition tableExists :: "string \<Rightarrow> Catalog \<Rightarrow> bool" where
  "tableExists name cat \<longleftrightarrow> map_of cat name \<noteq> None"

definition dropTable :: "string \<Rightarrow> Catalog \<Rightarrow> Catalog" where
  "dropTable name cat = AList.delete name cat"

definition modifyTable :: "string \<Rightarrow> (TableInfo \<Rightarrow> TableInfo) \<Rightarrow> Catalog \<Rightarrow> Catalog" where
  "modifyTable name g cat = (case map_of cat name of None \<Rightarrow> cat | Some info \<Rightarrow> AList.update name (g info) cat)"

definition updateRowCount :: "string \<Rightarrow> nat \<Rightarrow> Catalog \<Rightarrow> Catalog" where
  "updateRowCount name count cat = modifyTable name (\<lambda>info. info\<lparr>ti_rowCount := count\<rparr>) cat"

definition setIndex :: "string \<Rightarrow> int \<Rightarrow> Catalog \<Rightarrow> Catalog" where
  "setIndex name indexFileId cat = modifyTable name (\<lambda>info. info\<lparr>ti_hasIndex := True, ti_indexFileId := indexFileId\<rparr>) cat"

definition getTableNames :: "Catalog \<Rightarrow> string list" where
  "getTableNames cat = map fst cat"

section \<open>Laws\<close>

text \<open>Every table is registered under its own name, once.\<close>

definition catalog_ok :: "Catalog \<Rightarrow> bool" where
  "catalog_ok cat \<longleftrightarrow> distinct (map fst cat) \<and> (\<forall>n info. map_of cat n = Some info \<longrightarrow> ti_name info = n)"

lemma getTable_addTable [simp]:
  "getTable m (addTable n sch f cat) = (if m = n then Some \<lparr>ti_name = n, ti_schema = sch, ti_fileId = f, ti_rowCount = 0,
     ti_hasIndex = False, ti_indexFileId = - 1\<rparr> else getTable m cat)"
  by (simp add: getTable_def addTable_def update_conv')

lemma getTable_modifyTable [simp]:
  "getTable m (modifyTable n g cat) = (if m = n then map_option g (getTable n cat) else getTable m cat)"
  by (simp add: getTable_def modifyTable_def update_conv' split: option.splits)

lemma getTable_dropTable [simp]: "getTable m (dropTable n cat) = (if m = n then None else getTable m cat)"
  by (simp add: getTable_def dropTable_def delete_conv')

lemma tableExists_iff [simp]: "tableExists n cat \<longleftrightarrow> getTable n cat \<noteq> None"
  by (simp add: tableExists_def getTable_def)

lemma getTableNames_iff: "n \<in> set (getTableNames cat) \<longleftrightarrow> tableExists n cat"
  by (metis getTableNames_def map_of_eq_None_iff set_map tableExists_def)

lemma catalog_ok_iff: "catalog_ok cat \<longleftrightarrow> distinct (map fst cat) \<and> (\<forall>n info. getTable n cat = Some info \<longrightarrow> ti_name info = n)"
  by (simp add: catalog_ok_def getTable_def)

lemma catalog_ok_empty: "catalog_ok []"
  by (simp add: catalog_ok_def)

lemma catalog_ok_addTable: "catalog_ok cat \<Longrightarrow> catalog_ok (addTable n sch f cat)"
  by (simp add: catalog_ok_iff) (simp add: addTable_def distinct_update)

lemma catalog_ok_modifyTable:
  "catalog_ok cat \<Longrightarrow> (\<And>info. ti_name (g info) = ti_name info) \<Longrightarrow> catalog_ok (modifyTable n g cat)"
  by (auto simp: catalog_ok_iff) (simp add: modifyTable_def distinct_update split: option.splits)

lemma catalog_ok_dropTable: "catalog_ok cat \<Longrightarrow> catalog_ok (dropTable n cat)"
  by (auto simp: catalog_ok_iff dropTable_def distinct_delete getTable_def delete_conv' split: if_splits)

end
