(* ===== verification/BPlusTree.thy ===== *)
theory BPlusTree
  imports Common
begin

text \<open>
  The B+ tree index of \<open>src/index/BPlusTree.cpp\<close>.  Nodes live in a vector and refer to each other by
  index; \<open>bt_capacity\<close> is the vector's capacity and \<open>bt_grow\<close>, the capacity after a reallocation,
  is the implementation-defined growth policy of \<open>std::vector\<close>.

  \<open>allocateNode\<close> tells whether it reallocated the vector: a \<open>BPlusNode &\<close> taken before is dangling
  from then on, and using it is undefined behaviour.  So is an access outside \<open>nodes_\<close>, \<open>keys\<close>,
  \<open>values\<close> or \<open>childIndices\<close>.  Loops that follow node references are given the number of nodes as
  fuel.
\<close>

section \<open>State (BPlusTree.h)\<close>

datatype BNodeType = INTERNAL | LEAF

record BPlusNode =
  bn_type :: BNodeType
  bn_isRoot :: bool
  bn_pageId :: nat
  bn_parentIdx :: int
  bn_size :: int
  bn_keys :: "int list"
  bn_values :: "RID list"
  bn_childIndices :: "int list"
  bn_nextLeafIdx :: int

record BPlusTree =
  bt_order :: int
  bt_maxLeafKeys :: int
  bt_minLeafKeys :: int
  bt_maxInternalKeys :: int
  bt_minInternalKeys :: int
  bt_nodes :: "BPlusNode list"
  bt_capacity :: nat
  bt_grow :: "nat \<Rightarrow> nat"
  bt_rootIdx :: int
  bt_entryCount :: int

definition new_BPlusTree :: "(nat \<Rightarrow> nat) \<Rightarrow> int \<Rightarrow> BPlusTree" where
  "new_BPlusTree grow order = \<lparr>bt_order = order, bt_maxLeafKeys = order - 1, bt_minLeafKeys = (order - 1 + 1) div 2,
     bt_maxInternalKeys = order - 1, bt_minInternalKeys = (order + 1) div 2 - 1,
     bt_nodes = [], bt_capacity = 0, bt_grow = grow, bt_rootIdx = - 1, bt_entryCount = 0\<rparr>"

section \<open>Vectors\<close>

abbreviation ub :: "string \<Rightarrow> 'a res" where "ub msg \<equiv> Inl (UndefinedBehaviour msg)"

definition vec_at :: "'a list \<Rightarrow> int \<Rightarrow> 'a res" where
  "vec_at xs i = (if 0 \<le> i \<and> i < int (length xs) then Inr (xs ! nat i) else ub ''vector index out of range'')"

definition vec_set :: "'a list \<Rightarrow> int \<Rightarrow> 'a \<Rightarrow> 'a list res" where
  "vec_set xs i x = (if 0 \<le> i \<and> i < int (length xs) then Inr (xs[nat i := x]) else ub ''vector index out of range'')"

definition vec_insert :: "'a list \<Rightarrow> int \<Rightarrow> 'a \<Rightarrow> 'a list res" where
  "vec_insert xs i x = (if 0 \<le> i \<and> i \<le> int (length xs) then Inr (take (nat i) xs @ x # drop (nat i) xs)
     else ub ''vector insert out of range'')"

definition vec_erase :: "'a list \<Rightarrow> int \<Rightarrow> 'a list res" where
  "vec_erase xs i = (if 0 \<le> i \<and> i < int (length xs) then Inr (take (nat i) xs @ drop (Suc (nat i)) xs)
     else ub ''vector erase out of range'')"

definition vec_tail :: "'a list \<Rightarrow> int \<Rightarrow> 'a list res" where
  "vec_tail xs i = (if 0 \<le> i \<and> i \<le> int (length xs) then Inr (drop (nat i) xs) else ub ''iterator out of range'')"

definition vec_resize :: "'a list \<Rightarrow> int \<Rightarrow> 'a \<Rightarrow> 'a list" where
  "vec_resize xs n x = take (nat n) xs @ replicate (nat n - length xs) x"

text \<open>\<open>std::lower_bound\<close>: bisection for the first element not below the key.\<close>

function lower_bound_loop :: "int list \<Rightarrow> int \<Rightarrow> nat \<Rightarrow> nat \<Rightarrow> nat" where
  "lower_bound_loop xs key first n =
     (if n = 0 then first
      else let step = n div 2 in
        if xs ! (first + step) < key then lower_bound_loop xs key (first + step + 1) (n - (step + 1))
        else lower_bound_loop xs key first step)"
  by auto
termination by (relation "measure (\<lambda>(_, _, _, n). n)") auto

declare lower_bound_loop.simps [simp del]

definition lower_bound :: "int list \<Rightarrow> int \<Rightarrow> int" where
  "lower_bound xs key = int (lower_bound_loop xs key 0 (length xs))"

section \<open>Operations\<close>

definition node_at :: "BPlusTree \<Rightarrow> int \<Rightarrow> BPlusNode res" where
  "node_at t i = vec_at (bt_nodes t) i"

definition put_node :: "int \<Rightarrow> BPlusNode \<Rightarrow> BPlusTree \<Rightarrow> BPlusTree res" where
  "put_node i n t = bindE (vec_set (bt_nodes t) i n) (\<lambda>ns. Inr (t\<lparr>bt_nodes := ns\<rparr>))"

definition modify_node :: "int \<Rightarrow> (BPlusNode \<Rightarrow> BPlusNode) \<Rightarrow> BPlusTree \<Rightarrow> BPlusTree res" where
  "modify_node i g t = bindE (node_at t i) (\<lambda>n. put_node i (g n) t)"

text \<open>The new node's index, whether the vector was reallocated, and the tree.\<close>

definition allocateNode :: "BNodeType \<Rightarrow> BPlusTree \<Rightarrow> int \<times> bool \<times> BPlusTree" where
  "allocateNode type t =
     (let node = \<lparr>bn_type = type, bn_isRoot = False, bn_pageId = to_u32 (length (bt_nodes t)), bn_parentIdx = - 1,
                  bn_size = 0, bn_keys = [], bn_values = [], bn_childIndices = [], bn_nextLeafIdx = - 1\<rparr>;
          realloc = (length (bt_nodes t) = bt_capacity t);
          cap = (if realloc then bt_grow t (bt_capacity t) else bt_capacity t)
      in (int (length (bt_nodes t)), realloc, t\<lparr>bt_nodes := bt_nodes t @ [node], bt_capacity := cap\<rparr>))"

text \<open>The inner loop of \<open>findLeaf\<close>: the first position whose key is above the search key.\<close>

fun child_pos :: "BPlusNode \<Rightarrow> int \<Rightarrow> nat \<Rightarrow> int \<Rightarrow> int res" where
  "child_pos node key 0 i = Inr i"
| "child_pos node key (Suc n) i =
     (if i < bn_size node
      then bindE (vec_at (bn_keys node) i) (\<lambda>k. if key \<ge> k then child_pos node key n (i + 1) else Inr i)
      else Inr i)"

fun findLeaf_loop :: "nat \<Rightarrow> BPlusTree \<Rightarrow> int \<Rightarrow> int \<Rightarrow> int res" where
  "findLeaf_loop 0 t key current = Inl OutOfFuel"
| "findLeaf_loop (Suc n) t key current =
     bindE (node_at t current) (\<lambda>node.
     if bn_type node = INTERNAL
     then bindE (child_pos node key (nat (bn_size node)) 0) (\<lambda>i.
          bindE (vec_at (bn_childIndices node) i) (findLeaf_loop n t key))
     else Inr current)"

definition findLeaf :: "BPlusTree \<Rightarrow> int \<Rightarrow> int res" where
  "findLeaf t key = (if bt_rootIdx t < 0 then Inr (- 1) else findLeaf_loop (length (bt_nodes t) + 1) t key (bt_rootIdx t))"

text \<open>The loops of \<open>search\<close> and \<open>insert\<close> over a leaf: the position of the key, if any.\<close>

fun key_pos :: "BPlusNode \<Rightarrow> int \<Rightarrow> int list \<Rightarrow> int option res" where
  "key_pos leaf key [] = Inr None"
| "key_pos leaf key (i # is) =
     bindE (vec_at (bn_keys leaf) i) (\<lambda>k. if k = key then Inr (Some i) else key_pos leaf key is)"

abbreviation slots :: "BPlusNode \<Rightarrow> int list" where
  "slots n \<equiv> [0..bn_size n - 1]"

definition bt_search :: "BPlusTree \<Rightarrow> int \<Rightarrow> RID option res" where
  "bt_search t key =
     bindE (findLeaf t key) (\<lambda>leafIdx.
     if leafIdx < 0 then Inr None
     else bindE (node_at t leafIdx) (\<lambda>leaf.
          bindE (key_pos leaf key (slots leaf)) (\<lambda>pos.
          case pos of None \<Rightarrow> Inr None | Some i \<Rightarrow> bindE (vec_at (bn_values leaf) i) (\<lambda>r. Inr (Some r)))))"

text \<open>Entering a key and its value at their place in a leaf.\<close>

definition enter_leaf :: "int \<Rightarrow> RID \<Rightarrow> BPlusNode \<Rightarrow> BPlusNode res" where
  "enter_leaf key val leaf =
     (let pos = lower_bound (bn_keys leaf) key in
      bindE (vec_insert (bn_keys leaf) pos key) (\<lambda>ks.
      bindE (vec_insert (bn_values leaf) pos val) (\<lambda>vs.
      Inr (leaf\<lparr>bn_keys := ks, bn_values := vs, bn_size := bn_size leaf + 1\<rparr>))))"

definition insertIntoLeaf :: "int \<Rightarrow> int \<Rightarrow> RID \<Rightarrow> BPlusTree \<Rightarrow> BPlusTree res" where
  "insertIntoLeaf leafIdx key val t =
     bindE (node_at t leafIdx) (\<lambda>leaf. bindE (enter_leaf key val leaf) (\<lambda>leaf. put_node leafIdx leaf t))"

text \<open>Entering a key and the child to its right in an internal node.\<close>

definition enter_internal :: "int \<Rightarrow> int \<Rightarrow> BPlusNode \<Rightarrow> BPlusNode res" where
  "enter_internal key rightIdx node =
     (let pos = lower_bound (bn_keys node) key in
      bindE (vec_insert (bn_keys node) pos key) (\<lambda>ks.
      bindE (vec_insert (bn_childIndices node) (pos + 1) rightIdx) (\<lambda>cs.
      Inr (node\<lparr>bn_keys := ks, bn_childIndices := cs, bn_size := bn_size node + 1\<rparr>))))"

definition make_root :: "int \<Rightarrow> int \<Rightarrow> int \<Rightarrow> BPlusTree \<Rightarrow> BPlusTree res" where
  "make_root leftIdx key rightIdx t =
     (let (newRootIdx, _, t) = allocateNode INTERNAL t in
      bindE (modify_node newRootIdx (\<lambda>n. n\<lparr>bn_isRoot := True, bn_keys := bn_keys n @ [key],
        bn_childIndices := bn_childIndices n @ [leftIdx, rightIdx], bn_size := 1\<rparr>) t) (\<lambda>t.
      bindE (modify_node leftIdx (\<lambda>n. n\<lparr>bn_isRoot := False, bn_parentIdx := newRootIdx\<rparr>) t) (\<lambda>t.
      bindE (modify_node rightIdx (\<lambda>n. n\<lparr>bn_parentIdx := newRootIdx\<rparr>) t) (\<lambda>t.
      Inr (t\<lparr>bt_rootIdx := newRootIdx\<rparr>)))))"

text \<open>The split of \<open>splitInternal\<close> up to its call of \<open>insertIntoParent\<close>: the promoted key and the index
  of the new node.  The reference \<open>node\<close> is used after \<open>allocateNode\<close>.\<close>

definition split_internal_node :: "int \<Rightarrow> int \<Rightarrow> int \<Rightarrow> BPlusTree \<Rightarrow> (int \<times> int \<times> BPlusTree) res" where
  "split_internal_node nodeIdx key rightChildIdx t =
     bindE (node_at t nodeIdx) (\<lambda>node.
     bindE (enter_internal key rightChildIdx node) (\<lambda>node.
     bindE (put_node nodeIdx node t) (\<lambda>t.
     let mid = bn_size node div 2 in
     bindE (vec_at (bn_keys node) mid) (\<lambda>promoteKey.
     let (newNodeIdx, realloc, t) = allocateNode INTERNAL t in
     if realloc then ub ''dangling reference to the split node''
     else bindE (vec_tail (bn_keys node) (mid + 1)) (\<lambda>ks.
          bindE (vec_tail (bn_childIndices node) (mid + 1)) (\<lambda>cs.
          bindE (modify_node newNodeIdx (\<lambda>n. n\<lparr>bn_keys := ks, bn_childIndices := cs, bn_size := int (length ks)\<rparr>) t) (\<lambda>t.
          bindE (foldE (\<lambda>childIdx. modify_node childIdx (\<lambda>n. n\<lparr>bn_parentIdx := newNodeIdx\<rparr>)) cs t) (\<lambda>t.
          bindE (modify_node nodeIdx (\<lambda>n. n\<lparr>bn_keys := vec_resize (bn_keys n) mid 0,
            bn_childIndices := vec_resize (bn_childIndices n) (mid + 1) 0, bn_size := mid\<rparr>) t) (\<lambda>t.
          bindE (node_at t nodeIdx) (\<lambda>node.
          bindE (modify_node newNodeIdx (\<lambda>n. n\<lparr>bn_parentIdx := bn_parentIdx node\<rparr>) t) (\<lambda>t.
          Inr (promoteKey, newNodeIdx, t))))))))))))"

text \<open>\<open>insertIntoParent\<close> and \<open>splitInternal\<close> call each other, one level up each time.\<close>

fun insertIntoParent :: "nat \<Rightarrow> int \<Rightarrow> int \<Rightarrow> int \<Rightarrow> BPlusTree \<Rightarrow> BPlusTree res" where
  "insertIntoParent 0 leftIdx key rightIdx t = Inl OutOfFuel"
| "insertIntoParent (Suc n) leftIdx key rightIdx t =
     bindE (node_at t leftIdx) (\<lambda>left.
     if bn_isRoot left then make_root leftIdx key rightIdx t
     else let parentIdx = bn_parentIdx left in
       bindE (node_at t parentIdx) (\<lambda>parent.
       if bn_size parent < bt_maxInternalKeys t
       then bindE (enter_internal key rightIdx parent) (\<lambda>parent.
            bindE (put_node parentIdx parent t) (\<lambda>t.
            modify_node rightIdx (\<lambda>n. n\<lparr>bn_parentIdx := parentIdx\<rparr>) t))
       else bindE (modify_node rightIdx (\<lambda>n. n\<lparr>bn_parentIdx := parentIdx\<rparr>) t) (\<lambda>t.
            bindE (split_internal_node parentIdx key rightIdx t) (\<lambda>(promoteKey, newNodeIdx, t).
            insertIntoParent n parentIdx promoteKey newNodeIdx t))))"

definition splitInternal :: "nat \<Rightarrow> int \<Rightarrow> int \<Rightarrow> int \<Rightarrow> BPlusTree \<Rightarrow> BPlusTree res" where
  "splitInternal fuel nodeIdx key rightChildIdx t =
     bindE (split_internal_node nodeIdx key rightChildIdx t) (\<lambda>(promoteKey, newNodeIdx, t).
     insertIntoParent fuel nodeIdx promoteKey newNodeIdx t)"

definition splitLeafAndInsert :: "int \<Rightarrow> int \<Rightarrow> RID \<Rightarrow> BPlusTree \<Rightarrow> BPlusTree res" where
  "splitLeafAndInsert leafIdx key val t =
     bindE (node_at t leafIdx) (\<lambda>leaf.
     bindE (enter_leaf key val leaf) (\<lambda>leaf.
     bindE (put_node leafIdx leaf t) (\<lambda>t.
     let (newLeafIdx, realloc, t) = allocateNode LEAF t in
     if realloc then ub ''dangling reference to the split leaf''
     else let splitPoint = (bn_size leaf + 1) div 2 in
          bindE (vec_tail (bn_keys leaf) splitPoint) (\<lambda>ks.
          bindE (vec_tail (bn_values leaf) splitPoint) (\<lambda>vs.
          bindE (modify_node newLeafIdx (\<lambda>n. n\<lparr>bn_keys := ks, bn_values := vs, bn_size := int (length ks),
            bn_nextLeafIdx := bn_nextLeafIdx leaf\<rparr>) t) (\<lambda>t.
          bindE (modify_node leafIdx (\<lambda>n. n\<lparr>bn_keys := vec_resize (bn_keys n) splitPoint 0,
            bn_values := vec_resize (bn_values n) splitPoint default_RID, bn_size := splitPoint,
            bn_nextLeafIdx := newLeafIdx\<rparr>) t) (\<lambda>t.
          bindE (vec_at ks 0) (\<lambda>promoteKey.
          bindE (modify_node newLeafIdx (\<lambda>n. n\<lparr>bn_parentIdx := bn_parentIdx leaf\<rparr>) t) (\<lambda>t.
          insertIntoParent (length (bt_nodes t) + 1) leafIdx promoteKey newLeafIdx t)))))))))"

definition bt_insert :: "int \<Rightarrow> RID \<Rightarrow> BPlusTree \<Rightarrow> (bool \<times> BPlusTree) res" where
  "bt_insert key val t =
     (if bt_rootIdx t < 0
      then let (i, _, t) = allocateNode LEAF t in
           bindE (modify_node i (\<lambda>n. n\<lparr>bn_isRoot := True, bn_keys := bn_keys n @ [key], bn_values := bn_values n @ [val],
             bn_size := 1\<rparr>) t) (\<lambda>t.
           Inr (True, t\<lparr>bt_rootIdx := i, bt_entryCount := bt_entryCount t + 1\<rparr>))
      else bindE (findLeaf t key) (\<lambda>leafIdx.
           bindE (node_at t leafIdx) (\<lambda>leaf.
           bindE (key_pos leaf key (slots leaf)) (\<lambda>pos.
           if pos \<noteq> None then Inr (False, t)
           else bindE (if bn_size leaf < bt_maxLeafKeys t then insertIntoLeaf leafIdx key val t
                       else splitLeafAndInsert leafIdx key val t) (\<lambda>t.
                Inr (True, t\<lparr>bt_entryCount := bt_entryCount t + 1\<rparr>))))))"

definition removeFromLeaf :: "int \<Rightarrow> int \<Rightarrow> BPlusTree \<Rightarrow> (bool \<times> BPlusTree) res" where
  "removeFromLeaf leafIdx key t =
     bindE (node_at t leafIdx) (\<lambda>leaf.
     let pos = int (length (takeWhile (\<lambda>k. k \<noteq> key) (bn_keys leaf))) in
     if pos = int (length (bn_keys leaf)) then Inr (False, t)
     else bindE (vec_erase (bn_keys leaf) pos) (\<lambda>ks.
          bindE (vec_erase (bn_values leaf) pos) (\<lambda>vs.
          bindE (put_node leafIdx (leaf\<lparr>bn_keys := ks, bn_values := vs, bn_size := bn_size leaf - 1\<rparr>) t) (\<lambda>t.
          Inr (True, t)))))"

text \<open>Moving the last entry of the left sibling, or the first of the right one, to a leaf.\<close>

definition borrow_left :: "int \<Rightarrow> int \<Rightarrow> int \<Rightarrow> int \<Rightarrow> BPlusTree \<Rightarrow> BPlusTree res" where
  "borrow_left nodeIdx parentIdx leftSibIdx childPos t =
     bindE (node_at t leftSibIdx) (\<lambda>leftSib.
     if bn_keys leftSib = [] \<or> bn_values leftSib = [] then ub ''back of an empty vector''
     else
       bindE (modify_node nodeIdx (\<lambda>n. n\<lparr>bn_keys := last (bn_keys leftSib) # bn_keys n, bn_values := last (bn_values leftSib) # bn_values n,
         bn_size := bn_size n + 1\<rparr>) t) (\<lambda>t.
       bindE (modify_node leftSibIdx (\<lambda>n. n\<lparr>bn_keys := butlast (bn_keys n), bn_values := butlast (bn_values n), bn_size := bn_size n - 1\<rparr>) t) (\<lambda>t.
       bindE (node_at t parentIdx) (\<lambda>parent.
       bindE (vec_set (bn_keys parent) (childPos - 1) (last (bn_keys leftSib))) (\<lambda>ks.
       put_node parentIdx (parent\<lparr>bn_keys := ks\<rparr>) t)))))"

definition borrow_right :: "int \<Rightarrow> int \<Rightarrow> int \<Rightarrow> int \<Rightarrow> BPlusTree \<Rightarrow> BPlusTree res" where
  "borrow_right nodeIdx parentIdx rightSibIdx childPos t =
     bindE (node_at t rightSibIdx) (\<lambda>rightSib.
     bindE (vec_at (bn_keys rightSib) 0) (\<lambda>k.
     bindE (vec_at (bn_values rightSib) 0) (\<lambda>v.
     bindE (modify_node nodeIdx (\<lambda>n. n\<lparr>bn_keys := bn_keys n @ [k], bn_values := bn_values n @ [v], bn_size := bn_size n + 1\<rparr>) t) (\<lambda>t.
     bindE (modify_node rightSibIdx (\<lambda>n. n\<lparr>bn_keys := tl (bn_keys n), bn_values := tl (bn_values n), bn_size := bn_size n - 1\<rparr>) t) (\<lambda>t.
     bindE (vec_at (tl (bn_keys rightSib)) 0) (\<lambda>k'.
     bindE (node_at t parentIdx) (\<lambda>parent.
     bindE (vec_set (bn_keys parent) childPos k') (\<lambda>ks.
     put_node parentIdx (parent\<lparr>bn_keys := ks\<rparr>) t))))))))"

text \<open>Appending the first \<open>size\<close> entries of one leaf to another.\<close>

definition append_leaf :: "BPlusNode \<Rightarrow> BPlusNode \<Rightarrow> BPlusNode res" where
  "append_leaf src dst =
     bindE (mapE (vec_at (bn_keys src)) (slots src)) (\<lambda>ks.
     bindE (mapE (vec_at (bn_values src)) (slots src)) (\<lambda>vs.
     Inr (dst\<lparr>bn_keys := bn_keys dst @ ks, bn_values := bn_values dst @ vs, bn_size := bn_size dst + bn_size src,
           bn_nextLeafIdx := bn_nextLeafIdx src\<rparr>)))"

definition drop_child :: "int \<Rightarrow> int \<Rightarrow> int \<Rightarrow> BPlusTree \<Rightarrow> BPlusTree res" where
  "drop_child parentIdx keyPos childPos t =
     bindE (node_at t parentIdx) (\<lambda>parent.
     bindE (vec_erase (bn_keys parent) keyPos) (\<lambda>ks.
     bindE (vec_erase (bn_childIndices parent) childPos) (\<lambda>cs.
     put_node parentIdx (parent\<lparr>bn_keys := ks, bn_childIndices := cs, bn_size := bn_size parent - 1\<rparr>) t)))"

definition merge_leaf :: "int \<Rightarrow> int \<Rightarrow> int \<Rightarrow> BPlusTree \<Rightarrow> BPlusTree res" where
  "merge_leaf nodeIdx parentIdx childPos t =
     bindE (node_at t nodeIdx) (\<lambda>node.
     bindE (node_at t parentIdx) (\<lambda>parent.
     if childPos > 0
     then bindE (vec_at (bn_childIndices parent) (childPos - 1)) (\<lambda>leftSibIdx.
          bindE (node_at t leftSibIdx) (\<lambda>leftSib.
          bindE (append_leaf node leftSib) (\<lambda>leftSib.
          bindE (put_node leftSibIdx leftSib t) (drop_child parentIdx (childPos - 1) childPos))))
     else bindE (vec_at (bn_childIndices parent) (childPos + 1)) (\<lambda>rightSibIdx.
          bindE (node_at t rightSibIdx) (\<lambda>rightSib.
          bindE (append_leaf rightSib node) (\<lambda>node.
          bindE (put_node nodeIdx node t) (drop_child parentIdx childPos (childPos + 1)))))))"

text \<open>Only leaves borrow and merge: for an internal node \<open>handleUnderflow\<close> only looks at its siblings.\<close>

fun handleUnderflow :: "nat \<Rightarrow> int \<Rightarrow> BPlusTree \<Rightarrow> BPlusTree res" where
  "handleUnderflow 0 nodeIdx t = Inl OutOfFuel"
| "handleUnderflow (Suc fuel) nodeIdx t =
     bindE (node_at t nodeIdx) (\<lambda>node.
     if bn_isRoot node then Inr t
     else let parentIdx = bn_parentIdx node in
     bindE (node_at t parentIdx) (\<lambda>parent.
     let cs = bn_childIndices parent; childPos = int (length (takeWhile (\<lambda>c. c \<noteq> nodeIdx) cs)) in
     if childPos \<ge> int (length cs) then Inr t
     else
       bindE (if childPos > 0 then bindE (node_at t (cs ! nat (childPos - 1))) (\<lambda>s. Inr (bn_type node = LEAF \<and> bn_size s > bt_minLeafKeys t)) else Inr False) (\<lambda>fromLeft.
       if fromLeft then borrow_left nodeIdx parentIdx (cs ! nat (childPos - 1)) childPos t
       else
         bindE (if childPos < int (length cs) - 1 then bindE (node_at t (cs ! nat (childPos + 1))) (\<lambda>s. Inr (bn_type node = LEAF \<and> bn_size s > bt_minLeafKeys t)) else Inr False) (\<lambda>fromRight.
         if fromRight then borrow_right nodeIdx parentIdx (cs ! nat (childPos + 1)) childPos t
         else if bn_type node = LEAF
         then bindE (merge_leaf nodeIdx parentIdx childPos t) (\<lambda>t.
              bindE (node_at t parentIdx) (\<lambda>parent.
              if \<not> bn_isRoot parent \<and> bn_size parent < bt_minInternalKeys t then handleUnderflow fuel parentIdx t else Inr t))
         else Inr t))))"

text \<open>The end of \<open>remove\<close>: the only child of an empty internal root becomes the root, an empty root leaf
  makes the tree empty.\<close>

definition shrink_root :: "BPlusTree \<Rightarrow> BPlusTree res" where
  "shrink_root t =
     (if bt_rootIdx t \<ge> 0
      then bindE (node_at t (bt_rootIdx t)) (\<lambda>root.
           if bn_type root = INTERNAL \<and> bn_size root = 0
           then bindE (vec_at (bn_childIndices root) 0) (\<lambda>newRoot.
                bindE (modify_node newRoot (\<lambda>n. n\<lparr>bn_isRoot := True, bn_parentIdx := - 1\<rparr>) t) (\<lambda>t.
                Inr (t\<lparr>bt_rootIdx := newRoot\<rparr>)))
           else Inr t)
      else Inr t)"

definition drop_empty_root :: "BPlusTree \<Rightarrow> BPlusTree res" where
  "drop_empty_root t =
     (if bt_rootIdx t \<ge> 0
      then bindE (node_at t (bt_rootIdx t)) (\<lambda>root.
           Inr (if bn_size root = 0 \<and> bn_type root = LEAF then t\<lparr>bt_rootIdx := - 1\<rparr> else t))
      else Inr t)"

definition bt_remove :: "int \<Rightarrow> BPlusTree \<Rightarrow> (bool \<times> BPlusTree) res" where
  "bt_remove key t =
     bindE (findLeaf t key) (\<lambda>leafIdx.
     if leafIdx < 0 then Inr (False, t)
     else bindE (removeFromLeaf leafIdx key t) (\<lambda>(found, t).
          if \<not> found then Inr (False, t)
          else let t = t\<lparr>bt_entryCount := bt_entryCount t - 1\<rparr> in
            bindE (node_at t leafIdx) (\<lambda>leaf.
            bindE (if \<not> bn_isRoot leaf \<and> bn_size leaf < bt_minLeafKeys t
                   then handleUnderflow (length (bt_nodes t) + 1) leafIdx t else Inr t) (\<lambda>t.
            bindE (shrink_root t) (\<lambda>t. bindE (drop_empty_root t) (\<lambda>t. Inr (True, t)))))))"

text \<open>The loop of \<open>rangeScan\<close> over one leaf: the results, and whether a key above the range ended it.\<close>

fun scan_leaf :: "BPlusNode \<Rightarrow> int \<Rightarrow> int \<Rightarrow> int list \<Rightarrow> RID list \<Rightarrow> (bool \<times> RID list) res" where
  "scan_leaf leaf lo hi [] acc = Inr (False, acc)"
| "scan_leaf leaf lo hi (i # is) acc =
     bindE (vec_at (bn_keys leaf) i) (\<lambda>k.
     bindE (if k \<ge> lo \<and> k \<le> hi then bindE (vec_at (bn_values leaf) i) (\<lambda>r. Inr (acc @ [r])) else Inr acc) (\<lambda>acc.
     if k > hi then Inr (True, acc) else scan_leaf leaf lo hi is acc))"

fun rangeScan_loop :: "nat \<Rightarrow> BPlusTree \<Rightarrow> int \<Rightarrow> int \<Rightarrow> int \<Rightarrow> RID list \<Rightarrow> RID list res" where
  "rangeScan_loop 0 t lo hi current acc = Inl OutOfFuel"
| "rangeScan_loop (Suc n) t lo hi current acc =
     (if current < 0 then Inr acc
      else bindE (node_at t current) (\<lambda>leaf.
           bindE (scan_leaf leaf lo hi (slots leaf) acc) (\<lambda>(stop, acc).
           if stop then Inr acc else rangeScan_loop n t lo hi (bn_nextLeafIdx leaf) acc)))"

definition rangeScan :: "BPlusTree \<Rightarrow> int \<Rightarrow> int \<Rightarrow> RID list res" where
  "rangeScan t lo hi =
     bindE (findLeaf t lo) (\<lambda>leafIdx.
     if leafIdx < 0 then Inr [] else rangeScan_loop (length (bt_nodes t) + 1) t lo hi leafIdx [])"

definition getSize :: "BPlusTree \<Rightarrow> int" where "getSize t = bt_entryCount t"

definition isEmpty :: "BPlusTree \<Rightarrow> bool" where "isEmpty t \<longleftrightarrow> bt_nodes t = []"

definition show_node_line :: "nat \<Rightarrow> string \<Rightarrow> BPlusNode \<Rightarrow> string res" where
  "show_node_line depth label node =
     bindE (mapE (vec_at (bn_keys node)) (slots node)) (\<lambda>ks.
     Inr (replicate (depth * 2) (CHR '' '') @ label @ '' ['' @ sep_by '', '' (map to_string ks) @ '']'' @ [CHR 0x0A]))"

text \<open>\<open>print\<close> as the text it writes.\<close>

fun printNode :: "nat \<Rightarrow> BPlusTree \<Rightarrow> int \<Rightarrow> nat \<Rightarrow> string res" where
  "printNode 0 t nodeIdx depth = Inl OutOfFuel"
| "printNode (Suc n) t nodeIdx depth =
     bindE (node_at t nodeIdx) (\<lambda>node.
     if bn_type node = LEAF then show_node_line depth ''LEAF'' node
     else bindE (show_node_line depth ''INTERNAL'' node) (\<lambda>line.
          bindE (mapE (\<lambda>c. printNode n t c (depth + 1)) (bn_childIndices node)) (\<lambda>ls. Inr (line @ concat ls))))"

definition bt_print :: "BPlusTree \<Rightarrow> string res" where
  "bt_print t = (if bt_rootIdx t < 0 then Inr (''(empty tree)'' @ [CHR 0x0A]) else printNode (length (bt_nodes t) + 1) t (bt_rootIdx t) 0)"

section \<open>Bisection\<close>

lemma lower_bound_loop_spec:
  assumes "sorted xs" "first + n \<le> length xs" "\<And>i. i < first \<Longrightarrow> xs ! i < key" "\<And>i. first + n \<le> i \<Longrightarrow> i < length xs \<Longrightarrow> key \<le> xs ! i"
  shows "lower_bound_loop xs key first n = length (takeWhile (\<lambda>k. k < key) xs)"
  using assms
proof (induction xs key first n rule: lower_bound_loop.induct)
  case (1 xs key first n)
  show ?case
  proof (cases "n = 0")
    case True
    have "takeWhile (\<lambda>k. k < key) xs = take first xs"
      using "1.prems" True by (intro takeWhile_eq_take_P_nth) (auto simp: not_less)
    with True "1.prems"(2) show ?thesis by (subst lower_bound_loop.simps) simp
  next
    case False
    define mid where "mid = first + n div 2"
    have m: "mid < length xs" "mid < first + n" "first \<le> mid" using False "1.prems"(2) by (simp_all add: mid_def)
    show ?thesis
    proof (cases "xs ! mid < key")
      case True
      have "xs ! i < key" if "i < mid + 1" for i
        using sorted_nth_mono [OF "1.prems"(1), of i mid] that m True by fastforce
      then have "lower_bound_loop xs key (mid + 1) (n - (n div 2 + 1)) = length (takeWhile (\<lambda>k. k < key) xs)"
        using "1.IH"(1) [OF False refl] True "1.prems" m by (simp add: mid_def)
      then show ?thesis using False True by (subst lower_bound_loop.simps) (simp add: mid_def Let_def)
    next
      case above: False
      have "key \<le> xs ! i" if "mid \<le> i" "i < length xs" for i
        using sorted_nth_mono [OF "1.prems"(1), of mid i] that above by fastforce
      then have "lower_bound_loop xs key first (n div 2) = length (takeWhile (\<lambda>k. k < key) xs)"
        using "1.IH"(2) [OF False refl] above "1.prems" m by (simp add: mid_def)
      then show ?thesis using False above by (subst lower_bound_loop.simps) (simp add: mid_def Let_def)
    qed
  qed
qed

lemma lower_bound_sorted: "sorted xs \<Longrightarrow> lower_bound xs key = int (length (takeWhile (\<lambda>k. k < key) xs))"
  using lower_bound_loop_spec [of xs 0 "length xs" key] by (simp add: lower_bound_def)

section \<open>Leaves as finite maps\<close>

text \<open>\<open>scan_leaf_ok\<close> is what every leaf satisfies, \<open>leaf_ok\<close> what a leaf that is the whole tree does.\<close>

definition scan_leaf_ok :: "BPlusNode \<Rightarrow> bool" where
  "scan_leaf_ok n \<longleftrightarrow> bn_type n = LEAF \<and> bn_size n = int (length (bn_keys n)) \<and> length (bn_values n) = length (bn_keys n) \<and>
     sorted_wrt (<) (bn_keys n)"

definition leaf_ok :: "BPlusNode \<Rightarrow> bool" where
  "leaf_ok n \<longleftrightarrow> bn_type n = LEAF \<and> bn_isRoot n \<and> bn_size n = int (length (bn_keys n)) \<and>
     length (bn_values n) = length (bn_keys n) \<and> sorted_wrt (<) (bn_keys n) \<and> bn_nextLeafIdx n = - 1"

definition leaf_list :: "BPlusNode \<Rightarrow> (int \<times> RID) list" where
  "leaf_list n = zip (bn_keys n) (bn_values n)"

lemma leaf_list_fst [simp]: "leaf_ok n \<Longrightarrow> map fst (leaf_list n) = bn_keys n"
  by (simp add: leaf_ok_def leaf_list_def)

lemma leaf_keys_distinct: "leaf_ok n \<Longrightarrow> distinct (bn_keys n)" "leaf_ok n \<Longrightarrow> sorted (bn_keys n)"
  using strict_sorted_iff by (auto simp: leaf_ok_def)

lemma leaf_map_None: "leaf_ok n \<Longrightarrow> map_of (leaf_list n) k = None \<longleftrightarrow> k \<notin> set (bn_keys n)"
  by (metis leaf_list_fst map_of_eq_None_iff set_map)

lemma map_of_insert_at:
  assumes "k \<notin> fst ` set zs"
  shows "map_of (take p zs @ (k, v) # drop p zs) = (map_of zs)(k \<mapsto> v)"
proof
  fix x
  have "map_of zs x = (map_of (drop p zs) ++ map_of (take p zs)) x"
    by (metis append_take_drop_id map_of_append)
  moreover have "map_of (take p zs) k = None" using assms by (auto simp: map_of_eq_None_iff dest: in_set_takeD)
  ultimately show "map_of (take p zs @ (k, v) # drop p zs) x = ((map_of zs)(k \<mapsto> v)) x"
    by (auto simp: map_add_def split: option.splits)
qed

lemma map_of_erase_at:
  assumes "distinct (map fst zs)" "p < length zs" "fst (zs ! p) = k"
  shows "map_of (take p zs @ drop (Suc p) zs) = (map_of zs)(k := None)"
proof
  fix x
  have z: "zs = take p zs @ (k, snd (zs ! p)) # drop (Suc p) zs"
    using assms(2,3) by (metis id_take_nth_drop prod.collapse)
  have d: "k \<notin> fst ` set (take p zs)" "k \<notin> fst ` set (drop (Suc p) zs)"
    using assms(1) by (subst (asm) z; simp)+
  have "map_of zs = (map_of (drop (Suc p) zs))(k \<mapsto> snd (zs ! p)) ++ map_of (take p zs)"
    by (subst z) (simp add: map_add_upd)
  moreover have "map_of (take p zs) k = None" "map_of (drop (Suc p) zs) k = None" using d by (simp_all add: map_of_eq_None_iff)
  ultimately show "map_of (take p zs @ drop (Suc p) zs) x = ((map_of zs)(k := None)) x"
    by (auto simp: map_add_def split: option.splits)
qed

lemma sorted_insert_at:
  assumes "sorted_wrt (<) ks" "k \<notin> set ks" "p = length (takeWhile (\<lambda>x. x < k) ks)"
  shows "sorted_wrt (<) (take p ks @ (k::int) # drop p ks)"
proof -
  have t: "take p ks = takeWhile (\<lambda>x. x < k) ks" "drop p ks = dropWhile (\<lambda>x. x < k) ks"
    unfolding assms(3) by (rule takeWhile_eq_take [symmetric], rule dropWhile_eq_drop [symmetric])
  have s: "sorted_wrt (<) (take p ks @ drop p ks)" using assms(1) by simp
  have above: "k < x" if x: "x \<in> set (drop p ks)" for x
  proof -
    obtain y ys where y: "drop p ks = y # ys" using x by (cases "drop p ks") auto
    have "dropWhile (\<lambda>x. x < k) ks = y # ys" using t(2) y by simp
    then have "\<not> y < k" by (metis hd_dropWhile list.distinct(1) list.sel(1))
    moreover have "y \<in> set (drop p ks)" using y by simp
    then have "y \<in> set ks" by (rule in_set_dropD)
    ultimately have "k < y" using assms(2) by (cases "k = y") auto
    moreover have "y = x \<or> y < x" using s y x by (auto simp: sorted_wrt_append)
    ultimately show ?thesis by auto
  qed
  show ?thesis using s above t(1) by (auto simp: sorted_wrt_append dest: set_takeWhileD)
qed

lemma enter_leaf_spec:
  assumes "leaf_ok n" "k \<notin> set (bn_keys n)"
  obtains n' where "enter_leaf k r n = Inr n'" "leaf_ok n'" "map_of (leaf_list n') = (map_of (leaf_list n))(k \<mapsto> r)"
    "length (bn_keys n') = length (bn_keys n) + 1"
proof -
  define p where "p = length (takeWhile (\<lambda>x. x < k) (bn_keys n))"
  have lb: "lower_bound (bn_keys n) k = int p" using lower_bound_sorted leaf_keys_distinct(2) [OF assms(1)] by (simp add: p_def)
  have l: "length (bn_values n) = length (bn_keys n)" "p \<le> length (bn_keys n)" "bn_size n = int (length (bn_keys n))"
    using assms(1) length_takeWhile_le by (auto simp: leaf_ok_def p_def)
  let ?n = "n\<lparr>bn_keys := take p (bn_keys n) @ k # drop p (bn_keys n), bn_values := take p (bn_values n) @ r # drop p (bn_values n), bn_size := bn_size n + 1\<rparr>"
  have run: "enter_leaf k r n = Inr ?n" using l by (simp add: enter_leaf_def lb vec_insert_def)
  have ok: "leaf_ok ?n" using assms l sorted_insert_at [of "bn_keys n" k p] by (simp add: leaf_ok_def p_def)
  have "leaf_list ?n = take p (leaf_list n) @ (k, r) # drop p (leaf_list n)"
    using l by (simp add: leaf_list_def take_zip drop_zip)
  moreover have "k \<notin> fst ` set (leaf_list n)" using assms leaf_list_fst [OF assms(1)] by (metis set_map)
  ultimately have "map_of (leaf_list ?n) = (map_of (leaf_list n))(k \<mapsto> r)" by (metis map_of_insert_at)
  with run ok show thesis using l by (intro that) auto
qed

lemma leaf_ok_scan: "leaf_ok n \<Longrightarrow> scan_leaf_ok n"
  by (simp add: leaf_ok_def scan_leaf_ok_def)

lemma key_pos_spec:
  assumes "set is \<subseteq> {0..<int (length (bn_keys n))}"
  shows "key_pos n k is = Inr (List.find (\<lambda>i. bn_keys n ! nat i = k) is)"
  using assms by (induction "is") (auto simp: vec_at_def)

lemma key_pos_scan:
  assumes "scan_leaf_ok n"
  obtains (absent) "key_pos n k (slots n) = Inr None" "map_of (leaf_list n) k = None"
  | (found) i where "key_pos n k (slots n) = Inr (Some (int i))" "i < length (bn_keys n)" "bn_keys n ! i = k"
      "map_of (leaf_list n) k = Some (bn_values n ! i)"
proof -
  let ?ks = "bn_keys n"
  have sz: "bn_size n = int (length ?ks)" "length (bn_values n) = length ?ks" "distinct ?ks"
    using assms strict_sorted_iff by (auto simp: scan_leaf_ok_def)
  have sub: "set (slots n) \<subseteq> {0..<int (length ?ks)}" using sz by auto
  note e = key_pos_spec [OF sub, of k]
  show thesis
  proof (cases "List.find (\<lambda>i. ?ks ! nat i = k) (slots n)")
    case None
    have "k \<notin> set ?ks"
    proof
      assume "k \<in> set ?ks"
      then obtain i where i: "i < length ?ks" "?ks ! i = k" by (auto simp: in_set_conv_nth)
      then have "int i \<in> set (slots n)" "?ks ! nat (int i) = k" using sz by auto
      with None show False unfolding find_None_iff by blast
    qed
    then show thesis using absent e None sz(2) by (simp add: leaf_list_def map_of_zip_is_None)
  next
    case (Some j)
    then have "j \<in> set (slots n)" "?ks ! nat j = k" by (auto simp: find_Some_iff)
    then have j: "0 \<le> j" "nat j < length ?ks" "?ks ! nat j = k" using sub by auto
    have "map_of (leaf_list n) (?ks ! nat j) = Some (bn_values n ! nat j)"
      using sz(2,3) j(2) by (simp add: leaf_list_def map_of_zip_nth)
    then show thesis using j e Some by (intro found [of "nat j"]) simp_all
  qed
qed

lemma key_pos_leaf:
  assumes "leaf_ok n"
  obtains (absent) "key_pos n k (slots n) = Inr None" "map_of (leaf_list n) k = None"
  | (found) i where "key_pos n k (slots n) = Inr (Some (int i))" "i < length (bn_keys n)" "bn_keys n ! i = k"
      "map_of (leaf_list n) k = Some (bn_values n ! i)"
  by (rule key_pos_scan [OF leaf_ok_scan [OF assms], of k]) (blast intro: that)+

section \<open>Trees of one leaf\<close>

text \<open>
  Every tree is empty or a single root leaf until the first split.  In this range the tree is a
  finite map, whatever the growth policy of the vector.
\<close>

definition root_leaf :: "BPlusTree \<Rightarrow> BPlusNode" where
  "root_leaf t = bt_nodes t ! nat (bt_rootIdx t)"

definition leaf_tree :: "BPlusTree \<Rightarrow> bool" where
  "leaf_tree t \<longleftrightarrow> 0 < bt_maxLeafKeys t \<and> bt_rootIdx t < int (length (bt_nodes t)) \<and>
     (if bt_rootIdx t < 0 then bt_entryCount t = 0
      else leaf_ok (root_leaf t) \<and> bn_keys (root_leaf t) \<noteq> [] \<and> bt_entryCount t = int (length (bn_keys (root_leaf t))) \<and>
        bt_entryCount t \<le> bt_maxLeafKeys t)"

definition entries :: "BPlusTree \<Rightarrow> int \<rightharpoonup> RID" where
  "entries t = (if bt_rootIdx t < 0 then Map.empty else map_of (leaf_list (root_leaf t)))"

lemma node_at_root: "0 \<le> bt_rootIdx t \<Longrightarrow> leaf_tree t \<Longrightarrow> node_at t (bt_rootIdx t) = Inr (root_leaf t)"
  by (simp add: leaf_tree_def node_at_def vec_at_def root_leaf_def)

lemma leaf_tree_root:
  assumes "leaf_tree t" "\<not> bt_rootIdx t < 0"
  shows "leaf_ok (root_leaf t)" "bt_entryCount t = int (length (bn_keys (root_leaf t)))" "bt_rootIdx t < int (length (bt_nodes t))"
    "bn_size (root_leaf t) = bt_entryCount t" "bt_entryCount t \<le> bt_maxLeafKeys t" "bn_keys (root_leaf t) \<noteq> []"
  using assms by (auto simp: leaf_tree_def leaf_ok_def)

lemma findLeaf_leaf_tree: "leaf_tree t \<Longrightarrow> findLeaf t key = Inr (if bt_rootIdx t < 0 then - 1 else bt_rootIdx t)"
  using node_at_root [of t] leaf_tree_root(1) [of t] by (auto simp: findLeaf_def leaf_ok_def)

lemma put_root:
  assumes "leaf_tree t" "\<not> bt_rootIdx t < 0"
  shows "put_node (bt_rootIdx t) n t = Inr (t\<lparr>bt_nodes := (bt_nodes t)[nat (bt_rootIdx t) := n]\<rparr>)"
    "root_leaf (t\<lparr>bt_nodes := (bt_nodes t)[nat (bt_rootIdx t) := n]\<rparr>) = n"
  using leaf_tree_root(3) [OF assms] assms(2) by (simp_all add: put_node_def vec_set_def root_leaf_def)

lemma bt_search_spec:
  assumes "leaf_tree t"
  shows "bt_search t key = Inr (entries t key)"
proof (cases "bt_rootIdx t < 0")
  case True
  then show ?thesis by (simp add: bt_search_def findLeaf_leaf_tree [OF assms] entries_def)
next
  case False
  note r = leaf_tree_root [OF assms False] and n = node_at_root [OF _ assms]
  have l: "length (bn_values (root_leaf t)) = length (bn_keys (root_leaf t))" using r(1) by (simp add: leaf_ok_def)
  show ?thesis
    by (cases rule: key_pos_leaf [OF r(1), of key])
      (use False n l in \<open>simp_all add: bt_search_def findLeaf_leaf_tree [OF assms] entries_def vec_at_def\<close>)
qed

lemma bt_insert_present:
  assumes "leaf_tree t" "entries t key \<noteq> None"
  shows "bt_insert key r t = Inr (False, t)"
proof -
  have root: "\<not> bt_rootIdx t < 0" using assms(2) by (auto simp: entries_def)
  note l = leaf_tree_root [OF assms(1) root] and n = node_at_root [OF _ assms(1)]
  show ?thesis
    by (cases rule: key_pos_leaf [OF l(1), of key])
      (use root n assms(2) in \<open>simp_all add: bt_insert_def findLeaf_leaf_tree [OF assms(1)] entries_def\<close>)
qed

lemma bt_insert_root:
  assumes "leaf_tree t" "bt_rootIdx t < 0"
  shows "\<exists>t'. bt_insert key r t = Inr (True, t') \<and> leaf_tree t' \<and> entries t' = (entries t)(key \<mapsto> r) \<and>
    bt_entryCount t' = bt_entryCount t + 1 \<and> bt_maxLeafKeys t' = bt_maxLeafKeys t \<and>
    bt_nodes t' = bt_nodes t @ [last (bt_nodes t')] \<and> bt_grow t' = bt_grow t \<and> bt_rootIdx t' \<ge> 0 \<and>
    bt_capacity t' = (if length (bt_nodes t) = bt_capacity t then bt_grow t (bt_capacity t) else bt_capacity t)"
proof -
  have m: "0 < bt_maxLeafKeys t" "bt_entryCount t = 0" using assms by (auto simp: leaf_tree_def)
  show ?thesis
    using assms m by (simp add: bt_insert_def allocateNode_def Let_def modify_node_def node_at_def put_node_def vec_at_def vec_set_def
        leaf_tree_def root_leaf_def leaf_ok_def entries_def leaf_list_def nth_append)
qed

lemma bt_insert_leaf:
  assumes "leaf_tree t" "\<not> bt_rootIdx t < 0" "entries t key = None" "bt_entryCount t < bt_maxLeafKeys t"
  shows "\<exists>t'. bt_insert key r t = Inr (True, t') \<and> leaf_tree t' \<and> entries t' = (entries t)(key \<mapsto> r) \<and>
    bt_entryCount t' = bt_entryCount t + 1 \<and> bt_maxLeafKeys t' = bt_maxLeafKeys t \<and>
    length (bt_nodes t') = length (bt_nodes t) \<and> bt_grow t' = bt_grow t \<and> bt_rootIdx t' = bt_rootIdx t \<and> bt_capacity t' = bt_capacity t"
proof -
  note l = leaf_tree_root [OF assms(1,2)] and n = node_at_root [OF _ assms(1)]
  have absent: "key \<notin> set (bn_keys (root_leaf t))" using assms(2,3) leaf_map_None [OF l(1)] by (simp add: entries_def)
  obtain n' where n': "enter_leaf key r (root_leaf t) = Inr n'" "leaf_ok n'"
    "map_of (leaf_list n') = (map_of (leaf_list (root_leaf t)))(key \<mapsto> r)" "length (bn_keys n') = length (bn_keys (root_leaf t)) + 1"
    by (rule enter_leaf_spec [OF l(1) absent])
  have pos: "key_pos (root_leaf t) key (slots (root_leaf t)) = Inr None"
    by (cases rule: key_pos_leaf [OF l(1), of key]) (use assms(2,3) in \<open>simp_all add: entries_def\<close>)
  let ?t = "t\<lparr>bt_nodes := (bt_nodes t)[nat (bt_rootIdx t) := n'], bt_entryCount := bt_entryCount t + 1\<rparr>"
  have run: "bt_insert key r t = Inr (True, ?t)"
    using assms(2,4) n pos n'(1) put_root(1) [OF assms(1,2)] l(4)
    by (simp add: bt_insert_def findLeaf_leaf_tree [OF assms(1)] insertIntoLeaf_def)
  have root: "root_leaf ?t = n'" using put_root(2) [OF assms(1,2), of n'] by (simp add: root_leaf_def)
  have "leaf_tree ?t" using assms l n'(2,4) root by (auto simp: leaf_tree_def)
  moreover have "entries ?t = (entries t)(key \<mapsto> r)" using root n'(3) assms(2) by (simp add: entries_def)
  ultimately show ?thesis using run by (intro exI [of _ ?t]) simp
qed

lemma bt_insert_spec:
  assumes "leaf_tree t" "entries t key = None" "bt_entryCount t < bt_maxLeafKeys t"
  shows "\<exists>t'. bt_insert key r t = Inr (True, t') \<and> leaf_tree t' \<and> entries t' = (entries t)(key \<mapsto> r) \<and>
    bt_entryCount t' = bt_entryCount t + 1 \<and> bt_maxLeafKeys t' = bt_maxLeafKeys t"
  using bt_insert_root [OF assms(1), of key r] bt_insert_leaf [OF assms(1) _ assms(2,3), of r] by (cases "bt_rootIdx t < 0") blast+

text \<open>A full root leaf with no spare capacity in the vector: the split uses a dangling reference.\<close>

lemma bt_insert_dangling:
  assumes "leaf_tree t" "entries t key = None" "bt_entryCount t = bt_maxLeafKeys t" "length (bt_nodes t) = bt_capacity t"
  shows "bt_insert key r t = ub ''dangling reference to the split leaf''"
proof -
  have root: "\<not> bt_rootIdx t < 0" using assms(1,3) by (auto simp: leaf_tree_def)
  note l = leaf_tree_root [OF assms(1) root] and n = node_at_root [OF _ assms(1)]
  have absent: "key \<notin> set (bn_keys (root_leaf t))" using root assms(2) leaf_map_None [OF l(1)] by (simp add: entries_def)
  obtain n' where n': "enter_leaf key r (root_leaf t) = Inr n'"
    by (rule enter_leaf_spec [OF l(1) absent])
  have pos: "key_pos (root_leaf t) key (slots (root_leaf t)) = Inr None"
    by (cases rule: key_pos_leaf [OF l(1), of key]) (use root assms(2) in \<open>simp_all add: entries_def\<close>)
  show ?thesis
    using root n pos n' put_root(1) [OF assms(1) root] l(4) assms(3,4)
    by (simp add: bt_insert_def findLeaf_leaf_tree [OF assms(1)] splitLeafAndInsert_def allocateNode_def Let_def)
qed

lemma removeFromLeaf_spec:
  assumes "leaf_tree t" "\<not> bt_rootIdx t < 0"
  shows "\<exists>n'. removeFromLeaf (bt_rootIdx t) key t =
      (if entries t key = None then Inr (False, t) else Inr (True, t\<lparr>bt_nodes := (bt_nodes t)[nat (bt_rootIdx t) := n']\<rparr>)) \<and>
    (entries t key \<noteq> None \<longrightarrow> leaf_ok n' \<and> map_of (leaf_list n') = (entries t)(key := None) \<and>
      length (bn_keys n') + 1 = length (bn_keys (root_leaf t)))"
proof -
  note l = leaf_tree_root [OF assms] and nd = node_at_root [OF _ assms(1)]
  define n where "n = root_leaf t"
  define p where "p = length (takeWhile (\<lambda>k. k \<noteq> key) (bn_keys n))"
  have len: "length (bn_values n) = length (bn_keys n)" "bn_size n = int (length (bn_keys n))" using l(1) by (simp_all add: n_def leaf_ok_def)
  show ?thesis
  proof (cases "key \<in> set (bn_keys n)")
    case False
    then have "takeWhile (\<lambda>k. k \<noteq> key) (bn_keys n) = bn_keys n" by (auto simp: takeWhile_eq_all_conv)
    then have "p = length (bn_keys n)" unfolding p_def by (rule arg_cong)
    moreover have "entries t key = None" using False leaf_map_None [OF l(1)] assms(2) by (simp add: entries_def n_def)
    ultimately show ?thesis using nd assms(2) by (simp add: removeFromLeaf_def p_def n_def Let_def)
  next
    case True
    then have e: "entries t key \<noteq> None" using leaf_map_None [OF l(1), of key] assms(2) by (auto simp: entries_def n_def)
    obtain ys zs where ks: "bn_keys n = ys @ key # zs" "key \<notin> set ys" using split_list_first [OF True] by blast
    then have "takeWhile (\<lambda>k. k \<noteq> key) (bn_keys n) = ys" by (auto simp: takeWhile_append)
    then have "p = length ys" unfolding p_def by (rule arg_cong)
    with ks have pk: "p < length (bn_keys n)" "bn_keys n ! p = key" by simp_all
    let ?n = "n\<lparr>bn_keys := take p (bn_keys n) @ drop (Suc p) (bn_keys n), bn_values := take p (bn_values n) @ drop (Suc p) (bn_values n), bn_size := bn_size n - 1\<rparr>"
    have run: "removeFromLeaf (bt_rootIdx t) key t = Inr (True, t\<lparr>bt_nodes := (bt_nodes t)[nat (bt_rootIdx t) := ?n]\<rparr>)"
      using nd assms(2) pk len put_root(1) [OF assms] by (simp add: removeFromLeaf_def vec_erase_def Let_def flip: p_def n_def)
    have "sorted_wrt (<) (ys @ key # zs)" using l(1) ks(1) by (simp add: leaf_ok_def n_def)
    then have "sorted_wrt (<) (take p (bn_keys n) @ drop (Suc p) (bn_keys n))"
      using ks(1) \<open>p = length ys\<close> by (simp add: sorted_wrt_append)
    then have ok: "leaf_ok ?n" using l(1) len pk by (simp add: leaf_ok_def n_def)
    have "leaf_list ?n = take p (leaf_list n) @ drop (Suc p) (leaf_list n)"
      using len pk by (simp add: leaf_list_def take_zip drop_zip)
    moreover have "distinct (map fst (leaf_list n))" "p < length (leaf_list n)" "fst (leaf_list n ! p) = key"
      using leaf_keys_distinct(1) [OF l(1)] l(1) len pk by (simp_all add: n_def leaf_list_def)
    ultimately have "map_of (leaf_list ?n) = (entries t)(key := None)"
      using map_of_erase_at [of "leaf_list n" p key] assms(2) by (simp add: entries_def n_def)
    then show ?thesis using run ok e pk by (intro exI [of _ ?n]) (simp add: n_def)
  qed
qed

lemma bt_remove_spec:
  assumes "leaf_tree t"
  shows "\<exists>t'. bt_remove key t = Inr (entries t key \<noteq> None, t') \<and> leaf_tree t' \<and> entries t' = (entries t)(key := None) \<and>
    bt_entryCount t' = (if entries t key = None then bt_entryCount t else bt_entryCount t - 1) \<and> bt_maxLeafKeys t' = bt_maxLeafKeys t"
proof (cases "bt_rootIdx t < 0")
  case True
  then show ?thesis using assms by (simp add: bt_remove_def findLeaf_leaf_tree [OF assms] entries_def fun_eq_iff)
next
  case False
  note l = leaf_tree_root [OF assms False]
  obtain n' where n': "removeFromLeaf (bt_rootIdx t) key t =
      (if entries t key = None then Inr (False, t) else Inr (True, t\<lparr>bt_nodes := (bt_nodes t)[nat (bt_rootIdx t) := n']\<rparr>))"
    "entries t key \<noteq> None \<longrightarrow> leaf_ok n' \<and> map_of (leaf_list n') = (entries t)(key := None) \<and> length (bn_keys n') + 1 = length (bn_keys (root_leaf t))"
    using removeFromLeaf_spec [OF assms False, of key] by blast
  show ?thesis
  proof (cases "entries t key = None")
    case True
    then show ?thesis using assms n'(1) False by (simp add: bt_remove_def findLeaf_leaf_tree [OF assms] fun_upd_idem)
  next
    case present: False
    with n'(2) have k: "leaf_ok n'" "map_of (leaf_list n') = (entries t)(key := None)" "length (bn_keys n') + 1 = length (bn_keys (root_leaf t))" by auto
    define u where "u = t\<lparr>bt_nodes := (bt_nodes t)[nat (bt_rootIdx t) := n'], bt_entryCount := bt_entryCount t - 1\<rparr>"
    have root: "root_leaf u = n'" using put_root(2) [OF assms False, of n'] by (simp add: root_leaf_def u_def)
    have at: "node_at u (bt_rootIdx t) = Inr n'" using False l(3) by (simp add: node_at_def vec_at_def u_def)
    have ty: "bn_type n' = LEAF" "bn_isRoot n'" "bn_size n' = int (length (bn_keys n'))" using k(1) by (simp_all add: leaf_ok_def)
    define t' where "t' = (if bn_size n' = 0 then u\<lparr>bt_rootIdx := - 1\<rparr> else u)"
    have run: "bt_remove key t = Inr (True, t')"
      using False present n'(1) at ty
      by (simp add: bt_remove_def findLeaf_leaf_tree [OF assms] shrink_root_def drop_empty_root_def t'_def Let_def flip: u_def)
        (simp add: u_def)
    have "leaf_tree t'" using assms l k root ty False by (auto simp: leaf_tree_def t'_def u_def root_leaf_def)
    moreover have "entries t' = (entries t)(key := None)"
    proof (cases "bn_size n' = 0")
      case True
      then have "map_of (leaf_list n') = Map.empty" using ty(3) by (simp add: leaf_list_def)
      then show ?thesis using True k(2) by (simp add: entries_def t'_def)
    next
      case nonempty: False
      then have "t' = u" by (simp add: t'_def)
      then show ?thesis using root k(2) False by (simp add: entries_def u_def)
    qed
    ultimately show ?thesis using run present by (intro exI [of _ t']) (simp add: t'_def u_def)
  qed
qed

lemma leaf_tree_new: "1 < order \<Longrightarrow> leaf_tree (new_BPlusTree grow order)" "entries (new_BPlusTree grow order) = Map.empty"
  by (simp_all add: leaf_tree_def new_BPlusTree_def entries_def)

lemma entryCount_card: "leaf_tree t \<Longrightarrow> bt_entryCount t = int (card (dom (entries t)))"
proof (cases "bt_rootIdx t < 0")
  case False
  assume t: "leaf_tree t"
  note l = leaf_tree_root [OF t False]
  have "x \<in> dom (entries t) \<longleftrightarrow> x \<in> set (bn_keys (root_leaf t))" for x
    using False leaf_map_None [OF l(1), of x] unfolding domIff entries_def by simp
  then have "dom (entries t) = set (bn_keys (root_leaf t))" by blast
  then show ?thesis using l(2) leaf_keys_distinct(1) [OF l(1)] by (simp add: distinct_card)
qed (simp add: leaf_tree_def entries_def)

section \<open>Range scans\<close>

lemma scan_leaf_spec:
  assumes "length vs = length ks" "length vs' = length ks'" "bn_keys n = ks' @ ks" "bn_values n = vs' @ vs" "sorted ks"
  shows "\<exists>b. scan_leaf n lo hi [int (length ks')..int (length (bn_keys n)) - 1] acc =
    Inr (b, acc @ map snd (filter (\<lambda>(k, r). lo \<le> k \<and> k \<le> hi) (zip ks vs)))"
  using assms
proof (induction ks vs arbitrary: ks' vs' acc rule: list_induct2')
  case (4 k ks v vs)
  have up: "[int (length ks')..int (length (bn_keys n)) - 1] = int (length ks') # [int (length (ks' @ [k]))..int (length (bn_keys n)) - 1]"
    using "4.prems"(3) by (subst upto_rec1) (auto simp: add.commute)
  have at: "vec_at (bn_keys n) (int (length ks')) = Inr k" "vec_at (bn_values n) (int (length ks')) = Inr v"
    using "4.prems"(1-4) by (simp_all add: vec_at_def nth_append)
  have later: "filter (\<lambda>(k, r). lo \<le> k \<and> k \<le> hi) (zip ks vs) = []" if "hi < k"
    using that "4.prems"(5) by (auto simp: filter_empty_conv dest!: set_zip_leftD)
  have ih: "\<exists>b. scan_leaf n lo hi [int (length (ks' @ [k]))..int (length (bn_keys n)) - 1] acc' =
      Inr (b, acc' @ map snd (filter (\<lambda>(k, r). lo \<le> k \<and> k \<le> hi) (zip ks vs)))" for acc'
    using "4.IH" [of "vs' @ [v]" "ks' @ [k]" acc'] "4.prems" by simp
  show ?case
    unfolding up using at later ih [of acc] ih [of "acc @ [v]"]
    by (cases "hi < k"; cases "lo \<le> k") (auto simp: not_less)
qed (auto intro: exI [of _ False])

section \<open>The interface of an index\<close>

text \<open>Histories of an index: insertions, which keep the first record of a key, and removals.\<close>

datatype index_op = Ins int RID | Del int

fun op_key :: "index_op \<Rightarrow> int" where
  "op_key (Ins k r) = k"
| "op_key (Del k) = k"

fun apply_op :: "index_op \<Rightarrow> (int \<rightharpoonup> RID) \<Rightarrow> int \<rightharpoonup> RID" where
  "apply_op (Ins k r) m = (if m k = None then m(k \<mapsto> r) else m)"
| "apply_op (Del k) m = m(k := None)"

text \<open>What a history does to the tree.\<close>

fun run_index_op :: "index_op \<Rightarrow> BPlusTree \<Rightarrow> BPlusTree res" where
  "run_index_op (Ins k r) t = bindE (bt_insert k r t) (\<lambda>(_, t). Inr t)"
| "run_index_op (Del k) t = bindE (bt_remove k t) (\<lambda>(_, t). Inr t)"

text \<open>A history never holds more than \<open>n\<close> keys.\<close>

fun fits :: "nat \<Rightarrow> index_op list \<Rightarrow> (int \<rightharpoonup> RID) \<Rightarrow> bool" where
  "fits n [] m \<longleftrightarrow> True"
| "fits n (o1 # os) m \<longleftrightarrow> card (dom (apply_op o1 m)) \<le> n \<and> fits n os (apply_op o1 m)"

locale index_map =
  fixes ok :: "'t \<Rightarrow> bool"
    and content :: "'t \<Rightarrow> int \<rightharpoonup> RID"
    and limit :: "'t \<Rightarrow> nat"
    and find :: "'t \<Rightarrow> int \<Rightarrow> RID option res"
    and ins :: "int \<Rightarrow> RID \<Rightarrow> 't \<Rightarrow> (bool \<times> 't) res"
    and del :: "int \<Rightarrow> 't \<Rightarrow> (bool \<times> 't) res"
  assumes finite_content: "ok t \<Longrightarrow> finite (dom (content t))"
    and find_law: "ok t \<Longrightarrow> find t k = Inr (content t k)"
    and ins_new: "ok t \<Longrightarrow> content t k = None \<Longrightarrow> card (dom (content t)) < limit t \<Longrightarrow>
      \<exists>t'. ins k r t = Inr (True, t') \<and> ok t' \<and> content t' = (content t)(k \<mapsto> r) \<and> limit t' = limit t"
    and ins_old: "ok t \<Longrightarrow> content t k \<noteq> None \<Longrightarrow> ins k r t = Inr (False, t)"
    and del_law: "ok t \<Longrightarrow> \<exists>t'. del k t = Inr (content t k \<noteq> None, t') \<and> ok t' \<and> content t' = (content t)(k := None) \<and> limit t' = limit t"
begin

fun run_op :: "index_op \<Rightarrow> 't \<Rightarrow> 't res" where
  "run_op (Ins k r) t = bindE (ins k r t) (\<lambda>(_, t). Inr t)"
| "run_op (Del k) t = bindE (del k t) (\<lambda>(_, t). Inr t)"

lemma run_op_law:
  assumes "ok t" "card (dom (apply_op x (content t))) \<le> limit t"
  shows "\<exists>t'. run_op x t = Inr t' \<and> ok t' \<and> content t' = apply_op x (content t) \<and> limit t' = limit t"
proof (cases x)
  case (Ins k r)
  show ?thesis
  proof (cases "content t k")
    case None
    then have "card (dom (content t)) < limit t"
      using assms Ins finite_content [OF assms(1)] by (simp add: domIff card_insert_if)
    from ins_new [OF assms(1) None this, of r] Ins None show ?thesis by auto
  next
    case (Some r')
    then show ?thesis using ins_old [OF assms(1), of k r] Ins assms(1) by simp
  qed
next
  case (Del k)
  then show ?thesis using del_law [OF assms(1), of k] by auto
qed

lemma run_ops_law:
  assumes "ok t" "fits (limit t) xs (content t)"
  shows "\<exists>t'. foldE run_op xs t = Inr t' \<and> ok t' \<and> content t' = fold apply_op xs (content t) \<and> limit t' = limit t"
  using assms
proof (induction xs arbitrary: t)
  case (Cons x xs)
  then obtain u where u: "run_op x t = Inr u" "ok u" "content u = apply_op x (content t)" "limit u = limit t"
    using run_op_law [of t x] by auto
  then show ?case using Cons.IH [of u] Cons.prems by auto
qed simp

end

interpretation bt: index_map leaf_tree entries "\<lambda>t. nat (bt_maxLeafKeys t)" bt_search bt_insert bt_remove
proof (unfold_locales, goal_cases)
  case (1 t)
  then show ?case by (simp add: entries_def finite_dom_map_of)
next
  case (2 t k)
  then show ?case by (rule bt_search_spec)
next
  case (3 t k r)
  then have "bt_entryCount t < bt_maxLeafKeys t" using entryCount_card [OF 3(1)] by simp
  from bt_insert_spec [OF 3(1,2) this, of r] show ?case by auto
next
  case (4 t k r)
  then show ?case by (intro bt_insert_present) simp_all
next
  case (5 t k)
  then show ?case using bt_remove_spec [of t k] by auto
qed

lemma run_index_op_eq: "bt.run_op = run_index_op"
proof (intro ext)
  fix x t show "bt.run_op x t = run_index_op x t" by (cases x) simp_all
qed

lemma run_history:
  assumes "1 < order" "fits (nat (order - 1)) ops Map.empty"
  obtains t where "foldE run_index_op ops (new_BPlusTree grow order) = Inr t" "leaf_tree t" "entries t = fold apply_op ops Map.empty"
  using bt.run_ops_law [OF leaf_tree_new(1) [OF assms(1), of grow], of ops] assms(2) leaf_tree_new(2) [of grow order]
  by (auto simp: new_BPlusTree_def run_index_op_eq)

text \<open>Filling a fresh tree: its vector has one node and, with the usual growth policy, no spare capacity.\<close>

lemma fill_fresh_tree:
  assumes "grow 0 = 1" "1 < order" "distinct ks" "int (length ks) < order"
  shows "\<exists>t. foldE (\<lambda>k. run_index_op (Ins k (f k))) ks (new_BPlusTree grow order) = Inr t \<and> leaf_tree t \<and> dom (entries t) = set ks \<and>
    bt_maxLeafKeys t = order - 1 \<and> (if ks = [] then t = new_BPlusTree grow order else bt_rootIdx t \<ge> 0 \<and> length (bt_nodes t) = 1 \<and> bt_capacity t = 1)"
  using assms(3,4)
proof (induction ks rule: rev_induct)
  case Nil
  then show ?case using leaf_tree_new(1) [OF assms(2), of grow] by (simp add: new_BPlusTree_def entries_def)
next
  case (snoc k ks)
  obtain t where t: "foldE (\<lambda>k. run_index_op (Ins k (f k))) ks (new_BPlusTree grow order) = Inr t" "leaf_tree t" "dom (entries t) = set ks"
    "bt_maxLeafKeys t = order - 1" "if ks = [] then t = new_BPlusTree grow order else bt_rootIdx t \<ge> 0 \<and> length (bt_nodes t) = 1 \<and> bt_capacity t = 1"
    using snoc by (auto simp del: run_index_op.simps)
  have k: "entries t k = None" using t(3) snoc.prems(1) by (auto simp: domIff)
  have c: "bt_entryCount t < bt_maxLeafKeys t"
    using entryCount_card [OF t(2)] t(3,4) snoc.prems distinct_card [of ks] by simp
  have "\<exists>t'. bt_insert k (f k) t = Inr (True, t') \<and> leaf_tree t' \<and> entries t' = (entries t)(k \<mapsto> f k) \<and> bt_maxLeafKeys t' = order - 1 \<and>
      bt_rootIdx t' \<ge> 0 \<and> length (bt_nodes t') = 1 \<and> bt_capacity t' = 1"
  proof (cases "ks = []")
    case True
    then have n: "t = new_BPlusTree grow order" using t(5) by simp
    have "bt_rootIdx t < 0" using n by (simp add: new_BPlusTree_def)
    from bt_insert_root [OF t(2) this, of k "f k"] obtain t' where
      t': "bt_insert k (f k) t = Inr (True, t')" "leaf_tree t'" "entries t' = (entries t)(k \<mapsto> f k)" "bt_maxLeafKeys t' = bt_maxLeafKeys t"
        "bt_nodes t' = bt_nodes t @ [last (bt_nodes t')]" "bt_rootIdx t' \<ge> 0"
        "bt_capacity t' = (if length (bt_nodes t) = bt_capacity t then bt_grow t (bt_capacity t) else bt_capacity t)"
      by blast
    have "length (bt_nodes t') = 1" by (subst t'(5)) (simp add: n new_BPlusTree_def)
    moreover have "bt_capacity t' = 1" using t'(7) assms(1) by (simp add: n new_BPlusTree_def)
    ultimately show ?thesis using t' t(4) by auto
  next
    case False
    then have n: "\<not> bt_rootIdx t < 0" "length (bt_nodes t) = 1" "bt_capacity t = 1" using t(5) by auto
    from bt_insert_leaf [OF t(2) n(1) k c, of "f k"] n t(4) show ?thesis by auto
  qed
  then obtain t' where t': "bt_insert k (f k) t = Inr (True, t')" "leaf_tree t'" "entries t' = (entries t)(k \<mapsto> f k)"
    "bt_maxLeafKeys t' = order - 1" "bt_rootIdx t' \<ge> 0" "length (bt_nodes t') = 1" "bt_capacity t' = 1"
    by blast
  have "run_index_op (Ins k (f k)) t = Inr t'" using t'(1) by simp
  then have "foldE (\<lambda>k. run_index_op (Ins k (f k))) (ks @ [k]) (new_BPlusTree grow order) = Inr t'"
    using t(1) by (simp add: foldE_append del: run_index_op.simps)
  with t' t(3) show ?case by (auto simp del: run_index_op.simps)
qed

lemma split_dangling:
  assumes "grow 0 = 1" "1 < order" "distinct ks" "int (length ks) = order"
  shows "foldE (\<lambda>k. run_index_op (Ins k (f k))) ks (new_BPlusTree grow order) = Inl (UndefinedBehaviour ''dangling reference to the split leaf'')"
proof -
  obtain ks' k where ks: "ks = ks' @ [k]" using assms(2,4) by (cases ks rule: rev_cases) auto
  have "distinct ks'" "int (length ks') < order" "k \<notin> set ks'" using assms(3,4) ks by auto
  then obtain t where t: "foldE (\<lambda>k. run_index_op (Ins k (f k))) ks' (new_BPlusTree grow order) = Inr t" "leaf_tree t" "dom (entries t) = set ks'"
    "bt_maxLeafKeys t = order - 1" "ks' \<noteq> [] \<Longrightarrow> length (bt_nodes t) = 1 \<and> bt_capacity t = 1"
    using fill_fresh_tree [where ks = ks' and f = f and grow = grow, OF assms(1,2)] by (auto split: if_splits simp del: run_index_op.simps)
  have "entries t k = None" using t(3) \<open>k \<notin> set ks'\<close> by (auto simp: domIff)
  moreover have "bt_entryCount t = bt_maxLeafKeys t"
    using entryCount_card [OF t(2)] t(3,4) assms(4) ks \<open>distinct ks'\<close> by (simp add: distinct_card)
  moreover have "ks' \<noteq> []" using assms(2,4) ks by auto
  ultimately have "bt_insert k (f k) t = ub ''dangling reference to the split leaf''"
    using bt_insert_dangling [OF t(2)] t(5) by simp
  then have "run_index_op (Ins k (f k)) t = ub ''dangling reference to the split leaf''" by simp
  then show ?thesis using t(1) ks by (simp add: foldE_append del: run_index_op.simps)
qed

section \<open>Properties\<close>

text \<open>C10: Any sequence of insertions and removals on a new index that never holds more than \<open>order - 1\<close> keys
  runs without undefined behaviour, whatever the growth policy of the node vector, and implements a
  finite map: \<open>search\<close> finds exactly what the map holds, a second insertion of a key is ignored, and
  \<open>getSize\<close> is the number of keys.\<close>

theorem index_refines_map:
  assumes "1 < order" "fits (nat (order - 1)) ops Map.empty"
  shows "\<exists>t. foldE run_index_op ops (new_BPlusTree grow order) = Inr t \<and>
    (\<forall>k. bt_search t k = Inr (fold apply_op ops Map.empty k)) \<and> getSize t = int (card (dom (fold apply_op ops Map.empty)))"
proof -
  obtain t where t: "foldE run_index_op ops (new_BPlusTree grow order) = Inr t" "leaf_tree t" "entries t = fold apply_op ops Map.empty"
    by (rule run_history [OF assms])
  then show ?thesis using bt_search_spec [OF t(2)] entryCount_card [OF t(2)] by (auto simp: getSize_def)
qed

theorem index_refines_map_witness:
  "\<exists>t. foldE run_index_op [Ins 5 (RID 0 0), Ins 3 (RID 0 1), Ins 5 (RID 0 2), Del 3] (new_BPlusTree Suc 128) = Inr t \<and>
     bt_search t 5 = Inr (Some (RID 0 0)) \<and> bt_search t 3 = Inr None"
  using index_refines_map [of 128 "[Ins 5 (RID 0 0), Ins 3 (RID 0 1), Ins 5 (RID 0 2), Del 3]" Suc]
  by auto

text \<open>With the usual growth policy of \<open>std::vector\<close> (capacity 1 after the first element), inserting as
  many distinct keys as the order into a new index is undefined behaviour: the first leaf split goes
  on using a reference that \<open>allocateNode\<close> has invalidated.\<close>

theorem first_split_dangling:
  assumes "grow 0 = 1" "1 < order" "distinct ks" "int (length ks) = order"
  shows "foldE (\<lambda>k. run_index_op (Ins k (f k))) ks (new_BPlusTree grow order) = Inl (UndefinedBehaviour ''dangling reference to the split leaf'')"
  by (rule split_dangling) (rule assms)+

theorem first_split_dangling_witness:
  "foldE (\<lambda>k. run_index_op (Ins k (RID 0 0))) [1..128] (new_BPlusTree (\<lambda>n. max 1 (2 * n)) 128) =
     Inl (UndefinedBehaviour ''dangling reference to the split leaf'')"
  using first_split_dangling [of "\<lambda>n. max 1 (2 * n)" 128 "[1..128]" "\<lambda>_. RID 0 0"] by simp

end
