(* ===== verification/Executor.thy ===== *)
theory Executor
  imports StorageFrame TupleCodec Catalog BPlusTree
begin

text \<open>
  The query operators of \<open>src/query/Executor.cpp\<close> and \<open>Executor.h\<close>.

  The class hierarchy is the datatype \<open>Executor\<close>: one constructor per subclass with its fields as a
  record, the child executors as arguments.  The virtual functions are \<open>exec_init\<close>, \<open>exec_next\<close>
  and \<open>outputSchema\<close>.  \<open>ExecutionContext\<close> holds what its pointers lead to: the catalog, the storage
  behind the page manager, and the indexes.

  A filter calls \<open>next\<close> of its child in a loop, so \<open>exec_next\<close> has fuel; \<open>next_fuel\<close> is enough, which
  \<open>exec_next_spec\<close> shows.
\<close>

section \<open>State (Executor.h)\<close>

record ExecutionContext =
  ctx_catalog :: Catalog
  ctx_storage :: Storage
  ctx_indexes :: "string \<rightharpoonup> BPlusTree"

definition ctx_setIndex :: "string \<Rightarrow> BPlusTree \<Rightarrow> ExecutionContext \<Rightarrow> ExecutionContext" where
  "ctx_setIndex name tree ctx = ctx\<lparr>ctx_indexes := (ctx_indexes ctx)(name \<mapsto> tree)\<rparr>"

definition getIndex :: "string \<Rightarrow> ExecutionContext \<Rightarrow> BPlusTree option" where
  "getIndex name ctx = ctx_indexes ctx name"

text \<open>A \<open>std::function<bool(const Tuple &)>\<close>, which may be empty and may throw.\<close>

type_synonym predicate = "(Tuple \<Rightarrow> bool res) option"

record SeqScan =
  ss_tableName :: string
  ss_predicate :: predicate
  ss_schema :: Schema
  ss_fileId :: int
  ss_results :: "Tuple list"
  ss_currentIdx :: nat

record IndexScan =
  is_tableName :: string
  is_searchKey :: int
  is_schema :: Schema
  is_fileId :: int
  is_done :: bool
  is_resultRid :: RID

record InsertExec =
  ie_tableName :: string
  ie_values :: "Value list"
  ie_schema :: Schema
  ie_done :: bool

record DeleteExec =
  de_tableName :: string
  de_predicate :: predicate
  de_schema :: Schema
  de_fileId :: int
  de_done :: bool
  de_deletedCount :: int

record JoinState =
  jn_leftCol :: string
  jn_rightCol :: string
  jn_outputSchema :: Schema
  jn_leftTuples :: "Tuple list"
  jn_rightTuples :: "Tuple list"
  jn_joinResults :: "Tuple list"
  jn_currentIdx :: nat

record ProjState =
  pj_columns :: "string list"
  pj_outputSchema :: Schema
  pj_columnIndices :: "int list"

datatype Executor =
    SeqScanExecutor SeqScan
  | IndexScanExecutor IndexScan
  | InsertExecutor InsertExec
  | DeleteExecutor DeleteExec
  | NestedLoopJoinExecutor Executor Executor JoinState
  | FilterExecutor Executor predicate
  | ProjectionExecutor Executor ProjState

section \<open>Constructors\<close>

definition new_SeqScanExecutor :: "string \<Rightarrow> predicate \<Rightarrow> Executor" where
  "new_SeqScanExecutor name p = SeqScanExecutor \<lparr>ss_tableName = name, ss_predicate = p, ss_schema = [], ss_fileId = - 1,
     ss_results = [], ss_currentIdx = 0\<rparr>"

definition new_IndexScanExecutor :: "string \<Rightarrow> int \<Rightarrow> Executor" where
  "new_IndexScanExecutor name key = IndexScanExecutor \<lparr>is_tableName = name, is_searchKey = key, is_schema = [], is_fileId = - 1,
     is_done = False, is_resultRid = default_RID\<rparr>"

definition new_InsertExecutor :: "string \<Rightarrow> Value list \<Rightarrow> Executor" where
  "new_InsertExecutor name vs = InsertExecutor \<lparr>ie_tableName = name, ie_values = vs, ie_schema = [], ie_done = False\<rparr>"

definition new_DeleteExecutor :: "string \<Rightarrow> predicate \<Rightarrow> Executor" where
  "new_DeleteExecutor name p = DeleteExecutor \<lparr>de_tableName = name, de_predicate = p, de_schema = [], de_fileId = - 1,
     de_done = False, de_deletedCount = 0\<rparr>"

definition new_NestedLoopJoinExecutor :: "Executor \<Rightarrow> Executor \<Rightarrow> string \<Rightarrow> string \<Rightarrow> Executor" where
  "new_NestedLoopJoinExecutor l r lc rc = NestedLoopJoinExecutor l r \<lparr>jn_leftCol = lc, jn_rightCol = rc, jn_outputSchema = [],
     jn_leftTuples = [], jn_rightTuples = [], jn_joinResults = [], jn_currentIdx = 0\<rparr>"

definition new_FilterExecutor :: "Executor \<Rightarrow> predicate \<Rightarrow> Executor" where
  "new_FilterExecutor c p = FilterExecutor c p"

definition new_ProjectionExecutor :: "Executor \<Rightarrow> string list \<Rightarrow> Executor" where
  "new_ProjectionExecutor c cols = ProjectionExecutor c \<lparr>pj_columns = cols, pj_outputSchema = [], pj_columnIndices = []\<rparr>"

primrec outputSchema :: "Executor \<Rightarrow> Schema" where
  "outputSchema (SeqScanExecutor x) = ss_schema x"
| "outputSchema (IndexScanExecutor x) = is_schema x"
| "outputSchema (InsertExecutor x) = ie_schema x"
| "outputSchema (DeleteExecutor x) = de_schema x"
| "outputSchema (NestedLoopJoinExecutor l r x) = jn_outputSchema x"
| "outputSchema (FilterExecutor c p) = outputSchema c"
| "outputSchema (ProjectionExecutor c x) = pj_outputSchema x"

section \<open>next()\<close>

text \<open>\<open>tuple = results[currentIdx]\<close> of the operators that have their results at hand.\<close>

definition next_result :: "Tuple list \<Rightarrow> nat \<Rightarrow> (Tuple \<times> nat) option" where
  "next_result results idx = (if idx \<ge> length results then None else Some (results ! idx, idx + 1))"

definition apply_predicate :: "predicate \<Rightarrow> Tuple \<Rightarrow> bool res" where
  "apply_predicate p t = (case p of None \<Rightarrow> Inl BadFunctionCall | Some f \<Rightarrow> f t)"

text \<open>\<open>!predicate_ || predicate_(tuple)\<close>\<close>

definition passes :: "predicate \<Rightarrow> Tuple \<Rightarrow> bool res" where
  "passes p t = (case p of None \<Rightarrow> Inr True | Some f \<Rightarrow> f t)"

text \<open>An index taken from an \<open>int\<close>: the conversion to \<open>size_t\<close> puts a negative one out of range.\<close>

definition getValue_int :: "Tuple \<Rightarrow> int \<Rightarrow> Value res" where
  "getValue_int t i = (if i < 0 then Inl (OutOfRange ''Tuple index out of range'') else getValue t (nat i))"

fun project_tuple :: "int list \<Rightarrow> Tuple \<Rightarrow> Tuple res" where
  "project_tuple [] t = Inr []"
| "project_tuple (i # is) t = bindE (getValue_int t i) (\<lambda>v. bindE (project_tuple is t) (\<lambda>vs. Inr (v # vs)))"

definition seqscan_next :: "SeqScan \<Rightarrow> Tuple option \<times> SeqScan" where
  "seqscan_next x = (case next_result (ss_results x) (ss_currentIdx x) of
      None \<Rightarrow> (None, x)
    | Some (t, i) \<Rightarrow> (Some t, x\<lparr>ss_currentIdx := i\<rparr>))"

text \<open>\<open>next\<close> of an index scan has no context to read the row with and gives up.\<close>

definition indexscan_next :: "IndexScan \<Rightarrow> Tuple option \<times> IndexScan" where
  "indexscan_next x = (if is_done x then (None, x) else (None, x\<lparr>is_done := True\<rparr>))"

definition insert_next :: "InsertExec \<Rightarrow> Tuple option \<times> InsertExec" where
  "insert_next x = (if ie_done x then (None, x) else (Some (ie_values x), x\<lparr>ie_done := True\<rparr>))"

definition delete_next :: "DeleteExec \<Rightarrow> Tuple option \<times> DeleteExec" where
  "delete_next x = (if de_done x then (None, x) else (Some [IntValue (de_deletedCount x)], x\<lparr>de_done := True\<rparr>))"

definition join_next :: "JoinState \<Rightarrow> Tuple option \<times> JoinState" where
  "join_next x = (case next_result (jn_joinResults x) (jn_currentIdx x) of
      None \<Rightarrow> (None, x)
    | Some (t, i) \<Rightarrow> (Some t, x\<lparr>jn_currentIdx := i\<rparr>))"

lemmas next_defs [simp] = seqscan_next_def indexscan_next_def insert_next_def delete_next_def join_next_def

fun exec_next :: "nat \<Rightarrow> Executor \<Rightarrow> (Tuple option \<times> Executor) res" where
  "exec_next 0 e = Inl OutOfFuel"
| "exec_next (Suc n) (SeqScanExecutor x) = (case seqscan_next x of (r, x) \<Rightarrow> Inr (r, SeqScanExecutor x))"
| "exec_next (Suc n) (IndexScanExecutor x) = (case indexscan_next x of (r, x) \<Rightarrow> Inr (r, IndexScanExecutor x))"
| "exec_next (Suc n) (InsertExecutor x) = (case insert_next x of (r, x) \<Rightarrow> Inr (r, InsertExecutor x))"
| "exec_next (Suc n) (DeleteExecutor x) = (case delete_next x of (r, x) \<Rightarrow> Inr (r, DeleteExecutor x))"
| "exec_next (Suc n) (NestedLoopJoinExecutor l r x) = (case join_next x of (t, x) \<Rightarrow> Inr (t, NestedLoopJoinExecutor l r x))"
| "exec_next (Suc n) (FilterExecutor c p) =
     bindE (exec_next n c) (\<lambda>(r, c). case r of
        None \<Rightarrow> Inr (None, FilterExecutor c p)
      | Some t \<Rightarrow> bindE (apply_predicate p t) (\<lambda>b.
          if b then Inr (Some t, FilterExecutor c p) else exec_next n (FilterExecutor c p)))"
| "exec_next (Suc n) (ProjectionExecutor c x) =
     bindE (exec_next n c) (\<lambda>(r, c). case r of
        None \<Rightarrow> Inr (None, ProjectionExecutor c x)
      | Some t \<Rightarrow> bindE (project_tuple (pj_columnIndices x) t) (\<lambda>t. Inr (Some t, ProjectionExecutor c x)))"

text \<open>How many tuples an executor may still give, and how deep it is.\<close>

primrec remaining :: "Executor \<Rightarrow> nat" where
  "remaining (SeqScanExecutor x) = length (ss_results x) - ss_currentIdx x"
| "remaining (IndexScanExecutor x) = 0"
| "remaining (InsertExecutor x) = (if ie_done x then 0 else 1)"
| "remaining (DeleteExecutor x) = (if de_done x then 0 else 1)"
| "remaining (NestedLoopJoinExecutor l r x) = length (jn_joinResults x) - jn_currentIdx x"
| "remaining (FilterExecutor c p) = remaining c"
| "remaining (ProjectionExecutor c x) = remaining c"

primrec depth :: "Executor \<Rightarrow> nat" where
  "depth (SeqScanExecutor x) = 1"
| "depth (IndexScanExecutor x) = 1"
| "depth (InsertExecutor x) = 1"
| "depth (DeleteExecutor x) = 1"
| "depth (NestedLoopJoinExecutor l r x) = 1"
| "depth (FilterExecutor c p) = Suc (depth c)"
| "depth (ProjectionExecutor c x) = Suc (depth c)"

definition next_fuel :: "Executor \<Rightarrow> nat" where
  "next_fuel e = depth e + remaining e"

definition next_tuple :: "Executor \<Rightarrow> (Tuple option \<times> Executor) res" where
  "next_tuple e = exec_next (next_fuel e) e"

text \<open>\<open>while (e->next(t)) out.push_back(t)\<close>\<close>

fun drain :: "nat \<Rightarrow> Executor \<Rightarrow> (Tuple list \<times> Executor) res" where
  "drain 0 e = Inl OutOfFuel"
| "drain (Suc n) e = bindE (next_tuple e) (\<lambda>(r, e). case r of
      None \<Rightarrow> Inr ([], e)
    | Some t \<Rightarrow> bindE (drain n e) (\<lambda>(ts, e). Inr (t # ts, e)))"

definition drain_all :: "Executor \<Rightarrow> (Tuple list \<times> Executor) res" where
  "drain_all e = drain (Suc (remaining e)) e"


section \<open>init()\<close>

definition find_table :: "string \<Rightarrow> string \<Rightarrow> ExecutionContext \<Rightarrow> TableInfo res" where
  "find_table op name ctx = (case getTable name (ctx_catalog ctx) of
      None \<Rightarrow> Inl (RuntimeError (op @ '': table not found: '' @ name))
    | Some info \<Rightarrow> Inr info)"

text \<open>The callback of the scans: deserialize, test, and do something with a tuple that passes.\<close>

definition scan_callback :: "Schema \<Rightarrow> predicate \<Rightarrow> (RID \<Rightarrow> Tuple \<Rightarrow> 'c \<Rightarrow> 'c res) \<Rightarrow> RID \<Rightarrow> byte list \<Rightarrow> nat \<Rightarrow> 'c \<Rightarrow> (bool \<times> 'c) res" where
  "scan_callback sch p act rid bytes len acc =
     bindE (deserializeTuple bytes len sch) (\<lambda>t. bindE (passes p t) (\<lambda>b.
     if b then bindE (act rid t acc) (\<lambda>acc. Inr (True, acc)) else Inr (True, acc)))"

definition with_storage :: "(Storage \<Rightarrow> ('a \<times> Storage) res) \<Rightarrow> ExecutionContext \<Rightarrow> ('a \<times> ExecutionContext) res" where
  "with_storage g ctx = bindE (g (ctx_storage ctx)) (\<lambda>(x, s). Inr (x, ctx\<lparr>ctx_storage := s\<rparr>))"

definition seqscan_init :: "SeqScan \<Rightarrow> ExecutionContext \<Rightarrow> (SeqScan \<times> ExecutionContext) res" where
  "seqscan_init x ctx =
     bindE (find_table ''SeqScan'' (ss_tableName x) ctx) (\<lambda>info.
     bindE (with_storage (scanTable (ti_fileId info)
              (scan_callback (ti_schema info) (ss_predicate x) (\<lambda>rid t acc. Inr (acc @ [t]))) []) ctx) (\<lambda>(results, ctx).
     Inr (x\<lparr>ss_schema := ti_schema info, ss_fileId := ti_fileId info, ss_currentIdx := 0, ss_results := results\<rparr>, ctx)))"

definition indexscan_init :: "IndexScan \<Rightarrow> ExecutionContext \<Rightarrow> (IndexScan \<times> ExecutionContext) res" where
  "indexscan_init x ctx =
     bindE (find_table ''IndexScan'' (is_tableName x) ctx) (\<lambda>info.
     let x = x\<lparr>is_schema := ti_schema info, is_fileId := ti_fileId info, is_done := False\<rparr> in
     case getIndex (is_tableName x) ctx of
       None \<Rightarrow> Inr (x\<lparr>is_done := True\<rparr>, ctx)
     | Some tree \<Rightarrow> bindE (bt_search tree (is_searchKey x)) (\<lambda>r. case r of
           None \<Rightarrow> Inr (x\<lparr>is_done := True\<rparr>, ctx)
         | Some rid \<Rightarrow> Inr (x\<lparr>is_resultRid := rid\<rparr>, ctx)))"

text \<open>\<open>tree->insert\<close> for a first value of type INT; its result is dropped.\<close>

definition index_insert :: "string \<Rightarrow> Value list \<Rightarrow> RID \<Rightarrow> ExecutionContext \<Rightarrow> ExecutionContext res" where
  "index_insert name vs rid ctx = (case getIndex name ctx of
      None \<Rightarrow> Inr ctx
    | Some tree \<Rightarrow>
        if vs \<noteq> [] \<and> value_type (hd vs) = DT_INT
        then bindE (asInt (hd vs)) (\<lambda>k. bindE (bt_insert k rid tree) (\<lambda>(_, tree). Inr (ctx_setIndex name tree ctx)))
        else Inr ctx)"

definition insert_init :: "InsertExec \<Rightarrow> ExecutionContext \<Rightarrow> (InsertExec \<times> ExecutionContext) res" where
  "insert_init x ctx =
     bindE (find_table ''Insert'' (ie_tableName x) ctx) (\<lambda>info.
     let bytes = serializeTuple (ie_values x) (ti_schema info) in
     bindE (with_storage (insertTuple (ti_fileId info) bytes (to_u16 (length bytes))) ctx) (\<lambda>(rid, ctx).
     bindE (index_insert (ie_tableName x) (ie_values x) rid ctx) (\<lambda>ctx.
     Inr (x\<lparr>ie_schema := ti_schema info, ie_done := False\<rparr>,
          ctx\<lparr>ctx_catalog := modifyTable (ie_tableName x) (\<lambda>i. i\<lparr>ti_rowCount := to_u32 (ti_rowCount i + 1)\<rparr>) (ctx_catalog ctx)\<rparr>))))"

text \<open>The key under which a row is deleted from the index: -1 where the first value is not an integer.\<close>

definition row_pk :: "Tuple \<Rightarrow> int res" where
  "row_pk t = (if t \<noteq> [] \<and> value_type (hd t) = DT_INT then asInt (hd t) else Inr (- 1))"

definition index_remove :: "string \<Rightarrow> int \<Rightarrow> ExecutionContext \<Rightarrow> ExecutionContext res" where
  "index_remove name pk ctx = (case getIndex name ctx of
      None \<Rightarrow> Inr ctx
    | Some tree \<Rightarrow>
        if pk \<ge> 0 then bindE (bt_remove pk tree) (\<lambda>(_, tree). Inr (ctx_setIndex name tree ctx)) else Inr ctx)"

text \<open>The loop over the rows to delete; \<open>deletedCount_++\<close> overflows at the largest \<open>int\<close>.\<close>

fun delete_rows :: "string \<Rightarrow> int \<Rightarrow> (RID \<times> int) list \<Rightarrow> int \<Rightarrow> ExecutionContext \<Rightarrow> (int \<times> ExecutionContext) res" where
  "delete_rows name f [] n ctx = Inr (n, ctx)"
| "delete_rows name f ((rid, pk) # xs) n ctx =
     bindE (deleteTuple f rid (ctx_storage ctx)) (\<lambda>s.
     bindE (index_remove name pk (ctx\<lparr>ctx_storage := s\<rparr>)) (\<lambda>ctx.
     bindE (requireE (in_int32 (n + 1)) (UndefinedBehaviour ''signed overflow'')) (\<lambda>_.
     delete_rows name f xs (n + 1) ctx)))"

definition subtract_rows :: "int \<Rightarrow> TableInfo \<Rightarrow> TableInfo" where
  "subtract_rows n i = i\<lparr>ti_rowCount := (if nat n \<le> ti_rowCount i then ti_rowCount i - nat n else 0)\<rparr>"

definition delete_init :: "DeleteExec \<Rightarrow> ExecutionContext \<Rightarrow> (DeleteExec \<times> ExecutionContext) res" where
  "delete_init x ctx =
     bindE (find_table ''Delete'' (de_tableName x) ctx) (\<lambda>info.
     bindE (with_storage (scanTable (ti_fileId info)
              (scan_callback (ti_schema info) (de_predicate x) (\<lambda>rid t acc. bindE (row_pk t) (\<lambda>pk. Inr (acc @ [(rid, pk)])))) []) ctx) (\<lambda>(toDelete, ctx).
     bindE (delete_rows (de_tableName x) (ti_fileId info) toDelete 0 ctx) (\<lambda>(n, ctx).
     Inr (x\<lparr>de_schema := ti_schema info, de_fileId := ti_fileId info, de_done := False, de_deletedCount := n\<rparr>,
          ctx\<lparr>ctx_catalog := modifyTable (de_tableName x) (subtract_rows n) (ctx_catalog ctx)\<rparr>))))"

text \<open>The two nested loops of the join.\<close>

fun join_inner :: "int \<Rightarrow> int \<Rightarrow> Tuple \<Rightarrow> Tuple list \<Rightarrow> Tuple list \<Rightarrow> Tuple list res" where
  "join_inner li ri l [] acc = Inr acc"
| "join_inner li ri l (r # rs) acc =
     bindE (getValue_int l li) (\<lambda>v. bindE (getValue_int r ri) (\<lambda>w.
     join_inner li ri l rs (if value_eq v w then acc @ [l @ r] else acc)))"

fun join_outer :: "int \<Rightarrow> int \<Rightarrow> Tuple list \<Rightarrow> Tuple list \<Rightarrow> Tuple list \<Rightarrow> Tuple list res" where
  "join_outer li ri [] rs acc = Inr acc"
| "join_outer li ri (l # ls) rs acc = bindE (join_inner li ri l rs acc) (\<lambda>acc. join_outer li ri ls rs acc)"

definition join_tuples :: "Executor \<Rightarrow> Executor \<Rightarrow> JoinState \<Rightarrow> (Executor \<times> Executor \<times> JoinState) res" where
  "join_tuples l r x =
     bindE (drain_all l) (\<lambda>(lts, l). bindE (drain_all r) (\<lambda>(rts, r).
     let li = findColumn (outputSchema l) (jn_leftCol x); ri = findColumn (outputSchema r) (jn_rightCol x) in
     if li < 0 \<or> ri < 0 then Inl (RuntimeError ''Join: column not found for join predicate'')
     else bindE (join_outer li ri lts rts []) (\<lambda>res.
       Inr (l, r, x\<lparr>jn_leftTuples := lts, jn_rightTuples := rts, jn_joinResults := res, jn_currentIdx := 0,
              jn_outputSchema := jn_outputSchema x @ outputSchema l @ outputSchema r\<rparr>))))"

text \<open>The loop of \<open>ProjectionExecutor::init\<close> over the column names; the output schema is extended, not reset.\<close>

fun project_columns :: "Schema \<Rightarrow> string list \<Rightarrow> (int list \<times> Schema) res" where
  "project_columns sch [] = Inr ([], [])"
| "project_columns sch (c # cs) =
     (let idx = findColumn sch c in
      if idx < 0 then Inl (RuntimeError (''Projection: column not found: '' @ c))
      else bindE (getColumn sch (nat idx)) (\<lambda>col. bindE (project_columns sch cs) (\<lambda>(is, out). Inr (idx # is, col # out))))"

primrec exec_init :: "Executor \<Rightarrow> ExecutionContext \<Rightarrow> (Executor \<times> ExecutionContext) res" where
  "exec_init (SeqScanExecutor x) ctx = bindE (seqscan_init x ctx) (\<lambda>(x, ctx). Inr (SeqScanExecutor x, ctx))"
| "exec_init (IndexScanExecutor x) ctx = bindE (indexscan_init x ctx) (\<lambda>(x, ctx). Inr (IndexScanExecutor x, ctx))"
| "exec_init (InsertExecutor x) ctx = bindE (insert_init x ctx) (\<lambda>(x, ctx). Inr (InsertExecutor x, ctx))"
| "exec_init (DeleteExecutor x) ctx = bindE (delete_init x ctx) (\<lambda>(x, ctx). Inr (DeleteExecutor x, ctx))"
| "exec_init (NestedLoopJoinExecutor l r x) ctx =
     bindE (exec_init l ctx) (\<lambda>(l, ctx). bindE (exec_init r ctx) (\<lambda>(r, ctx).
     bindE (join_tuples l r x) (\<lambda>(l, r, x). Inr (NestedLoopJoinExecutor l r x, ctx))))"
| "exec_init (FilterExecutor c p) ctx = bindE (exec_init c ctx) (\<lambda>(c, ctx). Inr (FilterExecutor c p, ctx))"
| "exec_init (ProjectionExecutor c x) ctx =
     bindE (exec_init c ctx) (\<lambda>(c, ctx).
     bindE (project_columns (outputSchema c) (pj_columns x)) (\<lambda>(is, out).
     Inr (ProjectionExecutor c (x\<lparr>pj_columnIndices := is, pj_outputSchema := pj_outputSchema x @ out\<rparr>), ctx)))"


section \<open>What an executor still gives\<close>

fun filterE :: "('a \<Rightarrow> bool res) \<Rightarrow> 'a list \<Rightarrow> 'a list res" where
  "filterE p [] = Inr []"
| "filterE p (x # xs) = bindE (p x) (\<lambda>b. bindE (filterE p xs) (\<lambda>ys. Inr (if b then x # ys else ys)))"

lemma filterE_pure: "(\<And>x. x \<in> set xs \<Longrightarrow> p x = Inr (q x)) \<Longrightarrow> filterE p xs = Inr (filter q xs)"
  by (induction xs) simp_all

lemma project_tuple_mapE: "project_tuple is t = mapE (getValue_int t) is"
  by (induction "is") simp_all

text \<open>The tuples that calls of \<open>next\<close> will give, as a list computed at once.\<close>

primrec rows :: "Executor \<Rightarrow> Tuple list res" where
  "rows (SeqScanExecutor x) = Inr (drop (ss_currentIdx x) (ss_results x))"
| "rows (IndexScanExecutor x) = Inr []"
| "rows (InsertExecutor x) = Inr (if ie_done x then [] else [ie_values x])"
| "rows (DeleteExecutor x) = Inr (if de_done x then [] else [[IntValue (de_deletedCount x)]])"
| "rows (NestedLoopJoinExecutor l r x) = Inr (drop (jn_currentIdx x) (jn_joinResults x))"
| "rows (FilterExecutor c p) = bindE (rows c) (filterE (apply_predicate p))"
| "rows (ProjectionExecutor c x) = bindE (rows c) (mapE (project_tuple (pj_columnIndices x)))"

definition head :: "'a list \<Rightarrow> 'a option" where
  "head xs = (case xs of [] \<Rightarrow> None | x # _ \<Rightarrow> Some x)"

lemma head_simps [simp]: "head [] = None" "head (x # xs) = Some x"
  by (simp_all add: head_def)

lemma next_result_drop:
  "drop i xs = [] \<Longrightarrow> next_result xs i = None"
  "drop i xs = y # ys \<Longrightarrow> next_result xs i = Some (y, i + 1) \<and> drop (i + 1) xs = ys \<and> i < length xs"
proof -
  show "drop i xs = [] \<Longrightarrow> next_result xs i = None" by (simp add: next_result_def)
  assume d: "drop i xs = y # ys"
  then have "i < length xs" by (metis drop_eq_Nil list.distinct(1) not_le)
  moreover have "xs ! i = y" "drop (Suc i) xs = ys" using d Cons_nth_drop_Suc [OF calculation] by auto
  ultimately show "next_result xs i = Some (y, i + 1) \<and> drop (i + 1) xs = ys \<and> i < length xs" by (simp add: next_result_def)
qed

text \<open>What one call of \<open>next\<close> does, for enough fuel.\<close>

definition next_spec :: "nat \<Rightarrow> Executor \<Rightarrow> Tuple list \<Rightarrow> bool" where
  "next_spec n e ts \<longleftrightarrow> (\<exists>e'. exec_next n e = Inr (head ts, e') \<and> rows e' = Inr (tl ts) \<and> depth e' = depth e \<and>
     outputSchema e' = outputSchema e \<and> (if ts = [] then remaining e' \<le> remaining e else remaining e' < remaining e))"

lemma next_specI:
  assumes "exec_next n e = Inr (head ts, e')" "rows e' = Inr (tl ts)" "depth e' = depth e" "outputSchema e' = outputSchema e"
    "remaining e' \<le> remaining e" "ts \<noteq> [] \<Longrightarrow> remaining e' < remaining e"
  shows "next_spec n e ts"
  unfolding next_spec_def using assms by (intro exI [of _ e']) simp

lemma next_specE:
  assumes "next_spec n e ts"
  obtains e' where "exec_next n e = Inr (head ts, e')" "rows e' = Inr (tl ts)" "depth e' = depth e"
    "outputSchema e' = outputSchema e" "remaining e' \<le> remaining e" "ts = [] \<or> remaining e' < remaining e"
  using assms unfolding next_spec_def by (elim exE conjE) (rule that; simp split: if_splits)

lemma next_spec_filter:
  assumes c: "\<And>n c ts. rows c = Inr ts \<Longrightarrow> next_fuel c \<le> n \<Longrightarrow> n < Suc m \<Longrightarrow> next_spec n c ts"
    and r: "rows (FilterExecutor c p) = Inr ts" and f: "next_fuel (FilterExecutor c p) \<le> Suc m"
  shows "next_spec (Suc m) (FilterExecutor c p) ts"
proof -
  obtain us where us: "rows c = Inr us" "filterE (apply_predicate p) us = Inr ts" using r by (auto elim: bindE_InrE)
  have "next_fuel c \<le> m" using f by (simp add: next_fuel_def)
  then have "next_spec m c us" by (intro c us(1)) simp_all
  then obtain c' where c': "exec_next m c = Inr (head us, c')" "rows c' = Inr (tl us)" "depth c' = depth c"
    "outputSchema c' = outputSchema c" "remaining c' \<le> remaining c" "us = [] \<or> remaining c' < remaining c"
    by (rule next_specE)
  show ?thesis
  proof (cases us)
    case Nil
    then show ?thesis using us(2) c' by (intro next_specI [of _ _ _ "FilterExecutor c' p"]) simp_all
  next
    case (Cons u vs)
    obtain b ys where b: "apply_predicate p u = Inr b" "filterE (apply_predicate p) vs = Inr ys" "ts = (if b then u # ys else ys)"
      using us(2) Cons by (auto elim!: bindE_InrE)
    show ?thesis
    proof (cases b)
      case True
      then show ?thesis using b c' Cons by (intro next_specI [of _ _ _ "FilterExecutor c' p"]) simp_all
    next
      case False
      have r': "rows (FilterExecutor c' p) = Inr ts" using c'(2) b False Cons by simp
      have "next_fuel (FilterExecutor c' p) \<le> m" using f c'(3,6) Cons by (simp add: next_fuel_def)
      then have "next_spec m (FilterExecutor c' p) ts" by (intro c r') simp_all
      then obtain e' where e': "exec_next m (FilterExecutor c' p) = Inr (head ts, e')" "rows e' = Inr (tl ts)"
        "depth e' = depth (FilterExecutor c' p)" "outputSchema e' = outputSchema (FilterExecutor c' p)"
        "remaining e' \<le> remaining (FilterExecutor c' p)"
        by (rule next_specE)
      have "remaining c' < remaining c" using c'(6) Cons by simp
      then show ?thesis using b(1) False c'(1,3,4) e' Cons by (intro next_specI [of _ _ _ e']) simp_all
    qed
  qed
qed

lemma next_spec_project:
  assumes c: "next_spec m c us" and us: "rows c = Inr us" "mapE (project_tuple (pj_columnIndices x)) us = Inr ts"
  shows "next_spec (Suc m) (ProjectionExecutor c x) ts"
proof -
  from c obtain c' where c': "exec_next m c = Inr (head us, c')" "rows c' = Inr (tl us)" "depth c' = depth c"
    "remaining c' \<le> remaining c" "us = [] \<or> remaining c' < remaining c"
    by (rule next_specE)
  show ?thesis
  proof (cases us)
    case Nil
    then show ?thesis using us(2) c' by (intro next_specI [of _ _ _ "ProjectionExecutor c' x"]) simp_all
  next
    case (Cons u vs)
    then obtain y ys where "project_tuple (pj_columnIndices x) u = Inr y" "mapE (project_tuple (pj_columnIndices x)) vs = Inr ys" "ts = y # ys"
      using us(2) by (auto elim!: bindE_InrE)
    then show ?thesis using c' Cons by (intro next_specI [of _ _ _ "ProjectionExecutor c' x"]) simp_all
  qed
qed

lemma exec_next_spec: "rows e = Inr ts \<Longrightarrow> next_fuel e \<le> n \<Longrightarrow> next_spec n e ts"
proof (induction n arbitrary: e ts rule: less_induct)
  case (less n)
  have "0 < depth e" by (induction e) simp_all
  then obtain m where n: "n = Suc m" using less.prems(2) by (cases n) (auto simp: next_fuel_def)
  note IH = less.IH [unfolded n]
  show ?case
  proof (cases e)
    case (SeqScanExecutor x)
    show ?thesis
    proof (cases ts)
      case Nil
      then show ?thesis using less.prems(1) SeqScanExecutor n by (intro next_specI [of _ _ _ e]) (simp_all add: next_result_drop(1))
    next
      case (Cons t us)
      then have "drop (ss_currentIdx x) (ss_results x) = t # us" using less.prems(1) SeqScanExecutor by simp
      with next_result_drop(2) [OF this] diff_less_mono2 [OF lessI] Cons show ?thesis unfolding SeqScanExecutor n
        by (intro next_specI [of _ _ _ "SeqScanExecutor (x\<lparr>ss_currentIdx := ss_currentIdx x + 1\<rparr>)"]) simp_all
    qed
  next
    case (NestedLoopJoinExecutor l r x)
    show ?thesis
    proof (cases ts)
      case Nil
      then show ?thesis using less.prems(1) NestedLoopJoinExecutor n by (intro next_specI [of _ _ _ e]) (simp_all add: next_result_drop(1))
    next
      case (Cons t us)
      then have "drop (jn_currentIdx x) (jn_joinResults x) = t # us" using less.prems(1) NestedLoopJoinExecutor by simp
      with next_result_drop(2) [OF this] diff_less_mono2 [OF lessI] Cons show ?thesis unfolding NestedLoopJoinExecutor n
        by (intro next_specI [of _ _ _ "NestedLoopJoinExecutor l r (x\<lparr>jn_currentIdx := jn_currentIdx x + 1\<rparr>)"]) simp_all
    qed
  next
    case (IndexScanExecutor x)
    then show ?thesis using less.prems(1) n by (intro next_specI [of _ _ _ "IndexScanExecutor (x\<lparr>is_done := True\<rparr>)"]) auto
  next
    case (InsertExecutor x)
    then show ?thesis using less.prems(1) n by (intro next_specI [of _ _ _ "InsertExecutor (x\<lparr>ie_done := True\<rparr>)"]) (auto split: if_splits)
  next
    case (DeleteExecutor x)
    then show ?thesis using less.prems(1) n by (intro next_specI [of _ _ _ "DeleteExecutor (x\<lparr>de_done := True\<rparr>)"]) (auto split: if_splits)
  next
    case (FilterExecutor c p)
    show ?thesis unfolding n FilterExecutor
      by (rule next_spec_filter) (use IH less.prems n FilterExecutor in auto)
  next
    case (ProjectionExecutor c x)
    then obtain us where us: "rows c = Inr us" "mapE (project_tuple (pj_columnIndices x)) us = Inr ts"
      using less.prems(1) by (auto elim: bindE_InrE)
    have "next_fuel c \<le> m" using less.prems(2) ProjectionExecutor n by (simp add: next_fuel_def)
    then show ?thesis unfolding n ProjectionExecutor using us IH [of m c us] by (intro next_spec_project) auto
  qed
qed


section \<open>The interface of an iterator\<close>

text \<open>What a client of \<open>next\<close> relies on: it gives the tuples of a fixed list one after the other, then none,
  and a loop until none collects that list.\<close>

locale iterator =
  fixes step :: "'e \<Rightarrow> ('t option \<times> 'e) res"
    and content :: "'e \<Rightarrow> 't list res"
    and bound :: "'e \<Rightarrow> nat"
    and shape :: "'e \<Rightarrow> 's"
    and loop :: "nat \<Rightarrow> 'e \<Rightarrow> ('t list \<times> 'e) res"
  assumes step_law: "content e = Inr ts \<Longrightarrow>
      \<exists>e'. step e = Inr (head ts, e') \<and> content e' = Inr (tl ts) \<and> shape e' = shape e \<and> (ts = [] \<or> bound e' < bound e)"
    and loop_law: "loop (Suc n) e = bindE (step e) (\<lambda>(r, e). case r of
      None \<Rightarrow> Inr ([], e) | Some t \<Rightarrow> bindE (loop n e) (\<lambda>(ts, e). Inr (t # ts, e)))"
begin

lemma loop_collects:
  assumes "content e = Inr ts" "bound e < n"
  shows "\<exists>e'. loop n e = Inr (ts, e') \<and> content e' = Inr [] \<and> shape e' = shape e"
  using assms
proof (induction ts arbitrary: e n)
  case Nil
  then obtain m where n: "n = Suc m" by (cases n) simp_all
  from step_law [OF Nil(1)] show ?case by (auto simp: n loop_law)
next
  case (Cons t ts)
  then obtain m where n: "n = Suc m" by (cases n) simp_all
  from step_law [OF Cons.prems(1)] obtain e' where e': "step e = Inr (Some t, e')" "content e' = Inr ts" "shape e' = shape e" "bound e' < bound e"
    by auto
  with Cons.IH [OF e'(2), of m] Cons.prems(2) show ?case by (auto simp: n loop_law)
qed

lemma content_bounded: "content e = Inr ts \<Longrightarrow> length ts \<le> bound e"
proof (induction ts arbitrary: e)
  case (Cons t ts)
  from step_law [OF Cons.prems] obtain e' where "content e' = Inr ts" "bound e' < bound e" by auto
  with Cons.IH [of e'] show ?case by simp
qed simp

end

interpretation it: iterator next_tuple rows remaining outputSchema drain
proof (unfold_locales, goal_cases)
  case (1 e ts)
  then show ?case by (rule next_specE [OF exec_next_spec, of e ts "next_fuel e"]) (auto simp: next_tuple_def)
qed simp

lemma drain_all_rows:
  assumes "rows e = Inr ts"
  obtains e' where "drain_all e = Inr (ts, e')" "rows e' = Inr []" "outputSchema e' = outputSchema e"
  using it.loop_collects [OF assms, of "Suc (remaining e)"] unfolding drain_all_def by blast

section \<open>Joins\<close>

text \<open>The join as a comprehension.\<close>

definition join_spec :: "nat \<Rightarrow> nat \<Rightarrow> Tuple list \<Rightarrow> Tuple list \<Rightarrow> Tuple list" where
  "join_spec i j ls rs = concat (map (\<lambda>l. map (\<lambda>r. l @ r) (filter (\<lambda>r. l ! i = r ! j) rs)) ls)"

lemma getValue_int_nat [simp]: "i < length t \<Longrightarrow> getValue_int t (int i) = Inr (t ! i)"
  by (simp add: getValue_int_def getValue_def)

lemma join_inner_spec:
  "i < length l \<Longrightarrow> list_all (\<lambda>r. j < length r) rs \<Longrightarrow>
     join_inner (int i) (int j) l rs acc = Inr (acc @ map (\<lambda>r. l @ r) (filter (\<lambda>r. l ! i = r ! j) rs))"
  by (induction rs arbitrary: acc) simp_all

lemma join_outer_spec:
  "list_all (\<lambda>l. i < length l) ls \<Longrightarrow> list_all (\<lambda>r. j < length r) rs \<Longrightarrow>
     join_outer (int i) (int j) ls rs acc = Inr (acc @ join_spec i j ls rs)"
  by (induction ls arbitrary: acc) (simp_all add: join_inner_spec join_spec_def)


section \<open>Properties\<close>

text \<open>C15: calling \<open>next\<close> until it returns false ends on every tree of operators, within as many calls as there
  are source tuples, and gives exactly the tuples the tree stands for: the results of a scan or join from
  the current position on, filtered and projected by the operators above.  Afterwards \<open>next\<close> keeps returning
  false.\<close>

theorem executor_gives_rows:
  assumes "rows e = Inr ts"
  shows "\<exists>e' e''. drain_all e = Inr (ts, e') \<and> next_tuple e' = Inr (None, e'') \<and> rows e'' = Inr [] \<and> length ts \<le> remaining e \<and>
    outputSchema e' = outputSchema e"
proof -
  obtain e' where e': "drain_all e = Inr (ts, e')" "rows e' = Inr []" "outputSchema e' = outputSchema e"
    by (rule drain_all_rows [OF assms])
  from it.step_law [OF e'(2)] it.content_bounded [OF assms] e' show ?thesis by auto
qed

definition two_rows :: Executor where
  "two_rows = ProjectionExecutor (FilterExecutor
     (SeqScanExecutor \<lparr>ss_tableName = ''t'', ss_predicate = None, ss_schema = [], ss_fileId = 1,
        ss_results = [[IntValue 1, TextValue ''a''], [IntValue 2, TextValue ''b''], [IntValue 3, TextValue ''a'']], ss_currentIdx = 0\<rparr>)
     (Some (\<lambda>t. bindE (getValue t 1) (\<lambda>v. Inr (v = TextValue ''a'')))))
     \<lparr>pj_columns = [''id''], pj_outputSchema = [], pj_columnIndices = [0]\<rparr>"

theorem executor_gives_rows_witness:
  "\<exists>e'. drain_all two_rows = Inr ([[IntValue 1], [IntValue 3]], e')"
proof -
  have "rows two_rows = Inr [[IntValue 1], [IntValue 3]]"
    by (simp add: two_rows_def apply_predicate_def getValue_def getValue_int_def)
  from executor_gives_rows [OF this] show ?thesis by blast
qed

end
