(* ===== verification/TableRows.thy ===== *)
theory TableRows
  imports Executor
begin

text \<open>
  What the query operators of \<open>src/query/Executor.cpp\<close> do to tables.  A table is the list of its rows,
  decoded from the heap file in the order a scan meets them (\<open>table_rows\<close>).  A scan gives the rows that
  pass, an insertion adds one row, a deletion removes those that pass, and no other table
  changes; the index follows as a map.  \<open>ctx_inv\<close> is the invariant of the execution context.
\<close>

section \<open>Tables as lists of tuples\<close>

definition decode :: "Schema \<Rightarrow> byte list \<Rightarrow> Tuple" where
  "decode sch bytes = (case deserializeTuple bytes (length bytes) sch of Inl _ \<Rightarrow> [] | Inr t \<Rightarrow> t)"

definition row_ok :: "Schema \<Rightarrow> Tuple \<Rightarrow> bool" where
  "row_ok sch t \<longleftrightarrow> t \<noteq> [] \<and> storable t \<and> well_typed t sch"

definition stored_ok :: "Schema \<Rightarrow> byte list \<Rightarrow> bool" where
  "stored_ok sch bytes \<longleftrightarrow> row_ok sch (decode sch bytes) \<and> bytes = serializeTuple (decode sch bytes) sch"

lemma deserialize_row: "row_ok sch t \<Longrightarrow> deserializeTuple (serializeTuple t sch @ rest) (length (serializeTuple t sch)) sch = Inr t"
  using deserializeTuple_serialized [of t sch rest] well_typed_length [of t sch] by (simp add: row_ok_def)

lemma decode_row [simp]: "row_ok sch t \<Longrightarrow> decode sch (serializeTuple t sch) = t"
  using deserialize_row [of sch t "[]"] by (simp add: decode_def)

lemma stored_row: "row_ok sch t \<Longrightarrow> stored_ok sch (serializeTuple t sch)"
  by (simp add: stored_ok_def)

lemma deserialize_stored: "stored_ok sch bytes \<Longrightarrow> deserializeTuple (bytes @ rest) (length bytes) sch = Inr (decode sch bytes)"
  using deserialize_row [of sch "decode sch bytes" rest] by (simp add: stored_ok_def)

text \<open>The context between two statements: every table has its own open file, whose entries are
  serialized rows of the table's schema, and every index is a tree of one leaf.\<close>

definition ctx_inv :: "ExecutionContext \<Rightarrow> bool" where
  "ctx_inv ctx \<longleftrightarrow> catalog_ok (ctx_catalog ctx) \<and> heap_inv (ctx_storage ctx) \<and>
     (\<forall>n info. getTable n (ctx_catalog ctx) = Some info \<longrightarrow> table_open (ctx_storage ctx) (ti_fileId info) \<and>
        (\<forall>r bytes. heap (ctx_storage ctx) (ti_fileId info) r = Some bytes \<longrightarrow> stored_ok (ti_schema info) bytes)) \<and>
     (\<forall>n m i j. getTable n (ctx_catalog ctx) = Some i \<longrightarrow> getTable m (ctx_catalog ctx) = Some j \<longrightarrow> ti_fileId i = ti_fileId j \<longrightarrow> n = m) \<and>
     (\<forall>n t. ctx_indexes ctx n = Some t \<longrightarrow> leaf_tree t) \<and>
     (\<forall>n. full_path (n @ ''.db'') \<in> ran (file_name (st_disk (ctx_storage ctx))) \<longrightarrow> getTable n (ctx_catalog ctx) \<noteq> None)"

definition stored_rows :: "Schema \<Rightarrow> Storage \<Rightarrow> int \<Rightarrow> Tuple list" where
  "stored_rows sch s f = map (\<lambda>(r, bytes). decode sch bytes) (heap_list s f)"

text \<open>The rows of a table, in the order a scan meets them.\<close>

definition table_rows :: "ExecutionContext \<Rightarrow> string \<Rightarrow> Tuple list" where
  "table_rows ctx n = (case getTable n (ctx_catalog ctx) of None \<Rightarrow> [] | Some info \<Rightarrow> stored_rows (ti_schema info) (ctx_storage ctx) (ti_fileId info))"

lemma ctx_inv_facts:
  assumes "ctx_inv ctx"
  shows "catalog_ok (ctx_catalog ctx)" "heap_inv (ctx_storage ctx)"
    "\<And>n info. getTable n (ctx_catalog ctx) = Some info \<Longrightarrow> table_open (ctx_storage ctx) (ti_fileId info)"
    "\<And>n info r bytes. getTable n (ctx_catalog ctx) = Some info \<Longrightarrow> heap (ctx_storage ctx) (ti_fileId info) r = Some bytes \<Longrightarrow> stored_ok (ti_schema info) bytes"
    "\<And>n m i j. getTable n (ctx_catalog ctx) = Some i \<Longrightarrow> getTable m (ctx_catalog ctx) = Some j \<Longrightarrow> ti_fileId i = ti_fileId j \<Longrightarrow> n = m"
    "\<And>n t. ctx_indexes ctx n = Some t \<Longrightarrow> leaf_tree t"
    "\<And>n. full_path (n @ ''.db'') \<in> ran (file_name (st_disk (ctx_storage ctx))) \<Longrightarrow> getTable n (ctx_catalog ctx) \<noteq> None"
  using assms unfolding ctx_inv_def by blast+

lemma ctx_invI:
  assumes "catalog_ok (ctx_catalog ctx)" "heap_inv (ctx_storage ctx)"
    "\<And>n info. getTable n (ctx_catalog ctx) = Some info \<Longrightarrow> table_open (ctx_storage ctx) (ti_fileId info)"
    "\<And>n info r bytes. getTable n (ctx_catalog ctx) = Some info \<Longrightarrow> heap (ctx_storage ctx) (ti_fileId info) r = Some bytes \<Longrightarrow> stored_ok (ti_schema info) bytes"
    "\<And>n m i j. getTable n (ctx_catalog ctx) = Some i \<Longrightarrow> getTable m (ctx_catalog ctx) = Some j \<Longrightarrow> ti_fileId i = ti_fileId j \<Longrightarrow> n = m"
    "\<And>n t. ctx_indexes ctx n = Some t \<Longrightarrow> leaf_tree t"
    "\<And>n. full_path (n @ ''.db'') \<in> ran (file_name (st_disk (ctx_storage ctx))) \<Longrightarrow> getTable n (ctx_catalog ctx) \<noteq> None"
  shows "ctx_inv ctx"
  unfolding ctx_inv_def using assms by blast


section \<open>Scans\<close>

lemma fold_until_filter:
  "fold_until (\<lambda>x acc. Inr (True, if q x then acc @ [g x] else acc)) xs acc = Inr (True, acc @ map g (filter q xs))"
  by (induction xs arbitrary: acc) simp_all

lemma heap_list_stored:
  assumes "ctx_inv ctx" "getTable n (ctx_catalog ctx) = Some info" "(r, bytes) \<in> set (heap_list (ctx_storage ctx) (ti_fileId info))"
  shows "stored_ok (ti_schema info) bytes" "decode (ti_schema info) bytes \<in> set (table_rows ctx n)"
proof -
  note i = ctx_inv_facts [OF assms(1)]
  show "stored_ok (ti_schema info) bytes"
    using assms(3) heap_list_set [OF i(3) [OF assms(2)]] i(4) [OF assms(2)] by auto
  show "decode (ti_schema info) bytes \<in> set (table_rows ctx n)"
    using assms(2,3) by (force simp: table_rows_def stored_rows_def)
qed

lemma table_rows_ok: "ctx_inv ctx \<Longrightarrow> getTable n (ctx_catalog ctx) = Some info \<Longrightarrow> t \<in> set (table_rows ctx n) \<Longrightarrow> row_ok (ti_schema info) t"
  using heap_list_stored(1) [of ctx n info] by (auto simp: table_rows_def stored_rows_def stored_ok_def)

lemma scan_table_spec:
  assumes inv: "ctx_inv ctx" and info: "getTable n (ctx_catalog ctx) = Some info"
    and p: "\<forall>t \<in> set (table_rows ctx n). passes p t = Inr (q t)"
    and act: "\<forall>r t acc. act r t acc = Inr (acc @ [g r t])"
  obtains s' where "with_storage (scanTable (ti_fileId info) (scan_callback (ti_schema info) p act) []) ctx =
      Inr (map (\<lambda>(r, bytes). g r (decode (ti_schema info) bytes))
             (filter (\<lambda>(r, bytes). q (decode (ti_schema info) bytes)) (heap_list (ctx_storage ctx) (ti_fileId info))), ctx\<lparr>ctx_storage := s'\<rparr>)"
    "same_heap s' (ctx_storage ctx)" "names s' = names (ctx_storage ctx)"
proof -
  note i = ctx_inv_facts [OF inv]
  let ?f = "ti_fileId info" and ?d = "decode (ti_schema info)" and ?s = "ctx_storage ctx"
  let ?q = "\<lambda>(r, bytes). q (?d bytes)" and ?g = "\<lambda>(r, bytes). g r (?d bytes)"
  let ?G = "\<lambda>x acc. Inr (True, if ?q x then acc @ [?g x] else acc)"
  have "scan_callback (ti_schema info) p act r (bytes @ rest) (length bytes) acc = ?G (r, bytes) acc"
    if "(r, bytes) \<in> set (heap_list ?s ?f)" for r bytes rest acc
    using heap_list_stored [OF inv info that] p act by (simp add: scan_callback_def deserialize_stored)
  then have "reads_tuples (scan_callback (ti_schema info) p act) ?G (heap_list ?s ?f)" by (simp add: reads_tuples_def)
  then obtain s' where "scanTable ?f (scan_callback (ti_schema info) p act) [] ?s = Inr (map ?g (filter ?q (heap_list ?s ?f)), s')" "same_heap s' ?s"
    by (rule scanTable_spec [where g = ?G and c = "[]" and b = True, OF i(2) i(3) [OF info]]) (simp add: fold_until_filter, rule that)
  then show thesis using scanTable_names by (intro that [of s']) (auto simp: with_storage_def)
qed

text \<open>An operation keeps the invariant if it keeps the schemas and files of the catalog, and the files
  hold only rows.\<close>

lemma names_open: "names s' = names s \<Longrightarrow> table_open s' f = table_open s f"
proof -
  assume "names s' = names s"
  then have "file_name (st_disk s') f = file_name (st_disk s) f" by (simp add: disk_names_def)
  then show ?thesis by (cases "dm_files (st_disk s') f"; cases "dm_files (st_disk s) f") (simp_all add: file_name_def)
qed

lemma ctx_inv_update:
  assumes inv: "ctx_inv ctx" and s: "heap_inv (ctx_storage ctx')" "names (ctx_storage ctx') = names (ctx_storage ctx)"
    and c: "catalog_ok (ctx_catalog ctx')"
      "\<And>m. map_option (\<lambda>i. (ti_schema i, ti_fileId i)) (getTable m (ctx_catalog ctx')) = map_option (\<lambda>i. (ti_schema i, ti_fileId i)) (getTable m (ctx_catalog ctx))"
    and h: "\<And>m info r bytes. getTable m (ctx_catalog ctx) = Some info \<Longrightarrow> heap (ctx_storage ctx') (ti_fileId info) r = Some bytes \<Longrightarrow> stored_ok (ti_schema info) bytes"
    and x: "\<And>m t. ctx_indexes ctx' m = Some t \<Longrightarrow> leaf_tree t"
  shows "ctx_inv ctx'"
proof -
  note i = ctx_inv_facts [OF inv]
  have g: "\<exists>info. getTable m (ctx_catalog ctx) = Some info \<and> ti_schema info = ti_schema info' \<and> ti_fileId info = ti_fileId info'"
    if "getTable m (ctx_catalog ctx') = Some info'" for m info'
    using c(2) [of m] that by (cases "getTable m (ctx_catalog ctx)") auto
  show ?thesis
  proof (rule ctx_invI)
    show "table_open (ctx_storage ctx') (ti_fileId info)" if "getTable n (ctx_catalog ctx') = Some info" for n info
      using g [OF that] i(3) [of n] names_open [OF s(2)] by metis
    show "stored_ok (ti_schema info) bytes" if "getTable n (ctx_catalog ctx') = Some info" "heap (ctx_storage ctx') (ti_fileId info) r = Some bytes" for n info r bytes
      using g [OF that(1)] h that(2) by metis
    show "n = m" if "getTable n (ctx_catalog ctx') = Some a" "getTable m (ctx_catalog ctx') = Some b" "ti_fileId a = ti_fileId b" for n m a b
      using g [OF that(1)] g [OF that(2)] i(5) that(3) by metis
    show "getTable n (ctx_catalog ctx') \<noteq> None" if "full_path (n @ ''.db'') \<in> ran (file_name (st_disk (ctx_storage ctx')))" for n
      using that i(7) [of n] s(2) c(2) [of n] by (auto simp: disk_names_def)
  qed (use s(1) c(1) x in auto)
qed

lemma ctx_inv_same_heap:
  assumes inv: "ctx_inv ctx" and s: "same_heap s' (ctx_storage ctx)" and nm: "names s' = names (ctx_storage ctx)"
  shows "ctx_inv (ctx\<lparr>ctx_storage := s'\<rparr>)" "table_rows (ctx\<lparr>ctx_storage := s'\<rparr>) m = table_rows ctx m"
proof -
  note i = ctx_inv_facts [OF inv] and h = same_heap_facts [OF s]
  show "ctx_inv (ctx\<lparr>ctx_storage := s'\<rparr>)"
    by (rule ctx_inv_update [OF inv]) (use i(1,4,6) h(1,2) nm in auto)
  show "table_rows (ctx\<lparr>ctx_storage := s'\<rparr>) m = table_rows ctx m"
  proof (cases "getTable m (ctx_catalog ctx)")
    case (Some info)
    have "heap_list s' (ti_fileId info) = heap_list (ctx_storage ctx) (ti_fileId info)"
      by (rule heap_list_unique) (use i(3) [OF Some] h(2,3) in simp_all)
    with Some show ?thesis by (simp add: table_rows_def stored_rows_def)
  qed (simp add: table_rows_def)
qed

text \<open>A sequential scan gives the rows of the table that pass, in scan order, and changes no table.\<close>

lemma seqscan_init_spec:
  assumes inv: "ctx_inv ctx" and info: "getTable n (ctx_catalog ctx) = Some info"
    and p: "\<forall>t \<in> set (table_rows ctx n). passes p t = Inr (q t)"
  obtains x s' where "exec_init (new_SeqScanExecutor n p) ctx = Inr (SeqScanExecutor x, ctx\<lparr>ctx_storage := s'\<rparr>)"
    "rows (SeqScanExecutor x) = Inr (filter q (table_rows ctx n))" "outputSchema (SeqScanExecutor x) = ti_schema info"
    "same_heap s' (ctx_storage ctx)" "names s' = names (ctx_storage ctx)"
proof -
  let ?xs = "heap_list (ctx_storage ctx) (ti_fileId info)" and ?d = "decode (ti_schema info)"
  obtain s' where s': "with_storage (scanTable (ti_fileId info) (scan_callback (ti_schema info) p (\<lambda>rid t acc. Inr (acc @ [t]))) []) ctx =
      Inr (map (\<lambda>(r, bytes). ?d bytes) (filter (\<lambda>(r, bytes). q (?d bytes)) ?xs), ctx\<lparr>ctx_storage := s'\<rparr>)"
    "same_heap s' (ctx_storage ctx)" "names s' = names (ctx_storage ctx)"
    by (rule scan_table_spec [OF inv info p, where act = "\<lambda>rid t acc. Inr (acc @ [t])" and g = "\<lambda>r t. t"])
      (simp, rule that)
  have "map (\<lambda>(r, bytes). ?d bytes) (filter (\<lambda>(r, bytes). q (?d bytes)) ?xs) = filter q (table_rows ctx n)"
    using info by (simp add: table_rows_def stored_rows_def filter_map o_def case_prod_unfold)
  with s' info show thesis
    by (intro that [of "\<lparr>ss_tableName = n, ss_predicate = p, ss_schema = ti_schema info, ss_fileId = ti_fileId info,
          ss_results = filter q (table_rows ctx n), ss_currentIdx = 0\<rparr>" s'])
      (simp_all add: new_SeqScanExecutor_def seqscan_init_def find_table_def)
qed


text \<open>A change of one file shows in the rows of its own table only.\<close>

lemma rows_other:
  assumes inv: "ctx_inv ctx" and info: "getTable n (ctx_catalog ctx) = Some info" and nm: "names s' = names (ctx_storage ctx)"
    and h: "heap s' = (heap (ctx_storage ctx))(ti_fileId info := h')" and m: "m \<noteq> n"
    and c: "getTable m (ctx_catalog ctx') = getTable m (ctx_catalog ctx)" "ctx_storage ctx' = s'"
  shows "table_rows ctx' m = table_rows ctx m"
proof (cases "getTable m (ctx_catalog ctx)")
  case (Some j)
  note i = ctx_inv_facts [OF inv]
  have "ti_fileId j \<noteq> ti_fileId info" using i(5) [OF Some info] m by blast
  then have "heap_list s' (ti_fileId j) = heap_list (ctx_storage ctx) (ti_fileId j)"
    by (intro heap_list_unique) (use names_open [OF nm] h i(3) [OF Some] in simp_all)
  with Some c show ?thesis by (simp add: table_rows_def stored_rows_def)
qed (use c in \<open>simp add: table_rows_def\<close>)

section \<open>Insertion\<close>

text \<open>Whether the index takes the key of a row without a split: it has no integer key, the key is there
  already, or the leaf has room.\<close>

definition index_room :: "ExecutionContext \<Rightarrow> string \<Rightarrow> Tuple \<Rightarrow> bool" where
  "index_room ctx n t = (case getIndex n ctx of None \<Rightarrow> True | Some tree \<Rightarrow> (case t of
      IntValue k # _ \<Rightarrow> entries tree k \<noteq> None \<or> card (dom (entries tree)) < nat (bt_maxLeafKeys tree)
    | _ \<Rightarrow> True))"

text \<open>The index of a table as a map.\<close>

definition index_of :: "ExecutionContext \<Rightarrow> string \<Rightarrow> int \<rightharpoonup> RID" where
  "index_of ctx n = (case getIndex n ctx of None \<Rightarrow> Map.empty | Some tree \<Rightarrow> entries tree)"

definition index_add :: "Tuple \<Rightarrow> RID \<Rightarrow> (int \<rightharpoonup> RID) \<Rightarrow> (int \<rightharpoonup> RID)" where
  "index_add t rid m = (case t of IntValue k # _ \<Rightarrow> apply_op (Ins k rid) m | _ \<Rightarrow> m)"

lemma index_effect:
  assumes "\<forall>m. m \<noteq> n \<longrightarrow> ctx_indexes ctx' m = ctx_indexes ctx m"
    "\<forall>tree. ctx_indexes ctx n = Some tree \<longrightarrow> (\<exists>tree'. ctx_indexes ctx' n = Some tree' \<and> entries tree' = g (entries tree) \<and>
       bt_maxLeafKeys tree' = bt_maxLeafKeys tree)"
    "ctx_indexes ctx n = None \<longrightarrow> ctx_indexes ctx' n = None"
  shows "index_of ctx' m = (if m = n \<and> getIndex n ctx \<noteq> None then g (index_of ctx n) else index_of ctx m) \<and>
    map_option bt_maxLeafKeys (getIndex m ctx') = map_option bt_maxLeafKeys (getIndex m ctx)"
proof (cases "m = n")
  case True
  show ?thesis
  proof (cases "ctx_indexes ctx n")
    case None
    then show ?thesis using True assms(3) by (simp add: index_of_def getIndex_def)
  next
    case (Some tree)
    then obtain tree' where "ctx_indexes ctx' n = Some tree'" "entries tree' = g (entries tree)" "bt_maxLeafKeys tree' = bt_maxLeafKeys tree"
      using assms(2) by auto
    with Some True show ?thesis by (simp add: index_of_def getIndex_def)
  qed
next
  case False
  then have "ctx_indexes ctx' m = ctx_indexes ctx m" using assms(1) by simp
  with False show ?thesis by (simp add: index_of_def getIndex_def)
qed

lemma index_insert_spec:
  assumes "\<forall>m t. ctx_indexes ctx m = Some t \<longrightarrow> leaf_tree t" "index_room ctx n vs"
  shows "\<exists>ix. index_insert n vs rid ctx = Inr (ctx\<lparr>ctx_indexes := ix\<rparr>) \<and> (\<forall>m t. ix m = Some t \<longrightarrow> leaf_tree t) \<and>
    (\<forall>m. m \<noteq> n \<longrightarrow> ix m = ctx_indexes ctx m) \<and>
    (\<forall>tree. ctx_indexes ctx n = Some tree \<longrightarrow> (\<exists>tree'. ix n = Some tree' \<and> entries tree' = index_add vs rid (entries tree) \<and>
       bt_maxLeafKeys tree' = bt_maxLeafKeys tree)) \<and> (ctx_indexes ctx n = None \<longrightarrow> ix n = None)"
proof (cases "ctx_indexes ctx n")
  case None
  then show ?thesis using assms(1) by (intro exI [of _ "ctx_indexes ctx"]) (simp add: index_insert_def getIndex_def)
next
  case (Some tree)
  have ok: "leaf_tree tree" using assms(1) Some by blast
  show ?thesis
  proof (cases "\<exists>k vs'. vs = IntValue k # vs'")
    case False
    then have "\<not> (vs \<noteq> [] \<and> value_type (hd vs) = DT_INT)" "index_add vs rid m = m" for m
      by (auto simp: neq_Nil_conv value_type_INT index_add_def split: list.splits Value.splits)
    then show ?thesis using assms(1) Some by (intro exI [of _ "ctx_indexes ctx"]) (auto simp: index_insert_def getIndex_def)
  next
    case True
    then obtain k vs' where vs: "vs = IntValue k # vs'" by blast
    obtain b tree' where t': "bt_insert k rid tree = Inr (b, tree')" "leaf_tree tree'" "entries tree' = apply_op (Ins k rid) (entries tree)"
      "bt_maxLeafKeys tree' = bt_maxLeafKeys tree"
    proof (cases "entries tree k")
      case None
      then have "bt_entryCount tree < bt_maxLeafKeys tree"
        using assms(2) Some vs entryCount_card [OF ok] by (simp add: index_room_def getIndex_def)
      from bt_insert_spec [OF ok None this, of rid] None show thesis by (auto intro: that)
    next
      case (Some r)
      then show thesis using bt.ins_old [OF ok, of k rid] ok by (intro that [of False tree]) simp_all
    qed
    show ?thesis
      by (rule exI [of _ "(ctx_indexes ctx)(n \<mapsto> tree')"])
        (use t' Some vs assms(1) in \<open>auto simp: index_insert_def getIndex_def ctx_setIndex_def index_add_def split: if_splits\<close>)
  qed
qed


text \<open>What an insertion leaves behind.\<close>

definition inserted :: "ExecutionContext \<Rightarrow> string \<Rightarrow> TableInfo \<Rightarrow> Tuple \<Rightarrow> ExecutionContext \<Rightarrow> bool" where
  "inserted ctx n info t ctx' \<longleftrightarrow> ctx_inv ctx' \<and> mset (table_rows ctx' n) = add_mset t (mset (table_rows ctx n)) \<and>
     (\<forall>m. m \<noteq> n \<longrightarrow> table_rows ctx' m = table_rows ctx m) \<and>
     (\<forall>m. getTable m (ctx_catalog ctx') = (if m = n then Some (info\<lparr>ti_rowCount := to_u32 (ti_rowCount info + 1)\<rparr>) else getTable m (ctx_catalog ctx))) \<and>
     names (ctx_storage ctx') = names (ctx_storage ctx) \<and>
     (\<exists>rid. \<forall>m. index_of ctx' m = (if m = n \<and> getIndex n ctx \<noteq> None then index_add t rid (index_of ctx n) else index_of ctx m)) \<and>
     (\<forall>m. map_option bt_maxLeafKeys (getIndex m ctx') = map_option bt_maxLeafKeys (getIndex m ctx)) \<and>
     (\<forall>f. getPageCount f (ctx_storage ctx') \<le> getPageCount f (ctx_storage ctx) + (if f = ti_fileId info then 2 else 0))"

lemma insert_init_spec:
  assumes inv: "ctx_inv ctx" and info: "getTable n (ctx_catalog ctx) = Some info" and t: "row_ok (ti_schema info) t"
    and len: "length (serializeTuple t (ti_schema info)) \<le> 3576" and room: "getPageCount (ti_fileId info) (ctx_storage ctx) + 1 < 4294967295"
    and ix: "index_room ctx n t"
  shows "\<exists>x ctx'. exec_init (new_InsertExecutor n t) ctx = Inr (InsertExecutor x, ctx') \<and> inserted ctx n info t ctx' \<and>
    rows (InsertExecutor x) = Inr [t]"
proof -
  note i = ctx_inv_facts [OF inv]
  let ?f = "ti_fileId info" and ?s = "ctx_storage ctx" and ?b = "serializeTuple t (ti_schema info)"
  have ne: "?b \<noteq> []" using t by (simp add: row_ok_def)
  obtain r s' where s': "insertTuple ?f ?b (length ?b) ?s = Inr (r, s')" "heap_inv s'" "table_open s' = table_open ?s" "heap ?s ?f r = None"
    "heap s' = (heap ?s)(?f := (heap ?s ?f)(r \<mapsto> ?b))" "getPageCount ?f s' \<le> getPageCount ?f ?s + 2"
    "\<forall>g. g \<noteq> ?f \<longrightarrow> getPageCount g s' = getPageCount g ?s"
    using pm.ins_law [OF i(2) i(3) [OF info] room ne len] by blast
  note nm = insertTuple_names [OF s'(1)]
  let ?c1 = "ctx\<lparr>ctx_storage := s'\<rparr>"
  have ir: "index_room ?c1 n t" and il: "\<forall>m tr. ctx_indexes ?c1 m = Some tr \<longrightarrow> leaf_tree tr"
    using ix i(6) by (simp_all add: index_room_def getIndex_def)
  obtain ixs where ixs: "index_insert n t r ?c1 = Inr (?c1\<lparr>ctx_indexes := ixs\<rparr>)" "\<forall>m tr. ixs m = Some tr \<longrightarrow> leaf_tree tr"
    "\<forall>m. m \<noteq> n \<longrightarrow> ixs m = ctx_indexes ?c1 m"
    "\<forall>tree. ctx_indexes ?c1 n = Some tree \<longrightarrow> (\<exists>tree'. ixs n = Some tree' \<and> entries tree' = index_add t r (entries tree) \<and> bt_maxLeafKeys tree' = bt_maxLeafKeys tree)"
    "ctx_indexes ?c1 n = None \<longrightarrow> ixs n = None"
    using index_insert_spec [OF il ir, where rid = r] by (elim exE conjE) (rule that; assumption)
  let ?g = "\<lambda>i. i\<lparr>ti_rowCount := to_u32 (ti_rowCount i + 1)\<rparr>"
  let ?c2 = "?c1\<lparr>ctx_indexes := ixs, ctx_catalog := modifyTable n ?g (ctx_catalog ctx)\<rparr>"
  have run: "insert_init \<lparr>ie_tableName = n, ie_values = t, ie_schema = [], ie_done = False\<rparr> ctx =
      Inr (\<lparr>ie_tableName = n, ie_values = t, ie_schema = ti_schema info, ie_done = False\<rparr>, ?c2)"
    using len s'(1) ixs(1) info by (simp add: insert_init_def find_table_def with_storage_def Let_def)
  have inv2: "ctx_inv ?c2"
  proof (rule ctx_inv_update [OF inv])
    fix m j q bytes assume j: "getTable m (ctx_catalog ctx) = Some j" "heap (ctx_storage ?c2) (ti_fileId j) q = Some bytes"
    then have h: "heap s' (ti_fileId j) q = Some bytes" by simp
    show "stored_ok (ti_schema j) bytes"
    proof (cases "ti_fileId j = ?f \<and> q = r")
      case True
      then have "m = n" using i(5) [OF j(1) info] by simp
      then have "j = info" using j(1) info by simp
      moreover have "bytes = ?b" using True h by (simp add: s'(5))
      ultimately show ?thesis using stored_row [OF t] by simp
    next
      case False
      then have "heap ?s (ti_fileId j) q = Some bytes" using h False by (simp add: s'(5) split: if_splits)
      then show ?thesis by (rule i(4) [OF j(1)])
    qed
  next
    show "catalog_ok (ctx_catalog ?c2)" using catalog_ok_modifyTable [OF i(1)] by simp
    show "names (ctx_storage ?c2) = names ?s" using nm by simp
    show "leaf_tree tr" if "ctx_indexes ?c2 m = Some tr" for m tr using ixs(2) that by simp
    show "map_option (\<lambda>i. (ti_schema i, ti_fileId i)) (getTable m (ctx_catalog ?c2)) = map_option (\<lambda>i. (ti_schema i, ti_fileId i)) (getTable m (ctx_catalog ctx))" for m
      by (simp add: info)
  qed (simp add: s'(2))
  have op: "table_open s' f = table_open ?s f" for f by (rule names_open [OF nm])
  have "mset (heap_list s' ?f) = add_mset (r, ?b) (mset (heap_list ?s ?f))"
    by (rule heap_list_insert) (use op s'(4,5) i(3) [OF info] in simp_all)
  then have rows_n: "mset (table_rows ?c2 n) = add_mset t (mset (table_rows ctx n))"
    using info decode_row [OF t] by (simp add: table_rows_def stored_rows_def)
  have rows_m: "table_rows ?c2 m = table_rows ctx m" if "m \<noteq> n" for m
    by (rule rows_other [OF inv info nm s'(5) that]) (simp_all add: that)
  have index: "index_of ?c2 m = (if m = n \<and> getIndex n ctx \<noteq> None then index_add t r (index_of ctx n) else index_of ctx m) \<and>
      map_option bt_maxLeafKeys (getIndex m ?c2) = map_option bt_maxLeafKeys (getIndex m ctx)" for m
    by (rule index_effect) (use ixs(3-5) in simp_all)
  have pages: "getPageCount g (ctx_storage ?c2) \<le> getPageCount g ?s + (if g = ?f then 2 else 0)" for g
    using s'(6,7) by simp
  have "inserted ctx n info t ?c2"
    unfolding inserted_def
    by (intro conjI allI impI inv2 rows_n rows_m exI [of _ r] index [THEN conjunct1] index [THEN conjunct2] pages) (simp_all add: info nm)
  with run show ?thesis by (intro exI) (auto simp: new_InsertExecutor_def)
qed


section \<open>Deletion\<close>

definition index_drop :: "int \<Rightarrow> (int \<rightharpoonup> RID) \<Rightarrow> (int \<rightharpoonup> RID)" where
  "index_drop pk m = (if pk \<ge> 0 then m(pk := None) else m)"

lemma index_remove_spec:
  assumes "\<forall>m t. ctx_indexes ctx m = Some t \<longrightarrow> leaf_tree t"
  shows "\<exists>ix. index_remove n pk ctx = Inr (ctx\<lparr>ctx_indexes := ix\<rparr>) \<and> (\<forall>m t. ix m = Some t \<longrightarrow> leaf_tree t) \<and>
    (\<forall>m. m \<noteq> n \<longrightarrow> ix m = ctx_indexes ctx m) \<and>
    (\<forall>tree. ctx_indexes ctx n = Some tree \<longrightarrow> (\<exists>tree'. ix n = Some tree' \<and> entries tree' = index_drop pk (entries tree) \<and>
       bt_maxLeafKeys tree' = bt_maxLeafKeys tree)) \<and> (ctx_indexes ctx n = None \<longrightarrow> ix n = None)"
proof (cases "ctx_indexes ctx n")
  case None
  then show ?thesis using assms by (intro exI [of _ "ctx_indexes ctx"]) (simp add: index_remove_def getIndex_def)
next
  case (Some tree)
  have ok: "leaf_tree tree" using assms Some by blast
  obtain tree' where t': "bt_remove pk tree = Inr (entries tree pk \<noteq> None, tree')" "leaf_tree tree'" "entries tree' = (entries tree)(pk := None)"
    "bt_maxLeafKeys tree' = bt_maxLeafKeys tree"
    using bt_remove_spec [OF ok, of pk] by blast
  show ?thesis
  proof (cases "pk \<ge> 0")
    case True
    then show ?thesis using Some t' assms
      by (intro exI [of _ "(ctx_indexes ctx)(n \<mapsto> tree')"]) (auto simp: index_remove_def getIndex_def ctx_setIndex_def index_drop_def split: if_splits)
  next
    case False
    then show ?thesis using Some assms
      by (intro exI [of _ "ctx_indexes ctx"]) (auto simp: index_remove_def getIndex_def index_drop_def)
  qed
qed

text \<open>The loop removes exactly the given entries of the file, and their keys from the index.\<close>

lemma delete_rows_spec:
  assumes "heap_inv (ctx_storage ctx)" "table_open (ctx_storage ctx) f" "\<forall>m t. ctx_indexes ctx m = Some t \<longrightarrow> leaf_tree t"
    "distinct (map fst xs)" "fst ` set xs \<subseteq> dom (heap (ctx_storage ctx) f)" "0 \<le> k" "k + int (length xs) \<le> 2147483647"
  shows "\<exists>s' ix. delete_rows n f xs k ctx = Inr (k + int (length xs), ctx\<lparr>ctx_storage := s', ctx_indexes := ix\<rparr>) \<and> heap_inv s' \<and>
    names s' = names (ctx_storage ctx) \<and> heap s' = (heap (ctx_storage ctx))(f := heap (ctx_storage ctx) f |` (- fst ` set xs)) \<and>
    (\<forall>g. getPageCount g s' = getPageCount g (ctx_storage ctx)) \<and> (\<forall>m t. ix m = Some t \<longrightarrow> leaf_tree t) \<and>
    (\<forall>m. m \<noteq> n \<longrightarrow> ix m = ctx_indexes ctx m) \<and>
    (\<forall>tree. ctx_indexes ctx n = Some tree \<longrightarrow> (\<exists>tree'. ix n = Some tree' \<and> entries tree' = fold index_drop (map snd xs) (entries tree) \<and>
       bt_maxLeafKeys tree' = bt_maxLeafKeys tree)) \<and> (ctx_indexes ctx n = None \<longrightarrow> ix n = None)"
  using assms
proof (induction xs arbitrary: k ctx)
  case Nil
  have "heap (ctx_storage ctx) = (heap (ctx_storage ctx))(f := heap (ctx_storage ctx) f |` (- fst ` set []))"
    by (intro ext) (simp add: restrict_map_def)
  then show ?case using Nil by (intro exI [of _ "ctx_storage ctx"] exI [of _ "ctx_indexes ctx"]) simp
next
  case (Cons x xs)
  obtain r pk where x: "x = (r, pk)" by (cases x)
  let ?s = "ctx_storage ctx"
  have r: "heap ?s f r \<noteq> None" using Cons.prems(5) x by auto
  obtain s1 where s1: "deleteTuple f r ?s = Inr s1" "heap_inv s1" "heap s1 = (heap ?s)(f := (heap ?s f)(r := None))"
    "\<forall>g. getPageCount g s1 = getPageCount g ?s"
    using pm.del_law [OF Cons.prems(1,2) r] by blast
  note nm = deleteTuple_names [OF s1(1)]
  let ?c1 = "ctx\<lparr>ctx_storage := s1\<rparr>"
  have il: "\<forall>m t. ctx_indexes ?c1 m = Some t \<longrightarrow> leaf_tree t" using Cons.prems(3) by simp
  obtain ix where ix: "index_remove n pk ?c1 = Inr (?c1\<lparr>ctx_indexes := ix\<rparr>)" "\<forall>m t. ix m = Some t \<longrightarrow> leaf_tree t"
    "\<forall>m. m \<noteq> n \<longrightarrow> ix m = ctx_indexes ?c1 m"
    "\<forall>tree. ctx_indexes ?c1 n = Some tree \<longrightarrow> (\<exists>tree'. ix n = Some tree' \<and> entries tree' = index_drop pk (entries tree) \<and> bt_maxLeafKeys tree' = bt_maxLeafKeys tree)"
    "ctx_indexes ?c1 n = None \<longrightarrow> ix n = None"
    using index_remove_spec [OF il, where n = n and pk = pk] by (elim exE conjE) (rule that; assumption)
  let ?c2 = "?c1\<lparr>ctx_indexes := ix\<rparr>"
  have pre: "heap_inv (ctx_storage ?c2)" "table_open (ctx_storage ?c2) f" "\<forall>m t. ctx_indexes ?c2 m = Some t \<longrightarrow> leaf_tree t"
    "distinct (map fst xs)" "fst ` set xs \<subseteq> dom (heap (ctx_storage ?c2) f)" "0 \<le> k + 1" "k + 1 + int (length xs) \<le> 2147483647"
    using s1(2) names_open [OF nm, of f] Cons.prems(2,4,5,6,7) ix(2) x by (auto simp: s1(3) domIff)
  obtain s' ix' where s': "delete_rows n f xs (k + 1) ?c2 = Inr (k + 1 + int (length xs), ?c2\<lparr>ctx_storage := s', ctx_indexes := ix'\<rparr>)"
    "heap_inv s'" "names s' = names (ctx_storage ?c2)" "heap s' = (heap (ctx_storage ?c2))(f := heap (ctx_storage ?c2) f |` (- fst ` set xs))"
    "\<forall>g. getPageCount g s' = getPageCount g (ctx_storage ?c2)" "\<forall>m t. ix' m = Some t \<longrightarrow> leaf_tree t"
    "\<forall>m. m \<noteq> n \<longrightarrow> ix' m = ctx_indexes ?c2 m"
    "\<forall>tree. ctx_indexes ?c2 n = Some tree \<longrightarrow> (\<exists>tree'. ix' n = Some tree' \<and> entries tree' = fold index_drop (map snd xs) (entries tree) \<and> bt_maxLeafKeys tree' = bt_maxLeafKeys tree)"
    "ctx_indexes ?c2 n = None \<longrightarrow> ix' n = None"
    using Cons.IH [OF pre] by (elim exE conjE) (rule that; assumption)
  have run: "delete_rows n f (x # xs) k ctx = Inr (k + int (length (x # xs)), ctx\<lparr>ctx_storage := s', ctx_indexes := ix'\<rparr>)"
    using s1(1) ix(1) s'(1) Cons.prems(6,7) x by (simp add: in_int32_def add.assoc)
  have h: "heap s' = (heap ?s)(f := heap ?s f |` (- fst ` set (x # xs)))"
    unfolding s'(4) using x by (intro ext) (simp add: s1(3) restrict_map_def)
  have t: "\<exists>tree'. ix' n = Some tree' \<and> entries tree' = fold index_drop (map snd (x # xs)) (entries tree) \<and> bt_maxLeafKeys tree' = bt_maxLeafKeys tree"
    if "ctx_indexes ctx n = Some tree" for tree
    using ix(4) s'(8) that x by fastforce
  show ?case
    by (rule exI [of _ s'], rule exI [of _ ix'], intro conjI allI impI run s'(2) h t) (use s'(3,5,6,7,9) s1(4) nm ix(3,5) in simp_all)
qed


text \<open>The keys that the deletion of rows takes out of the index.\<close>

definition keys_of :: "Tuple list \<Rightarrow> int set" where
  "keys_of ts = {k. 0 \<le> k \<and> (\<exists>t \<in> set ts. \<exists>vs. t = IntValue k # vs)}"

definition deleted :: "ExecutionContext \<Rightarrow> string \<Rightarrow> TableInfo \<Rightarrow> (Tuple \<Rightarrow> bool) \<Rightarrow> ExecutionContext \<Rightarrow> bool" where
  "deleted ctx n info q ctx' \<longleftrightarrow> ctx_inv ctx' \<and> table_rows ctx' n = filter (\<lambda>t. \<not> q t) (table_rows ctx n) \<and>
     (\<forall>m. m \<noteq> n \<longrightarrow> table_rows ctx' m = table_rows ctx m) \<and>
     (\<forall>m. getTable m (ctx_catalog ctx') = (if m = n then Some (subtract_rows (int (length (filter q (table_rows ctx n)))) info) else getTable m (ctx_catalog ctx))) \<and>
     names (ctx_storage ctx') = names (ctx_storage ctx) \<and>
     (\<forall>m. index_of ctx' m = (if m = n then index_of ctx n |` (- keys_of (filter q (table_rows ctx n))) else index_of ctx m)) \<and>
     (\<forall>m. map_option bt_maxLeafKeys (getIndex m ctx') = map_option bt_maxLeafKeys (getIndex m ctx)) \<and>
     (\<forall>f. getPageCount f (ctx_storage ctx') = getPageCount f (ctx_storage ctx))"

definition row_key :: "Tuple \<Rightarrow> int" where
  "row_key t = (case t of IntValue k # _ \<Rightarrow> k | _ \<Rightarrow> - 1)"

lemma row_pk_Inr: "row_pk t = Inr (row_key t)"
  by (auto simp: row_pk_def row_key_def split: list.splits Value.splits)

lemma fold_index_drop: "fold index_drop pks m = m |` (- {k \<in> set pks. 0 \<le> k})"
proof (induction pks arbitrary: m)
  case (Cons k pks)
  have "fold index_drop (k # pks) m = index_drop k m |` (- {k \<in> set pks. 0 \<le> k})" by (simp add: Cons.IH)
  also have "\<dots> = m |` (- {k' \<in> set (k # pks). 0 \<le> k'})" by (auto simp: index_drop_def restrict_map_def fun_eq_iff)
  finally show ?case .
qed (simp add: restrict_map_def)

lemma keys_of_row_key: "{k \<in> set (map row_key ts). 0 \<le> k} = keys_of ts"
proof -
  have k: "0 \<le> k \<Longrightarrow> k = row_key t \<longleftrightarrow> (\<exists>vs. t = IntValue k # vs)" for t k
    by (auto simp: row_key_def split: list.splits Value.splits)
  show ?thesis unfolding keys_of_def set_map image_def using k by (intro Collect_cong) (simp, blast)
qed

text \<open>The scan of a deletion: the identifiers and keys of the rows that pass.\<close>

lemma delete_scan:
  assumes inv: "ctx_inv ctx" and info: "getTable n (ctx_catalog ctx) = Some info"
    and p: "\<forall>t \<in> set (table_rows ctx n). passes p t = Inr (q t)"
  obtains xs s1 where "with_storage (scanTable (ti_fileId info) (scan_callback (ti_schema info) p
        (\<lambda>rid t acc. bindE (row_pk t) (\<lambda>pk. Inr (acc @ [(rid, pk)])))) []) ctx = Inr (xs, ctx\<lparr>ctx_storage := s1\<rparr>)"
    "same_heap s1 (ctx_storage ctx)" "names s1 = names (ctx_storage ctx)" "distinct (map fst xs)"
    "map snd xs = map row_key (filter q (table_rows ctx n))"
    "fst ` set xs = {r. \<exists>bytes. heap (ctx_storage ctx) (ti_fileId info) r = Some bytes \<and> q (decode (ti_schema info) bytes)}"
proof -
  let ?f = "ti_fileId info" and ?d = "decode (ti_schema info)"
  define K where "K = filter (\<lambda>(r, bytes). q (?d bytes)) (heap_list (ctx_storage ctx) ?f)"
  let ?act = "\<lambda>rid t acc. bindE (row_pk t) (\<lambda>pk. Inr (acc @ [(rid, pk)]))"
  let ?xs = "map (\<lambda>(r, bytes). (r, row_key (?d bytes))) K"
  obtain s1 where s1: "with_storage (scanTable ?f (scan_callback (ti_schema info) p ?act) []) ctx =
      Inr (map (\<lambda>(r, bytes). (r, row_key (?d bytes))) (filter (\<lambda>(r, bytes). q (?d bytes)) (heap_list (ctx_storage ctx) ?f)), ctx\<lparr>ctx_storage := s1\<rparr>)"
    "same_heap s1 (ctx_storage ctx)" "names s1 = names (ctx_storage ctx)"
    by (rule scan_table_spec [OF inv info p, where act = ?act and g = "\<lambda>r t. (r, row_key t)"]) (simp add: row_pk_Inr, rule that)
  note s1 = s1(1) [folded K_def] s1(2,3)
  have "map fst ?xs = map fst K" by (simp add: case_prod_unfold o_def)
  moreover have "distinct (map fst K)" unfolding K_def using heap_list_distinct(1) by (rule distinct_map_filter)
  ultimately have d: "distinct (map fst ?xs)" by (simp only:)
  have k: "map snd ?xs = map row_key (filter q (table_rows ctx n))"
    using info by (simp add: table_rows_def stored_rows_def K_def filter_map o_def case_prod_unfold)
  have "set K = {(r, bytes). heap (ctx_storage ctx) ?f r = Some bytes \<and> q (?d bytes)}"
    using heap_list_set [OF ctx_inv_facts(3) [OF inv info]] by (auto simp: K_def)
  then have "fst ` set ?xs = {r. \<exists>bytes. heap (ctx_storage ctx) ?f r = Some bytes \<and> q (?d bytes)}" by force
  then show thesis by (rule that [OF s1 d k])
qed

text \<open>Removing the entries that pass leaves the rows that do not.\<close>

lemma rows_deleted:
  assumes inv: "ctx_inv ctx" and info: "getTable n (ctx_catalog ctx) = Some info" and nm: "names s' = names (ctx_storage ctx)"
    and h: "heap s' (ti_fileId info) = heap (ctx_storage ctx) (ti_fileId info) |`
      (- {r. \<exists>bytes. heap (ctx_storage ctx) (ti_fileId info) r = Some bytes \<and> q (decode (ti_schema info) bytes)})"
  shows "stored_rows (ti_schema info) s' (ti_fileId info) = filter (\<lambda>t. \<not> q t) (table_rows ctx n)"
proof -
  let ?f = "ti_fileId info" and ?d = "decode (ti_schema info)"
  note o = ctx_inv_facts(3) [OF inv info]
  have "heap_list s' ?f = filter (\<lambda>(r, _). r \<notin> {r. \<exists>bytes. heap (ctx_storage ctx) ?f r = Some bytes \<and> q (?d bytes)}) (heap_list (ctx_storage ctx) ?f)"
    by (rule heap_list_filter [OF o _ h]) (use names_open [OF nm] o in simp)
  also have "\<dots> = filter (\<lambda>(r, bytes). \<not> q (?d bytes)) (heap_list (ctx_storage ctx) ?f)"
    using heap_list_set [OF o] by (intro filter_cong) auto
  finally show ?thesis using info by (simp add: table_rows_def stored_rows_def filter_map o_def case_prod_unfold)
qed

lemma delete_init_spec:
  assumes inv: "ctx_inv ctx" and info: "getTable n (ctx_catalog ctx) = Some info"
    and p: "\<forall>t \<in> set (table_rows ctx n). passes p t = Inr (q t)"
    and cnt: "length (filter q (table_rows ctx n)) \<le> 2147483647"
  shows "\<exists>x ctx'. exec_init (new_DeleteExecutor n p) ctx = Inr (DeleteExecutor x, ctx') \<and> deleted ctx n info q ctx' \<and>
    rows (DeleteExecutor x) = Inr [[IntValue (int (length (filter q (table_rows ctx n))))]]"
proof -
  note i = ctx_inv_facts [OF inv]
  let ?f = "ti_fileId info" and ?s = "ctx_storage ctx" and ?D = "filter q (table_rows ctx n)"
  obtain xs s1 where s1: "with_storage (scanTable ?f (scan_callback (ti_schema info) p
        (\<lambda>rid t acc. bindE (row_pk t) (\<lambda>pk. Inr (acc @ [(rid, pk)])))) []) ctx = Inr (xs, ctx\<lparr>ctx_storage := s1\<rparr>)"
    "same_heap s1 ?s" "names s1 = names ?s" "distinct (map fst xs)" "map snd xs = map row_key ?D"
    "fst ` set xs = {r. \<exists>bytes. heap ?s ?f r = Some bytes \<and> q (decode (ti_schema info) bytes)}"
    by (rule delete_scan [OF inv info p]) (rule that)
  note h1 = same_heap_facts [OF s1(2)]
  let ?c1 = "ctx\<lparr>ctx_storage := s1\<rparr>"
  have len: "length xs = length ?D" using arg_cong [OF s1(5), of length] by simp
  have pre: "heap_inv (ctx_storage ?c1)" "table_open (ctx_storage ?c1) ?f" "\<forall>m t. ctx_indexes ?c1 m = Some t \<longrightarrow> leaf_tree t"
    "distinct (map fst xs)" "fst ` set xs \<subseteq> dom (heap (ctx_storage ?c1) ?f)" "(0::int) \<le> 0" "0 + int (length xs) \<le> 2147483647"
    using h1(1,2) names_open [OF s1(3), of ?f] i(3) [OF info] i(6) s1(4,6) len cnt by auto
  obtain s' ix where s': "delete_rows n ?f xs 0 ?c1 = Inr (0 + int (length xs), ?c1\<lparr>ctx_storage := s', ctx_indexes := ix\<rparr>)" "heap_inv s'"
    "names s' = names (ctx_storage ?c1)" "heap s' = (heap (ctx_storage ?c1))(?f := heap (ctx_storage ?c1) ?f |` (- fst ` set xs))"
    "\<forall>g. getPageCount g s' = getPageCount g (ctx_storage ?c1)" "\<forall>m t. ix m = Some t \<longrightarrow> leaf_tree t" "\<forall>m. m \<noteq> n \<longrightarrow> ix m = ctx_indexes ?c1 m"
    "\<forall>tree. ctx_indexes ?c1 n = Some tree \<longrightarrow> (\<exists>tree'. ix n = Some tree' \<and> entries tree' = fold index_drop (map snd xs) (entries tree) \<and> bt_maxLeafKeys tree' = bt_maxLeafKeys tree)"
    "ctx_indexes ?c1 n = None \<longrightarrow> ix n = None"
    using delete_rows_spec [OF pre, where n = n] by (elim exE conjE) (rule that; assumption)
  let ?c2 = "?c1\<lparr>ctx_storage := s', ctx_indexes := ix, ctx_catalog := modifyTable n (subtract_rows (int (length ?D))) (ctx_catalog ctx)\<rparr>"
  have run: "delete_init \<lparr>de_tableName = n, de_predicate = p, de_schema = [], de_fileId = - 1, de_done = False, de_deletedCount = 0\<rparr> ctx =
      Inr (\<lparr>de_tableName = n, de_predicate = p, de_schema = ti_schema info, de_fileId = ?f, de_done = False, de_deletedCount = int (length ?D)\<rparr>, ?c2)"
    using s1(1) s'(1) info len by (simp add: delete_init_def find_table_def)
  have nm: "names s' = names ?s" using s'(3) s1(3) by simp
  have h: "heap s' = (heap ?s)(?f := heap ?s ?f |` (- fst ` set xs))" using s'(4) h1(2) by simp
  have inv2: "ctx_inv ?c2"
  proof (rule ctx_inv_update [OF inv])
    fix m j r bytes assume j: "getTable m (ctx_catalog ctx) = Some j" "heap (ctx_storage ?c2) (ti_fileId j) r = Some bytes"
    then have "heap ?s (ti_fileId j) r = Some bytes" by (simp add: h restrict_map_def split: if_splits)
    then show "stored_ok (ti_schema j) bytes" by (rule i(4) [OF j(1)])
  next
    show "catalog_ok (ctx_catalog ?c2)" using catalog_ok_modifyTable [OF i(1)] by (simp add: subtract_rows_def)
    show "leaf_tree tr" if "ctx_indexes ?c2 m = Some tr" for m tr using s'(6) that by simp
  qed (simp_all add: s'(2) nm info subtract_rows_def)
  have rows_n: "table_rows ?c2 n = filter (\<lambda>t. \<not> q t) (table_rows ctx n)"
    using rows_deleted [OF inv info nm, of q] h s1(6) info by (simp add: table_rows_def subtract_rows_def)
  have rows_m: "table_rows ?c2 m = table_rows ctx m" if "m \<noteq> n" for m
    by (rule rows_other [OF inv info nm h that]) (simp_all add: that)
  have index: "index_of ?c2 m = (if m = n \<and> getIndex n ctx \<noteq> None then fold index_drop (map snd xs) (index_of ctx n) else index_of ctx m) \<and>
      map_option bt_maxLeafKeys (getIndex m ?c2) = map_option bt_maxLeafKeys (getIndex m ctx)" for m
    by (rule index_effect) (use s'(7-9) in simp_all)
  have index': "index_of ?c2 m = (if m = n then index_of ctx n |` (- keys_of ?D) else index_of ctx m)" for m
    using index [of m] unfolding fold_index_drop s1(5) keys_of_row_key by (simp add: index_of_def split: if_splits option.splits)
  have "deleted ctx n info q ?c2"
    unfolding deleted_def
    by (intro conjI allI impI inv2 rows_n rows_m index' index [THEN conjunct2]) (use nm info s'(5) h1(4) in simp_all)
  with run show ?thesis by (intro exI) (auto simp: new_DeleteExecutor_def)
qed


section \<open>New tables\<close>

text \<open>Registering a new, empty file and index under an unused name.\<close>

definition add_table :: "string \<Rightarrow> Schema \<Rightarrow> int \<Rightarrow> Storage \<Rightarrow> BPlusTree \<Rightarrow> ExecutionContext \<Rightarrow> ExecutionContext" where
  "add_table n sch f s tree ctx = ctx_setIndex n tree (ctx\<lparr>ctx_storage := s, ctx_catalog := addTable n sch f (ctx_catalog ctx)\<rparr>)"

definition created :: "ExecutionContext \<Rightarrow> string \<Rightarrow> Schema \<Rightarrow> ExecutionContext \<Rightarrow> bool" where
  "created ctx n sch ctx' \<longleftrightarrow> ctx_inv ctx' \<and> (\<exists>info. getTable n (ctx_catalog ctx') = Some info \<and> ti_schema info = sch \<and>
       getPageCount (ti_fileId info) (ctx_storage ctx') = 1 \<and> ti_rowCount info = 0) \<and>
     table_rows ctx' n = [] \<and> index_of ctx' n = Map.empty \<and> map_option bt_maxLeafKeys (getIndex n ctx') = Some 127 \<and>
     (\<forall>m. m \<noteq> n \<longrightarrow> table_rows ctx' m = table_rows ctx m \<and> getTable m (ctx_catalog ctx') = getTable m (ctx_catalog ctx) \<and> getIndex m ctx' = getIndex m ctx)"

lemma add_table_simps [simp]:
  "ctx_catalog (add_table n sch f s tree ctx) = addTable n sch f (ctx_catalog ctx)"
  "ctx_storage (add_table n sch f s tree ctx) = s"
  "ctx_indexes (add_table n sch f s tree ctx) = (ctx_indexes ctx)(n \<mapsto> tree)"
  by (simp_all add: add_table_def ctx_setIndex_def)

lemma add_table_inv:
  assumes inv: "ctx_inv ctx" and s: "heap_inv s" "heap s = heap (ctx_storage ctx)" "\<not> table_open (ctx_storage ctx) f"
    and op: "\<And>g. table_open s g = (table_open (ctx_storage ctx) g \<or> g = f)"
    and nm: "file_name (st_disk s) = (file_name (st_disk (ctx_storage ctx)))(f \<mapsto> full_path (n @ ''.db''))" and tree: "leaf_tree tree"
  shows "ctx_inv (add_table n sch f s tree ctx)"
proof (rule ctx_invI)
  note i = ctx_inv_facts [OF inv]
  let ?c = "add_table n sch f s tree ctx"
  have empty: "heap s f r = None" for r using s(2,3) by (simp add: heap_def)
  have old: "(m = n \<and> ti_fileId j = f) \<or> (m \<noteq> n \<and> getTable m (ctx_catalog ctx) = Some j \<and> ti_fileId j \<noteq> f)"
    if "getTable m (ctx_catalog ?c) = Some j" for m j
    using that i(3) [of m j] s(3) by (auto split: if_splits)
  show "catalog_ok (ctx_catalog ?c)" "heap_inv (ctx_storage ?c)" using catalog_ok_addTable [OF i(1)] s(1) by simp_all
  fix m j assume j: "getTable m (ctx_catalog ?c) = Some j"
  show "table_open (ctx_storage ?c) (ti_fileId j)" using old [OF j] i(3) op by auto
  show "stored_ok (ti_schema j) bytes" if "heap (ctx_storage ?c) (ti_fileId j) r = Some bytes" for r bytes
    using that old [OF j] empty i(4) [of m j r bytes] s(2) by auto
  show "m = m'" if "getTable m' (ctx_catalog ?c) = Some j2" "ti_fileId j = ti_fileId j2" for m' j2
    using old [OF j] old [OF that(1)] i(5) [of m j m' j2] that(2) by auto
next
  fix m
  show "leaf_tree tr" if "ctx_indexes (add_table n sch f s tree ctx) m = Some tr" for tr
    using that ctx_inv_facts(6) [OF inv, of m tr] tree by (auto split: if_splits)
  assume m: "full_path (m @ ''.db'') \<in> ran (file_name (st_disk (ctx_storage (add_table n sch f s tree ctx))))"
  show "getTable m (ctx_catalog (add_table n sch f s tree ctx)) \<noteq> None"
  proof (cases "m = n")
    case False
    then have "full_path (m @ ''.db'') \<in> ran (file_name (st_disk (ctx_storage ctx)))"
      using m nm by (auto simp: full_path_def ran_def split: if_splits)
    then show ?thesis using ctx_inv_facts(7) [OF inv, of m] False by simp
  qed simp
qed

lemma add_table_spec:
  assumes inv: "ctx_inv ctx" and fresh: "fresh_table (ctx_storage ctx) n" and new: "getTable n (ctx_catalog ctx) = None"
  obtains f s where "createTable n (ctx_storage ctx) = Inr (f, s)" "created ctx n sch (add_table n sch f s (new_BPlusTree grow 128) ctx)"
proof -
  note i = ctx_inv_facts [OF inv]
  let ?f = "dm_nextFileId (st_disk (ctx_storage ctx))"
  obtain s where s: "createTable n (ctx_storage ctx) = Inr (?f, s)" "heap_inv s" "heap s = heap (ctx_storage ctx)" "\<not> table_open (ctx_storage ctx) ?f"
    "\<forall>g. table_open s g = (table_open (ctx_storage ctx) g \<or> g = ?f)"
    "\<forall>g. getPageCount g s = (if g = ?f then 1 else getPageCount g (ctx_storage ctx))"
    using createTable_spec [OF i(2) fresh] by blast
  let ?c = "add_table n sch ?f s (new_BPlusTree grow 128) ctx"
  have inv': "ctx_inv ?c"
    by (rule add_table_inv [OF inv s(2,3,4)])
      (use s(5) createTable_names(1) [OF s(1)] leaf_tree_new(1) [of 128 grow] in \<open>simp_all add: disk_names_def\<close>)
  have "table_open s ?f" using s(5) by simp
  moreover have "heap s ?f r = None" for r using s(3,4) by (simp add: heap_def)
  ultimately have "set (heap_list s ?f) = {}" by (simp add: heap_list_set)
  then have rows_n: "table_rows ?c n = []" by (simp add: table_rows_def stored_rows_def)
  have rows_m: "table_rows ?c m = table_rows ctx m" if "m \<noteq> n" for m
  proof (cases "getTable m (ctx_catalog ctx)")
    case (Some j)
    have "heap_list s (ti_fileId j) = heap_list (ctx_storage ctx) (ti_fileId j)"
      by (rule heap_list_unique) (use i(3) [OF Some] s(3,5) in simp_all)
    with Some that show ?thesis by (simp add: table_rows_def stored_rows_def)
  qed (simp add: table_rows_def that)
  have "created ctx n sch ?c"
    unfolding created_def
    by (intro conjI allI impI inv' rows_n rows_m)
      (use s(6) in \<open>simp_all add: index_of_def getIndex_def new_BPlusTree_def entries_def\<close>)
  with s(1) show thesis by (rule that)
qed

lemma ctx_inv_empty:
  "0 < k \<Longrightarrow> ctx_inv \<lparr>ctx_catalog = [], ctx_storage = \<lparr>st_disk = new_DiskManager os openable, st_pool = new_BufferPool k\<rparr>, ctx_indexes = Map.empty\<rparr>"
  using heap_inv_new [of k os openable] by (simp add: ctx_inv_def catalog_ok_empty getTable_def file_name_def new_DiskManager_def ran_def)


section \<open>Properties\<close>

text \<open>A context with one new table, for the witnesses.\<close>

definition sample_schema :: Schema where
  "sample_schema = [\<lparr>col_name = ''id'', col_type = DT_INT\<rparr>, \<lparr>col_name = ''name'', col_type = DT_TEXT\<rparr>]"

definition empty_ctx :: ExecutionContext where
  "empty_ctx = \<lparr>ctx_catalog = [], ctx_storage = fresh_storage, ctx_indexes = Map.empty\<rparr>"

abbreviation sample_row :: Tuple where
  "sample_row \<equiv> [IntValue 7, TextValue ''ab'']"

lemma sample_row_ok: "row_ok sample_schema sample_row" "length (serializeTuple sample_row sample_schema) = 10"
  by (simp_all add: row_ok_def storable_def well_typed_def sample_schema_def in_int32_def serialize_value_def)

lemma sample_ctx:
  obtains ctx info where "ctx_inv ctx" "getTable ''t'' (ctx_catalog ctx) = Some info" "ti_schema info = sample_schema"
    "table_rows ctx ''t'' = []" "index_of ctx ''t'' = Map.empty" "map_option bt_maxLeafKeys (getIndex ''t'' ctx) = Some 127"
    "getPageCount (ti_fileId info) (ctx_storage ctx) = 1"
proof -
  have "ctx_inv empty_ctx" using ctx_inv_empty [of 3 Map.empty "\<lambda>_. True"] by (simp add: empty_ctx_def fresh_storage_def)
  then obtain f s where "created empty_ctx ''t'' sample_schema (add_table ''t'' sample_schema f s (new_BPlusTree Suc 128) empty_ctx)"
    by (rule add_table_spec [where n = "''t''" and grow = Suc and sch = sample_schema])
      (use fresh_storage_ok(2) in \<open>simp_all add: empty_ctx_def getTable_def\<close>)
  then show thesis unfolding created_def by (elim conjE exE) (rule that; assumption)
qed

lemma index_room_few:
  "map_option bt_maxLeafKeys (getIndex n ctx) = Some 127 \<Longrightarrow> card (dom (index_of ctx n)) < 127 \<Longrightarrow> index_room ctx n t"
  by (auto simp: index_room_def index_of_def split: option.splits list.splits Value.splits)

lemma sample_insert:
  obtains ctx info x ctx' where "ctx_inv ctx" "getTable ''t'' (ctx_catalog ctx) = Some info" "ti_schema info = sample_schema"
    "table_rows ctx ''t'' = []" "exec_init (new_InsertExecutor ''t'' sample_row) ctx = Inr (InsertExecutor x, ctx')"
    "inserted ctx ''t'' info sample_row ctx'" "table_rows ctx' ''t'' = [sample_row]" "\<exists>rid. index_of ctx' ''t'' = [7 \<mapsto> rid]"
proof -
  obtain ctx info where c: "ctx_inv ctx" "getTable ''t'' (ctx_catalog ctx) = Some info" "ti_schema info = sample_schema"
    "table_rows ctx ''t'' = []" "index_of ctx ''t'' = Map.empty" "map_option bt_maxLeafKeys (getIndex ''t'' ctx) = Some 127"
    "getPageCount (ti_fileId info) (ctx_storage ctx) = 1"
    by (rule sample_ctx)
  have ix: "index_room ctx ''t'' sample_row" by (rule index_room_few [OF c(6)]) (simp add: c(5))
  obtain x ctx' where x: "exec_init (new_InsertExecutor ''t'' sample_row) ctx = Inr (InsertExecutor x, ctx')"
    "inserted ctx ''t'' info sample_row ctx'"
    using insert_init_spec [OF c(1,2) _ _ _ ix] sample_row_ok c(3,7) by auto
  have "mset (table_rows ctx' ''t'') = {#sample_row#}" using x(2) c(4) by (simp add: inserted_def)
  then have "table_rows ctx' ''t'' = [sample_row]" by simp
  moreover have "getIndex ''t'' ctx \<noteq> None" using c(6) by auto
  then obtain rid where "index_of ctx' ''t'' = index_add sample_row rid (index_of ctx ''t'')"
    using x(2) by (auto simp: inserted_def)
  then have "index_of ctx' ''t'' = [7 \<mapsto> rid]" by (simp add: index_add_def c(5))
  ultimately show thesis using that [OF c(1-4) x] by blast
qed

text \<open>C7: the insertion of a row implements adding it to the table.  For a row that fits the schema, a page
  and the index leaf, \<open>InsertExecutor\<close> succeeds, the table has exactly that row more, every other table has
  the same rows as before in the same order, and the invariant of the engine holds again.\<close>

theorem insertion_adds_row:
  assumes "ctx_inv ctx" "getTable n (ctx_catalog ctx) = Some info" "row_ok (ti_schema info) t"
    "length (serializeTuple t (ti_schema info)) \<le> 3576" "getPageCount (ti_fileId info) (ctx_storage ctx) + 1 < 4294967295" "index_room ctx n t"
  shows "\<exists>e ctx'. exec_init (new_InsertExecutor n t) ctx = Inr (e, ctx') \<and> ctx_inv ctx' \<and>
    mset (table_rows ctx' n) = add_mset t (mset (table_rows ctx n)) \<and> (m \<noteq> n \<longrightarrow> table_rows ctx' m = table_rows ctx m)"
proof -
  obtain x ctx' where x: "exec_init (new_InsertExecutor n t) ctx = Inr (InsertExecutor x, ctx')" "inserted ctx n info t ctx'"
    using insert_init_spec [OF assms] by blast
  then show ?thesis by (intro exI [of _ "InsertExecutor x"] exI [of _ ctx']) (simp add: inserted_def)
qed

theorem insertion_adds_row_witness:
  "\<exists>ctx e ctx'. exec_init (new_InsertExecutor ''t'' sample_row) ctx = Inr (e, ctx') \<and> mset (table_rows ctx' ''t'') = {#sample_row#}"
proof -
  obtain ctx info where c: "ctx_inv ctx" "getTable ''t'' (ctx_catalog ctx) = Some info" "ti_schema info = sample_schema"
    "table_rows ctx ''t'' = []" "index_of ctx ''t'' = Map.empty" "map_option bt_maxLeafKeys (getIndex ''t'' ctx) = Some 127"
    "getPageCount (ti_fileId info) (ctx_storage ctx) = 1"
    by (rule sample_ctx)
  have ix: "index_room ctx ''t'' sample_row" by (rule index_room_few [OF c(6)]) (simp add: c(5))
  from insertion_adds_row [OF c(1,2) _ _ _ ix, of "''t''"] sample_row_ok c(3,4,7) show ?thesis by auto
qed

text \<open>C8: a deletion removes exactly the rows of the table that pass the predicate, keeps the others in their
  order, returns one row with the number of removed rows, and takes the non-negative integer keys of the removed
  rows, and only those, out of the index: the entry of a removed row whose key is negative stays.\<close>

theorem deletion_removes_rows:
  assumes "ctx_inv ctx" "getTable n (ctx_catalog ctx) = Some info" "\<forall>t \<in> set (table_rows ctx n). passes p t = Inr (q t)"
    "length (filter q (table_rows ctx n)) \<le> 2147483647"
  shows "\<exists>e ctx' e'. exec_init (new_DeleteExecutor n p) ctx = Inr (e, ctx') \<and> ctx_inv ctx' \<and>
    table_rows ctx' n = filter (\<lambda>t. \<not> q t) (table_rows ctx n) \<and> (m \<noteq> n \<longrightarrow> table_rows ctx' m = table_rows ctx m) \<and>
    drain_all e = Inr ([[IntValue (int (length (filter q (table_rows ctx n))))]], e') \<and>
    index_of ctx' n = index_of ctx n |` (- keys_of (filter q (table_rows ctx n)))"
proof -
  obtain x ctx' where x: "exec_init (new_DeleteExecutor n p) ctx = Inr (DeleteExecutor x, ctx')" "deleted ctx n info q ctx'"
    "rows (DeleteExecutor x) = Inr [[IntValue (int (length (filter q (table_rows ctx n))))]]"
    using delete_init_spec [OF assms] by blast
  obtain e' where "drain_all (DeleteExecutor x) = Inr ([[IntValue (int (length (filter q (table_rows ctx n))))]], e')"
    by (rule drain_all_rows [OF x(3)])
  then show ?thesis
    by (intro exI [of _ "DeleteExecutor x"] exI [of _ ctx'] exI [of _ e']) (use x in \<open>simp add: deleted_def\<close>)
qed

theorem deletion_removes_rows_witness:
  "\<exists>ctx e ctx' e'. table_rows ctx ''t'' = [sample_row] \<and> exec_init (new_DeleteExecutor ''t'' None) ctx = Inr (e, ctx') \<and>
     table_rows ctx' ''t'' = [] \<and> drain_all e = Inr ([[IntValue 1]], e') \<and> index_of ctx' ''t'' = Map.empty"
proof -
  obtain ctx0 info x ctx where c: "ctx_inv ctx0" "getTable ''t'' (ctx_catalog ctx0) = Some info"
    "inserted ctx0 ''t'' info sample_row ctx" "table_rows ctx ''t'' = [sample_row]" "\<exists>rid. index_of ctx ''t'' = [7 \<mapsto> rid]"
    by (rule sample_insert)
  then have i: "ctx_inv ctx" "getTable ''t'' (ctx_catalog ctx) = Some (info\<lparr>ti_rowCount := to_u32 (ti_rowCount info + 1)\<rparr>)"
    by (simp_all add: inserted_def)
  have k: "keys_of [sample_row] = {7}" by (auto simp: keys_of_def)
  from deletion_removes_rows [OF i, of None "\<lambda>_. True" "''t''"] c(4) obtain e ctx' e' where
    e: "exec_init (new_DeleteExecutor ''t'' None) ctx = Inr (e, ctx')" "table_rows ctx' ''t'' = []" "drain_all e = Inr ([[IntValue 1]], e')"
      "index_of ctx' ''t'' = index_of ctx ''t'' |` (- {7})"
    by (auto simp: passes_def k)
  moreover have "index_of ctx' ''t'' = Map.empty" using c(5) e(4) by auto
  ultimately show ?thesis using c(4) by blast
qed


text \<open>Reading operators leave the context as it was, up to what the pool holds.\<close>

definition unchanged :: "ExecutionContext \<Rightarrow> ExecutionContext \<Rightarrow> bool" where
  "unchanged ctx ctx' \<longleftrightarrow> ctx_inv ctx' \<and> table_rows ctx' = table_rows ctx \<and> ctx_catalog ctx' = ctx_catalog ctx \<and> ctx_indexes ctx' = ctx_indexes ctx"

lemma seqscan_unchanged:
  assumes inv: "ctx_inv ctx" and info: "getTable n (ctx_catalog ctx) = Some info" and p: "\<forall>t \<in> set (table_rows ctx n). passes p t = Inr (q t)"
  obtains e ctx' where "exec_init (new_SeqScanExecutor n p) ctx = Inr (e, ctx')" "unchanged ctx ctx'"
    "rows e = Inr (filter q (table_rows ctx n))" "outputSchema e = ti_schema info"
proof -
  obtain x s' where x: "exec_init (new_SeqScanExecutor n p) ctx = Inr (SeqScanExecutor x, ctx\<lparr>ctx_storage := s'\<rparr>)"
    "rows (SeqScanExecutor x) = Inr (filter q (table_rows ctx n))" "outputSchema (SeqScanExecutor x) = ti_schema info"
    "same_heap s' (ctx_storage ctx)" "names s' = names (ctx_storage ctx)"
    by (rule seqscan_init_spec [OF assms]) (rule that)
  have "unchanged ctx (ctx\<lparr>ctx_storage := s'\<rparr>)"
    using ctx_inv_same_heap [OF inv x(4,5)] by (auto simp: unchanged_def fun_eq_iff)
  then show thesis by (rule that [OF x(1) _ x(2,3)])
qed

text \<open>C20: a sequential scan returns the rows of the table that pass the predicate, each once, in scan order,
  and changes no table.\<close>

theorem scan_gives_matching_rows:
  assumes "ctx_inv ctx" "getTable n (ctx_catalog ctx) = Some info" "\<forall>t \<in> set (table_rows ctx n). passes p t = Inr (q t)"
  shows "\<exists>e ctx' e'. exec_init (new_SeqScanExecutor n p) ctx = Inr (e, ctx') \<and> drain_all e = Inr (filter q (table_rows ctx n), e') \<and>
    outputSchema e = ti_schema info \<and> ctx_inv ctx' \<and> table_rows ctx' = table_rows ctx"
proof -
  obtain e ctx' where e: "exec_init (new_SeqScanExecutor n p) ctx = Inr (e, ctx')" "unchanged ctx ctx'"
    "rows e = Inr (filter q (table_rows ctx n))" "outputSchema e = ti_schema info"
    by (rule seqscan_unchanged [OF assms])
  obtain e' where "drain_all e = Inr (filter q (table_rows ctx n), e')" by (rule drain_all_rows [OF e(3)])
  with e show ?thesis unfolding unchanged_def by blast
qed

theorem scan_gives_matching_rows_witness:
  "\<exists>ctx e ctx' e'. table_rows ctx ''t'' = [sample_row] \<and> exec_init (new_SeqScanExecutor ''t'' None) ctx = Inr (e, ctx') \<and>
     drain_all e = Inr ([sample_row], e')"
proof -
  obtain ctx0 info x ctx where c: "ctx_inv ctx0" "getTable ''t'' (ctx_catalog ctx0) = Some info"
    "inserted ctx0 ''t'' info sample_row ctx" "table_rows ctx ''t'' = [sample_row]"
    by (rule sample_insert)
  then have i: "ctx_inv ctx" "getTable ''t'' (ctx_catalog ctx) = Some (info\<lparr>ti_rowCount := to_u32 (ti_rowCount info + 1)\<rparr>)"
    by (simp_all add: inserted_def)
  from scan_gives_matching_rows [OF i, of None "\<lambda>_. True"] c(4) show ?thesis by (auto simp: passes_def)
qed

text \<open>C26: predicate push-down.  Drained by \<open>next\<close> until it returns false, a \<open>FilterExecutor\<close> above a full scan
  and a scan that takes the predicate itself return the same rows in the same order, those of the table that
  satisfy the predicate, and neither changes a table.\<close>

theorem filter_pushdown:
  assumes "ctx_inv ctx" "getTable n (ctx_catalog ctx) = Some info" "\<forall>t \<in> set (table_rows ctx n). p t = Inr (q t)"
  shows "\<exists>e1 c1 d1 e2 c2 d2. exec_init (new_FilterExecutor (new_SeqScanExecutor n None) (Some p)) ctx = Inr (e1, c1) \<and>
    exec_init (new_SeqScanExecutor n (Some p)) ctx = Inr (e2, c2) \<and>
    drain_all e1 = Inr (filter q (table_rows ctx n), d1) \<and> drain_all e2 = Inr (filter q (table_rows ctx n), d2) \<and>
    table_rows c1 = table_rows ctx \<and> table_rows c2 = table_rows ctx"
proof -
  have a: "\<forall>t \<in> set (table_rows ctx n). passes None t = Inr True" by (simp add: passes_def)
  have b: "\<forall>t \<in> set (table_rows ctx n). passes (Some p) t = Inr (q t)" using assms(3) by (simp add: passes_def)
  obtain e c where e: "exec_init (new_SeqScanExecutor n None) ctx = Inr (e, c)" "unchanged ctx c"
      "rows e = Inr (filter (\<lambda>_. True) (table_rows ctx n))"
    by (rule seqscan_unchanged [OF assms(1,2) a])
  obtain e2 c2 where e2: "exec_init (new_SeqScanExecutor n (Some p)) ctx = Inr (e2, c2)" "unchanged ctx c2"
      "rows e2 = Inr (filter q (table_rows ctx n))"
    by (rule seqscan_unchanged [OF assms(1,2) b])
  let ?e1 = "FilterExecutor e (Some p)"
  have "filterE (apply_predicate (Some p)) (table_rows ctx n) = Inr (filter q (table_rows ctx n))"
    using assms(3) by (intro filterE_pure) (simp add: apply_predicate_def)
  then have "rows ?e1 = Inr (filter q (table_rows ctx n))" using e(3) by simp
  then obtain d1 where d1: "drain_all ?e1 = Inr (filter q (table_rows ctx n), d1)" by (rule drain_all_rows)
  obtain d2 where d2: "drain_all e2 = Inr (filter q (table_rows ctx n), d2)" by (rule drain_all_rows [OF e2(3)])
  have "exec_init (new_FilterExecutor (new_SeqScanExecutor n None) (Some p)) ctx = Inr (?e1, c)"
    using e(1) by (simp add: new_FilterExecutor_def)
  then show ?thesis using e2 d1 d2 e(2) unfolding unchanged_def by blast
qed

theorem filter_pushdown_witness:
  "\<exists>ctx e1 c1 d1. exec_init (new_FilterExecutor (new_SeqScanExecutor ''t'' None) (Some (\<lambda>t. Inr (t = sample_row)))) ctx = Inr (e1, c1) \<and>
     drain_all e1 = Inr ([sample_row], d1)"
proof -
  obtain ctx0 info x ctx where c: "ctx_inv ctx0" "getTable ''t'' (ctx_catalog ctx0) = Some info"
    "inserted ctx0 ''t'' info sample_row ctx" "table_rows ctx ''t'' = [sample_row]"
    by (rule sample_insert)
  then have i: "ctx_inv ctx" "getTable ''t'' (ctx_catalog ctx) = Some (info\<lparr>ti_rowCount := to_u32 (ti_rowCount info + 1)\<rparr>)"
    by (simp_all add: inserted_def)
  have "\<forall>t \<in> set (table_rows ctx ''t''). Inr (t = sample_row) = (Inr (t = sample_row) :: bool res)" by simp
  from filter_pushdown [OF i this] c(4) show ?thesis by (elim exE conjE) (intro exI conjI, assumption, simp)
qed

lemma concat_map_filter: "concat (map (\<lambda>r. if P r then [f r] else []) rs) = map f (filter P rs)"
  by (induction rs) simp_all

text \<open>C14: a nested-loop join of two table scans gives, for every row of the left table in order and every row
  of the right table in order, their concatenation exactly when the join columns agree; its schema is the
  concatenation of both.\<close>

theorem join_gives_matching_pairs:
  assumes inv: "ctx_inv ctx" and tables: "getTable n (ctx_catalog ctx) = Some info" "getTable m (ctx_catalog ctx) = Some info2"
    and cols: "findColumn (ti_schema info) c = int i" "findColumn (ti_schema info2) d = int j"
  shows "\<exists>e ctx' e'. exec_init (new_NestedLoopJoinExecutor (new_SeqScanExecutor n None) (new_SeqScanExecutor m None) c d) ctx = Inr (e, ctx') \<and>
    drain_all e = Inr ([l @ r. l \<leftarrow> table_rows ctx n, r \<leftarrow> table_rows ctx m, l ! i = r ! j], e') \<and>
    outputSchema e = ti_schema info @ ti_schema info2 \<and> ctx_inv ctx' \<and> table_rows ctx' = table_rows ctx"
proof -
  have a: "\<forall>t \<in> A. passes None t = Inr True" for A by (simp add: passes_def)
  obtain l c1 where l: "exec_init (new_SeqScanExecutor n None) ctx = Inr (l, c1)" "unchanged ctx c1"
    "rows l = Inr (filter (\<lambda>_. True) (table_rows ctx n))" "outputSchema l = ti_schema info"
    by (rule seqscan_unchanged [OF inv tables(1) a])
  have c1: "ctx_inv c1" "getTable m (ctx_catalog c1) = Some info2" using l(2) tables(2) by (simp_all add: unchanged_def)
  obtain r c2 where r: "exec_init (new_SeqScanExecutor m None) c1 = Inr (r, c2)" "unchanged c1 c2"
    "rows r = Inr (filter (\<lambda>_. True) (table_rows c1 m))" "outputSchema r = ti_schema info2"
    by (rule seqscan_unchanged [OF c1 a])
  obtain l' where l': "drain_all l = Inr (table_rows ctx n, l')" "outputSchema l' = outputSchema l"
    using drain_all_rows [OF l(3)] by auto
  obtain r' where r': "drain_all r = Inr (table_rows ctx m, r')" "outputSchema r' = outputSchema r"
    using drain_all_rows [OF r(3)] l(2) by (auto simp: unchanged_def)
  have len: "k < length t" if "findColumn (ti_schema nf) col = int k" "getTable x (ctx_catalog ctx) = Some nf" "t \<in> set (table_rows ctx x)" for k col nf x t
  proof -
    have "k < length (ti_schema nf)" by (rule findColumn_cases [of "ti_schema nf" col]) (use that(1) in auto)
    moreover have "row_ok (ti_schema nf) t" by (rule table_rows_ok [OF inv that(2,3)])
    ultimately show ?thesis using well_typed_length [of t "ti_schema nf"] by (simp add: row_ok_def columnCount_def)
  qed
  let ?J = "join_spec i j (table_rows ctx n) (table_rows ctx m)"
  have outer: "join_outer (int i) (int j) (table_rows ctx n) (table_rows ctx m) [] = Inr ?J"
    by (subst join_outer_spec) (use len [OF cols(1) tables(1)] len [OF cols(2) tables(2)] in \<open>auto simp: list_all_iff\<close>)
  have eq: "[l @ r. l \<leftarrow> table_rows ctx n, r \<leftarrow> table_rows ctx m, l ! i = r ! j] = ?J"
    by (simp add: join_spec_def concat_map_filter)
  let ?x = "\<lparr>jn_leftCol = c, jn_rightCol = d, jn_outputSchema = ti_schema info @ ti_schema info2, jn_leftTuples = table_rows ctx n,
     jn_rightTuples = table_rows ctx m, jn_joinResults = ?J, jn_currentIdx = 0\<rparr>"
  let ?e = "NestedLoopJoinExecutor l' r' ?x"
  have run: "exec_init (new_NestedLoopJoinExecutor (new_SeqScanExecutor n None) (new_SeqScanExecutor m None) c d) ctx = Inr (?e, c2)"
    using l(1,4) r(1,4) l' r' cols outer by (simp add: new_NestedLoopJoinExecutor_def join_tuples_def)
  obtain e' where "drain_all ?e = Inr (?J, e')" using drain_all_rows [of ?e ?J] by auto
  moreover have "ctx_inv c2" "table_rows c2 = table_rows ctx" using l(2) r(2) by (simp_all add: unchanged_def)
  ultimately show ?thesis using run unfolding eq by (intro exI [of _ ?e] exI [of _ c2] exI [of _ e']) simp
qed

theorem join_gives_matching_pairs_witness:
  "\<exists>ctx e ctx' e'. exec_init (new_NestedLoopJoinExecutor (new_SeqScanExecutor ''t'' None) (new_SeqScanExecutor ''t'' None) ''id'' ''id'') ctx = Inr (e, ctx') \<and>
     drain_all e = Inr ([sample_row @ sample_row], e')"
proof -
  obtain ctx0 info x ctx where c: "ctx_inv ctx0" "getTable ''t'' (ctx_catalog ctx0) = Some info" "ti_schema info = sample_schema"
    "inserted ctx0 ''t'' info sample_row ctx" "table_rows ctx ''t'' = [sample_row]"
    by (rule sample_insert)
  let ?i = "info\<lparr>ti_rowCount := to_u32 (ti_rowCount info + 1)\<rparr>"
  have i: "ctx_inv ctx" "getTable ''t'' (ctx_catalog ctx) = Some ?i" using c(4) by (simp_all add: inserted_def)
  have f: "findColumn (ti_schema ?i) ''id'' = int 0" using c(3) by (simp add: findColumn_def sample_schema_def)
  from join_gives_matching_pairs [OF i i(2) f f] c(5) show ?thesis by (elim exE conjE) (intro exI conjI, assumption, simp)
qed


text \<open>C40: an index scan returns nothing.  Even when the index holds the key and \<open>init\<close> finds the record
  identifier, \<open>next\<close> reports the end at once, because the executor has no page manager to read the row with.\<close>

theorem index_scan_returns_nothing:
  assumes "ctx_inv ctx" "getTable n (ctx_catalog ctx) = Some info" "index_of ctx n k = Some rid"
  shows "\<exists>x e'. exec_init (new_IndexScanExecutor n k) ctx = Inr (IndexScanExecutor x, ctx) \<and> \<not> is_done x \<and> is_resultRid x = rid \<and>
    drain_all (IndexScanExecutor x) = Inr ([], e')"
proof -
  obtain tree where tree: "getIndex n ctx = Some tree" "entries tree k = Some rid" using assms(3) by (auto simp: index_of_def split: option.splits)
  have "bt_search tree k = Inr (Some rid)" using bt_search_spec [of tree k] ctx_inv_facts(6) [OF assms(1)] tree by (simp add: getIndex_def)
  then have run: "exec_init (new_IndexScanExecutor n k) ctx = Inr (IndexScanExecutor \<lparr>is_tableName = n, is_searchKey = k, is_schema = ti_schema info,
      is_fileId = ti_fileId info, is_done = False, is_resultRid = rid\<rparr>, ctx)" (is "_ = Inr (IndexScanExecutor ?x, ctx)")
    using assms(2) tree(1) by (simp add: new_IndexScanExecutor_def indexscan_init_def find_table_def)
  obtain e' where "drain_all (IndexScanExecutor ?x) = Inr ([], e')" using drain_all_rows [of "IndexScanExecutor ?x" "[]"] by auto
  with run show ?thesis by (intro exI [of _ ?x] exI [of _ e']) simp
qed

theorem index_scan_returns_nothing_witness:
  "\<exists>ctx e e'. table_rows ctx ''t'' = [sample_row] \<and> exec_init (new_IndexScanExecutor ''t'' 7) ctx = Inr (e, ctx) \<and> drain_all e = Inr ([], e')"
proof -
  obtain ctx0 info x ctx where c: "ctx_inv ctx0" "getTable ''t'' (ctx_catalog ctx0) = Some info"
    "inserted ctx0 ''t'' info sample_row ctx" "table_rows ctx ''t'' = [sample_row]" "\<exists>rid. index_of ctx ''t'' = [7 \<mapsto> rid]"
    by (rule sample_insert)
  then have i: "ctx_inv ctx" "getTable ''t'' (ctx_catalog ctx) = Some (info\<lparr>ti_rowCount := to_u32 (ti_rowCount info + 1)\<rparr>)"
    by (simp_all add: inserted_def)
  obtain rid where "index_of ctx ''t'' 7 = Some rid" using c(5) by auto
  from index_scan_returns_nothing [OF i this] c(4) show ?thesis by blast
qed

section \<open>Many insertions\<close>

definition insert_all :: "string \<Rightarrow> Tuple list \<Rightarrow> ExecutionContext \<Rightarrow> ExecutionContext res" where
  "insert_all n ts ctx = foldE (\<lambda>t ctx. bindE (exec_init (new_InsertExecutor n t) ctx) (\<lambda>(_, ctx). Inr ctx)) ts ctx"

lemma insert_exec_tree:
  assumes "exec_init (new_InsertExecutor n (IntValue k # vs)) ctx = Inr (e, ctx')" "getIndex n ctx = Some tree"
  shows "\<exists>rid b tree'. bt_insert k rid tree = Inr (b, tree') \<and> getIndex n ctx' = Some tree'"
  using assms
  by (auto simp: new_InsertExecutor_def insert_init_def bindE_Inr_iff Let_def with_storage_def index_insert_def getIndex_def ctx_setIndex_def) blast

lemma foldE_cong: "(\<And>x s. x \<in> set xs \<Longrightarrow> f x s = g x s) \<Longrightarrow> foldE f xs s = foldE g xs s"
proof (induction xs arbitrary: s)
  case (Cons x xs)
  then show ?case by (cases "g x s") simp_all
qed simp

text \<open>The state after inserting rows with distinct integer keys into a new table: the index tree is the one
  those insertions build.\<close>

definition filled :: "(nat \<Rightarrow> nat) \<Rightarrow> string \<Rightarrow> Schema \<Rightarrow> Tuple list \<Rightarrow> ExecutionContext \<Rightarrow> bool" where
  "filled grow n sch ts ctx \<longleftrightarrow> ctx_inv ctx \<and> mset (table_rows ctx n) = mset ts \<and>
     (\<exists>info. getTable n (ctx_catalog ctx) = Some info \<and> ti_schema info = sch \<and> getPageCount (ti_fileId info) (ctx_storage ctx) \<le> 1 + 2 * length ts) \<and>
     (\<exists>tree f. getIndex n ctx = Some tree \<and> foldE (\<lambda>k. run_index_op (Ins k (f k))) (map row_key ts) (new_BPlusTree grow 128) = Inr tree \<and>
        dom (entries tree) = set (map row_key ts) \<and> bt_maxLeafKeys tree = 127)"

lemma filled_insert:
  assumes f: "filled grow n sch ts ctx" and t: "row_ok sch t" "t = IntValue k # vs" "length (serializeTuple t sch) \<le> 3576"
    and k: "k \<notin> set (map row_key ts)" "length ts < 127" "distinct (map row_key ts)"
  shows "\<exists>e ctx'. exec_init (new_InsertExecutor n t) ctx = Inr (e, ctx') \<and> filled grow n sch (ts @ [t]) ctx'"
proof -
  obtain info where info: "getTable n (ctx_catalog ctx) = Some info" "ti_schema info = sch" "getPageCount (ti_fileId info) (ctx_storage ctx) \<le> 1 + 2 * length ts"
    using f by (auto simp: filled_def)
  obtain tree g where tree: "getIndex n ctx = Some tree" "foldE (\<lambda>k. run_index_op (Ins k (g k))) (map row_key ts) (new_BPlusTree grow 128) = Inr tree"
    "dom (entries tree) = set (map row_key ts)" "bt_maxLeafKeys tree = 127"
    using f by (auto simp: filled_def)
  have inv: "ctx_inv ctx" and ms: "mset (table_rows ctx n) = mset ts" using f by (simp_all add: filled_def)
  have "card (dom (entries tree)) = length ts" unfolding tree(3) using distinct_card [OF k(3)] by simp
  then have room: "index_room ctx n t" using tree(1,4) k(2) t(2) by (simp add: index_room_def)
  obtain x ctx' where x: "exec_init (new_InsertExecutor n t) ctx = Inr (InsertExecutor x, ctx')" "inserted ctx n info t ctx'"
    using insert_init_spec [OF inv info(1) _ _ _ room] t(1,3) info(2,3) k(2) by auto
  obtain rid b tree' where t': "bt_insert k rid tree = Inr (b, tree')" "getIndex n ctx' = Some tree'"
    using insert_exec_tree [OF x(1) [unfolded t(2)] tree(1)] by blast
  let ?g = "g(k := rid)"
  have key: "row_key t = k" using t(2) by (simp add: row_key_def)
  have "foldE (\<lambda>k. run_index_op (Ins k (?g k))) (map row_key ts) (new_BPlusTree grow 128) = Inr tree"
    using tree(2) k(1) by (subst foldE_cong [where g = "\<lambda>k. run_index_op (Ins k (g k))"]) auto
  then have run: "foldE (\<lambda>k. run_index_op (Ins k (?g k))) (map row_key (ts @ [t])) (new_BPlusTree grow 128) = Inr tree'"
    using t'(1) key by (simp add: foldE_append)
  have lt: "leaf_tree tree" using ctx_inv_facts(6) [OF inv] tree(1) by (simp add: getIndex_def)
  have "entries tree k = None" using k(1) tree(3) by auto
  moreover have "bt_entryCount tree < bt_maxLeafKeys tree"
    using entryCount_card [OF lt] \<open>card (dom (entries tree)) = length ts\<close> tree(4) k(2) by simp
  ultimately have "entries tree' = (entries tree)(k \<mapsto> rid)" "bt_maxLeafKeys tree' = 127"
    using bt_insert_spec [OF lt, of k rid] t'(1) tree(4) by auto
  then have "dom (entries tree') = set (map row_key (ts @ [t]))" "bt_maxLeafKeys tree' = 127" using tree(3) key by auto
  moreover have "getPageCount (ti_fileId info) (ctx_storage ctx') \<le> getPageCount (ti_fileId info) (ctx_storage ctx) + 2"
    using x(2) unfolding inserted_def by (elim conjE allE [of _ "ti_fileId info"]) simp
  ultimately have "filled grow n sch (ts @ [t]) ctx'"
    unfolding filled_def using x(2) run t'(2) info ms by (auto simp: inserted_def)
  with x(1) show ?thesis by blast
qed


lemma filled_created:
  assumes "created ctx n sch ctx'" "getIndex n ctx' = Some (new_BPlusTree grow 128)"
  shows "filled grow n sch [] ctx'"
  using assms by (auto simp: created_def filled_def index_of_def)

lemma insert_all_fill:
  assumes "filled grow n sch [] ctx" "\<forall>t \<in> set ts. row_ok sch t \<and> value_type (hd t) = DT_INT \<and> length (serializeTuple t sch) \<le> 3576"
    "length ts \<le> 127" "distinct (map row_key ts)"
  shows "\<exists>ctx'. insert_all n ts ctx = Inr ctx' \<and> filled grow n sch ts ctx'"
  using assms(2-)
proof (induction ts rule: rev_induct)
  case Nil
  then show ?case using assms(1) by (simp add: insert_all_def)
next
  case (snoc t ts)
  then obtain ctx1 where c1: "insert_all n ts ctx = Inr ctx1" "filled grow n sch ts ctx1" by auto
  obtain k vs where t: "t = IntValue k # vs" using snoc.prems(1) by (cases t; cases "hd t") (auto simp: row_ok_def)
  have k: "k \<notin> set (map row_key ts)" "distinct (map row_key ts)"
    using snoc.prems(3) t by (simp_all add: row_key_def [of "IntValue k # vs"])
  obtain e ctx2 where "exec_init (new_InsertExecutor n t) ctx1 = Inr (e, ctx2)" "filled grow n sch (ts @ [t]) ctx2"
    using filled_insert [OF c1(2) _ t _ k(1) _ k(2)] snoc.prems(1,2) by auto
  with c1(1) show ?case by (simp add: insert_all_def foldE_append)
qed

lemma insert_index_fails:
  assumes inv: "ctx_inv ctx" and info: "getTable n (ctx_catalog ctx) = Some info" and t: "row_ok (ti_schema info) t" "t = IntValue k # vs"
    and len: "length (serializeTuple t (ti_schema info)) \<le> 3576" and room: "getPageCount (ti_fileId info) (ctx_storage ctx) + 1 < 4294967295"
    and tree: "getIndex n ctx = Some tree" "\<forall>rid. bt_insert k rid tree = Inl e"
  shows "exec_init (new_InsertExecutor n t) ctx = Inl e"
proof -
  note i = ctx_inv_facts [OF inv]
  let ?f = "ti_fileId info" and ?s = "ctx_storage ctx" and ?b = "serializeTuple t (ti_schema info)"
  have ne: "?b \<noteq> []" using t by (simp add: row_ok_def)
  obtain r s' where s': "insertTuple ?f ?b (length ?b) ?s = Inr (r, s')"
    using pm.ins_law [OF i(2) i(3) [OF info] room ne len] by blast
  have "index_insert n t r (ctx\<lparr>ctx_storage := s'\<rparr>) = Inl e" using tree t(2) by (simp add: index_insert_def getIndex_def)
  then show ?thesis using s' info len by (simp add: new_InsertExecutor_def insert_init_def find_table_def with_storage_def Let_def)
qed

lemma filled_full:
  assumes f: "filled grow n sch ts ctx" and t: "row_ok sch t" "t = IntValue k # vs" "length (serializeTuple t sch) \<le> 3576"
    and k: "k \<notin> set (map row_key ts)" "length ts = 127" "distinct (map row_key ts)" and g: "grow 0 = 1"
  shows "exec_init (new_InsertExecutor n t) ctx = Inl (UndefinedBehaviour ''dangling reference to the split leaf'')"
proof -
  obtain info where info: "getTable n (ctx_catalog ctx) = Some info" "ti_schema info = sch" "getPageCount (ti_fileId info) (ctx_storage ctx) \<le> 1 + 2 * length ts"
    using f by (auto simp: filled_def)
  obtain tree h where tree: "getIndex n ctx = Some tree" "foldE (\<lambda>k. run_index_op (Ins k (h k))) (map row_key ts) (new_BPlusTree grow 128) = Inr tree"
    using f by (auto simp: filled_def)
  have "bt_insert k rid tree = Inl (UndefinedBehaviour ''dangling reference to the split leaf'')" for rid
  proof -
    let ?h = "h(k := rid)"
    have "foldE (\<lambda>k. run_index_op (Ins k (?h k))) (map row_key ts) (new_BPlusTree grow 128) = Inr tree"
      using tree(2) k(1) by (subst foldE_cong [where g = "\<lambda>k. run_index_op (Ins k (h k))"]) auto
    moreover have "foldE (\<lambda>k. run_index_op (Ins k (?h k))) (map row_key ts @ [k]) (new_BPlusTree grow 128) =
        Inl (UndefinedBehaviour ''dangling reference to the split leaf'')"
      by (rule split_dangling) (use g k in auto)
    ultimately show ?thesis by (cases "bt_insert k rid tree") (auto simp: foldE_append)
  qed
  then show ?thesis using f info k(2) t by (intro insert_index_fails [OF _ info(1) _ t(2) _ _ tree(1)]) (simp_all add: filled_def)
qed

text \<open>C32: with the usual growth of the node vector, a table cannot take its 128th row.  Inserting 128 rows with
  distinct integer keys into a new table whose index starts empty stores the first 127 and then meets the
  dangling reference in the first split of the index.\<close>

theorem insert_128_rows_undefined:
  assumes "ctx_inv ctx" "fresh_table (ctx_storage ctx) n" "getTable n (ctx_catalog ctx) = None" "grow 0 = 1"
    "\<forall>t \<in> set ts. row_ok sch t \<and> value_type (hd t) = DT_INT \<and> length (serializeTuple t sch) \<le> 3576" "length ts = 128" "distinct (map row_key ts)"
  shows "\<exists>f s. createTable n (ctx_storage ctx) = Inr (f, s) \<and>
    (\<exists>ctx'. insert_all n (butlast ts) (add_table n sch f s (new_BPlusTree grow 128) ctx) = Inr ctx' \<and> mset (table_rows ctx' n) = mset (butlast ts)) \<and>
    insert_all n ts (add_table n sch f s (new_BPlusTree grow 128) ctx) = Inl (UndefinedBehaviour ''dangling reference to the split leaf'')"
proof -
  obtain us t where ts: "ts = us @ [t]" using assms(6) by (cases ts rule: rev_cases) auto
  obtain k vs where t: "t = IntValue k # vs" using assms(5) ts by (cases t; cases "hd t") (auto simp: row_ok_def)
  obtain f s where s: "createTable n (ctx_storage ctx) = Inr (f, s)" "created ctx n sch (add_table n sch f s (new_BPlusTree grow 128) ctx)"
    by (rule add_table_spec [OF assms(1-3)])
  let ?c = "add_table n sch f s (new_BPlusTree grow 128) ctx"
  have "filled grow n sch [] ?c" by (rule filled_created [OF s(2)]) (simp add: getIndex_def)
  then obtain ctx' where c': "insert_all n us ?c = Inr ctx'" "filled grow n sch us ctx'"
    using insert_all_fill [of grow n sch ?c us] assms(5-7) ts by auto
  have "exec_init (new_InsertExecutor n t) ctx' = Inl (UndefinedBehaviour ''dangling reference to the split leaf'')"
    by (rule filled_full [OF c'(2) _ t]) (use assms(4-7) ts t in \<open>auto simp: row_key_def\<close>)
  then have "insert_all n ts ?c = Inl (UndefinedBehaviour ''dangling reference to the split leaf'')"
    using c'(1) ts by (simp add: insert_all_def foldE_append)
  with s(1) c' ts show ?thesis by (auto simp: filled_def)
qed

theorem insert_128_rows_undefined_witness:
  "\<exists>ctx. insert_all ''t'' (map (\<lambda>k. [IntValue k]) [1..128]) ctx = Inl (UndefinedBehaviour ''dangling reference to the split leaf'')"
proof -
  have "ctx_inv empty_ctx" using ctx_inv_empty [of 3 Map.empty "\<lambda>_. True"] by (simp add: empty_ctx_def fresh_storage_def)
  moreover have "map row_key (map (\<lambda>k. [IntValue k]) [1..128]) = [1..128]" by (simp add: row_key_def o_def)
  ultimately show ?thesis
    using insert_128_rows_undefined [of empty_ctx "''t''" "\<lambda>n. max 1 (2 * n)" "map (\<lambda>k. [IntValue k]) [1..128]" "[\<lparr>col_name = ''id'', col_type = DT_INT\<rparr>]"]
      fresh_storage_ok(2) by (fastforce simp: empty_ctx_def getTable_def row_ok_def storable_def well_typed_def in_int32_def serialize_value_def)
qed

end
