(* ===== verification/Lexer.thy ===== *)
theory Lexer
  imports StdLib
begin

text \<open>
  The tokenizer of \<open>src/parser/lexer.cpp\<close>.  The position \<open>pos\<close> in the input is the suffix
  that starts there, so each \<open>while\<close> loop over characters is a \<^const>\<open>takeWhile\<close> /
  \<^const>\<open>dropWhile\<close> pair and the outer loop is a recursion on the suffix.
\<close>

section \<open>Tokens (lexer.h)\<close>

datatype TokenType =
    TOKEN_SELECT | TOKEN_INSERT | TOKEN_INTO | TOKEN_VALUES | TOKEN_FROM | TOKEN_WHERE
  | TOKEN_CREATE | TOKEN_TABLE | TOKEN_DELETE | TOKEN_INT | TOKEN_TEXT
  | TOKEN_NUMBER | TOKEN_STRING | TOKEN_IDENTIFIER
  | TOKEN_STAR | TOKEN_COMMA | TOKEN_LPAREN | TOKEN_RPAREN | TOKEN_SEMICOLON | TOKEN_EQUALS
  | TOKEN_EOF | TOKEN_UNKNOWN

datatype Token = Token (tok_type: TokenType) (tok_value: string)

section \<open>Keywords\<close>

definition toUpper :: "string \<Rightarrow> string" where
  "toUpper s = map toupper s"

definition keywordType :: "string \<Rightarrow> TokenType" where
  "keywordType word =
     (let upper = toUpper word in
      if upper = ''SELECT'' then TOKEN_SELECT
      else if upper = ''INSERT'' then TOKEN_INSERT
      else if upper = ''INTO'' then TOKEN_INTO
      else if upper = ''VALUES'' then TOKEN_VALUES
      else if upper = ''FROM'' then TOKEN_FROM
      else if upper = ''WHERE'' then TOKEN_WHERE
      else if upper = ''CREATE'' then TOKEN_CREATE
      else if upper = ''TABLE'' then TOKEN_TABLE
      else if upper = ''DELETE'' then TOKEN_DELETE
      else if upper = ''INT'' then TOKEN_INT
      else if upper = ''TEXT'' then TOKEN_TEXT
      else TOKEN_IDENTIFIER)"

section \<open>The tokenizing loop\<close>

definition word_char :: "char \<Rightarrow> bool" where
  "word_char c \<longleftrightarrow> isalnum c \<or> c = CHR ''_''"

definition QUOTE :: char where "QUOTE = CHR 0x27"

text \<open>One turn of the outer loop per call: \<open>lex input\<close> are the tokens pushed from the position
  where \<open>input\<close> starts, up to the final end-of-file token.\<close>

function lex :: "string \<Rightarrow> Token list" where
  "lex [] = [Token TOKEN_EOF '''']"
| "lex (c # rest) =
     (if isspace c then lex rest
      else if c = CHR ''*'' then Token TOKEN_STAR ''*'' # lex rest
      else if c = CHR '','' then Token TOKEN_COMMA '','' # lex rest
      else if c = CHR ''('' then Token TOKEN_LPAREN ''('' # lex rest
      else if c = CHR '')'' then Token TOKEN_RPAREN '')'' # lex rest
      else if c = CHR '';'' then Token TOKEN_SEMICOLON '';'' # lex rest
      else if c = CHR ''='' then Token TOKEN_EQUALS ''='' # lex rest
      else if c = QUOTE then
        (let str = takeWhile (\<lambda>d. d \<noteq> QUOTE) rest;
             after = dropWhile (\<lambda>d. d \<noteq> QUOTE) rest
         in Token TOKEN_STRING str # lex (if after \<noteq> [] then tl after else after))
      else if isdigit c then
        Token TOKEN_NUMBER (takeWhile isdigit (c # rest)) # lex (dropWhile isdigit (c # rest))
      else if isalpha c \<or> c = CHR ''_'' then
        (let word = takeWhile word_char (c # rest)
         in Token (keywordType word) word # lex (dropWhile word_char (c # rest)))
      else Token TOKEN_UNKNOWN [c] # lex rest)"
  by pat_completeness auto
termination
proof (relation "measure length", goal_cases)
  case (9 c rest str after)
  have "length after \<le> length rest" using 9 by (simp add: length_dropWhile_le)
  then show ?case by (auto simp: less_Suc_eq_le)
next
  case (10 c rest)
  then show ?case by (simp add: length_dropWhile_le less_Suc_eq_le)
next
  case (11 c rest word)
  then have "word_char c" by (auto simp: word_char_def isalnum_def)
  then show ?case by (simp add: length_dropWhile_le less_Suc_eq_le)
qed auto

declare lex.simps(2) [simp del]

definition handleInput :: "string \<Rightarrow> Token list" where
  "handleInput input = lex input"

primrec tokenTypeName :: "TokenType \<Rightarrow> string" where
  "tokenTypeName TOKEN_SELECT = ''SELECT''"
| "tokenTypeName TOKEN_INSERT = ''INSERT''"
| "tokenTypeName TOKEN_INTO = ''INTO''"
| "tokenTypeName TOKEN_VALUES = ''VALUES''"
| "tokenTypeName TOKEN_FROM = ''FROM''"
| "tokenTypeName TOKEN_WHERE = ''WHERE''"
| "tokenTypeName TOKEN_CREATE = ''CREATE''"
| "tokenTypeName TOKEN_TABLE = ''TABLE''"
| "tokenTypeName TOKEN_DELETE = ''DELETE''"
| "tokenTypeName TOKEN_INT = ''INT''"
| "tokenTypeName TOKEN_TEXT = ''TEXT''"
| "tokenTypeName TOKEN_NUMBER = ''NUMBER''"
| "tokenTypeName TOKEN_STRING = ''STRING''"
| "tokenTypeName TOKEN_IDENTIFIER = ''IDENTIFIER''"
| "tokenTypeName TOKEN_STAR = ''STAR''"
| "tokenTypeName TOKEN_COMMA = ''COMMA''"
| "tokenTypeName TOKEN_LPAREN = ''LPAREN''"
| "tokenTypeName TOKEN_RPAREN = ''RPAREN''"
| "tokenTypeName TOKEN_SEMICOLON = ''SEMICOLON''"
| "tokenTypeName TOKEN_EQUALS = ''EQUALS''"
| "tokenTypeName TOKEN_EOF = ''EOF''"
| "tokenTypeName TOKEN_UNKNOWN = ''UNKNOWN''"

section \<open>Lemmas\<close>

lemma keywordType_not_special:
  "keywordType w \<notin> {TOKEN_EOF, TOKEN_UNKNOWN, TOKEN_STAR, TOKEN_COMMA, TOKEN_LPAREN, TOKEN_RPAREN,
     TOKEN_SEMICOLON, TOKEN_EQUALS, TOKEN_NUMBER, TOKEN_STRING}"
  by (simp add: keywordType_def Let_def)

lemma keywordType_not_EOF [simp]: "keywordType w \<noteq> TOKEN_EOF"
  using keywordType_not_special [of w] by simp

lemma toupper_idem [simp]: "toupper (toupper c) = toupper c"
  by (auto simp: toupper_def islower_def)

lemma keywordType_toUpper: "keywordType (toUpper w) = keywordType w"
  by (simp add: keywordType_def toUpper_def comp_def)

text \<open>A token list as the parser needs it: exactly one end-of-file token, at the end.\<close>

fun eof_terminated :: "Token list \<Rightarrow> bool" where
  "eof_terminated [] = False"
| "eof_terminated (t # ts) = (if tok_type t = TOKEN_EOF then ts = [] else eof_terminated ts)"

lemma eof_terminated_lex: "eof_terminated (lex s)"
proof (induction s rule: measure_induct_rule [of length])
  case (less s)
  show ?case
  proof (cases s)
    case (Cons c rest)
    have IH: "length s' \<le> length rest \<Longrightarrow> eof_terminated (lex s')" for s'
      using less Cons by simp
    have rest: "eof_terminated (lex rest)"
      and str: "eof_terminated (lex (tl (dropWhile P rest)))" "eof_terminated (lex (dropWhile P rest))"
      for P by (rule IH; simp add: length_dropWhile_le le_diff_conv le_SucI)+
    show ?thesis
      using rest str
      unfolding Cons lex.simps Let_def
      by (simp add: word_char_def isalnum_def split del: if_split split: if_split)
  qed simp
qed

text \<open>Lexing the pieces a printer writes.\<close>

lemma lex_space [simp]: "isspace c \<Longrightarrow> lex (c # rest) = lex rest"
  by (simp add: lex.simps)

lemma lex_symbol [simp]:
  "lex (CHR ''*'' # rest) = Token TOKEN_STAR ''*'' # lex rest"
  "lex (CHR '','' # rest) = Token TOKEN_COMMA '','' # lex rest"
  "lex (CHR ''('' # rest) = Token TOKEN_LPAREN ''('' # lex rest"
  "lex (CHR '')'' # rest) = Token TOKEN_RPAREN '')'' # lex rest"
  "lex (CHR '';'' # rest) = Token TOKEN_SEMICOLON '';'' # lex rest"
  "lex (CHR ''='' # rest) = Token TOKEN_EQUALS ''='' # lex rest"
  by (simp_all add: lex.simps isspace_def)

definition at_word_end :: "string \<Rightarrow> bool" where
  "at_word_end rest \<longleftrightarrow> (case rest of [] \<Rightarrow> True | c # _ \<Rightarrow> \<not> word_char c)"

lemma at_word_end_simps [simp]:
  "at_word_end []"
  "at_word_end (c # rest) = (\<not> word_char c)"
  by (simp_all add: at_word_end_def)

definition is_word :: "string \<Rightarrow> bool" where
  "is_word w \<longleftrightarrow> list_all word_char w \<and> w \<noteq> [] \<and> \<not> isdigit (hd w)"

definition is_number :: "string \<Rightarrow> bool" where
  "is_number w \<longleftrightarrow> list_all isdigit w \<and> w \<noteq> []"

lemma takeWhile_word:
  assumes "list_all P w" "case rest of [] \<Rightarrow> True | c # _ \<Rightarrow> \<not> P c"
  shows "takeWhile P (w @ rest) = w" "dropWhile P (w @ rest) = rest"
proof -
  have "\<And>x. x \<in> set w \<Longrightarrow> P x" using assms(1) by (simp add: list_all_iff)
  then show "takeWhile P (w @ rest) = w" "dropWhile P (w @ rest) = rest"
    using assms(2) by (simp_all add: takeWhile_append2 dropWhile_append2 split: list.splits)
qed

lemma word_char_not_symbol:
  assumes "word_char c"
  shows "\<not> isspace c" "c \<noteq> CHR ''*''" "c \<noteq> CHR '',''" "c \<noteq> CHR ''(''" "c \<noteq> CHR '')''"
    "c \<noteq> CHR '';''" "c \<noteq> CHR ''=''" "c \<noteq> QUOTE"
  using assms by (auto simp: word_char_def ctype_defs QUOTE_def)

lemma lex_word:
  assumes "is_word w" "at_word_end rest"
  shows "lex (w @ rest) = Token (keywordType w) w # lex rest"
proof -
  obtain c cs where w: "w = c # cs" using assms(1) by (cases w) (auto simp: is_word_def)
  have c: "word_char c" "\<not> isdigit c" "isalpha c \<or> c = CHR ''_''"
    using assms(1) w by (auto simp: is_word_def word_char_def isalnum_def)
  have tw: "takeWhile word_char (w @ rest) = w" "dropWhile word_char (w @ rest) = rest"
    using assms takeWhile_word [of word_char w rest] by (simp_all add: is_word_def at_word_end_def)
  show ?thesis
    using c word_char_not_symbol [OF c(1)] tw w by (simp add: lex.simps Let_def)
qed

lemma lex_number:
  assumes "is_number w" "at_word_end rest"
  shows "lex (w @ rest) = Token TOKEN_NUMBER w # lex rest"
proof -
  obtain c cs where w: "w = c # cs" using assms(1) by (cases w) (auto simp: is_number_def)
  have c: "isdigit c" "word_char c" using assms(1) w by (auto simp: is_number_def word_char_def isalnum_def)
  have e: "case rest of [] \<Rightarrow> True | c # _ \<Rightarrow> \<not> isdigit c"
    using assms(2) by (auto simp: word_char_def isalnum_def split: list.splits)
  have tw: "takeWhile isdigit (w @ rest) = w" "dropWhile isdigit (w @ rest) = rest"
    using assms(1) e takeWhile_word [of isdigit w rest] by (simp_all add: is_number_def)
  show ?thesis
    using c word_char_not_symbol [OF c(2)] tw w by (simp add: lex.simps)
qed

lemma lex_string_literal:
  assumes "QUOTE \<notin> set s"
  shows "lex (QUOTE # s @ QUOTE # rest) = Token TOKEN_STRING s # lex rest"
proof -
  have l: "list_all (\<lambda>d. d \<noteq> QUOTE) s" using assms by (auto simp: list_all_iff)
  have "takeWhile (\<lambda>d. d \<noteq> QUOTE) (s @ QUOTE # rest) = s"
    "dropWhile (\<lambda>d. d \<noteq> QUOTE) (s @ QUOTE # rest) = QUOTE # rest"
    using takeWhile_word [OF l, of "QUOTE # rest"] by simp_all
  then show ?thesis
    by (simp add: lex.simps Let_def) (simp add: QUOTE_def isspace_def)
qed

end
