(* ===== verification/Parser.thy ===== *)
theory Parser
  imports Lexer
begin

text \<open>
  The recursive-descent parser of \<open>src/parser/parser.cpp\<close>.  The pair of the token vector
  and the position \<open>pos_\<close> is the suffix of the vector that starts at \<open>pos_\<close>; reading the
  current token of an empty suffix is a read past the end of the vector.
\<close>

section \<open>Statements (parser.h)\<close>

record ColumnDef =
  cd_name :: string
  cd_type :: string

record WhereClause =
  wc_column :: string
  wc_value :: string

datatype StatementType = CREATE_TABLE | INSERT | SELECT | DELETE_STMT

record Statement =
  stmt_type :: StatementType
  tableName :: string
  columns :: "ColumnDef list"
  stmt_values :: "string list"
  selectColumns :: "string list"
  selectAll :: bool
  hasWhere :: bool
  where_clause :: WhereClause

definition empty_WhereClause :: WhereClause where
  "empty_WhereClause = \<lparr>wc_column = '''', wc_value = ''''\<rparr>"

text \<open>A freshly declared \<open>Statement\<close> whose \<open>type\<close> was set, as each parsing function starts.\<close>

definition new_Statement :: "StatementType \<Rightarrow> Statement" where
  "new_Statement ty = \<lparr>stmt_type = ty, tableName = '''', columns = [], stmt_values = [], selectColumns = [],
     selectAll = False, hasWhere = False, where_clause = empty_WhereClause\<rparr>"

section \<open>Token access\<close>

type_synonym Parser = "Token list"

definition current :: "Parser \<Rightarrow> Token res" where
  "current p = (case p of [] \<Rightarrow> Inl (UndefinedBehaviour ''token position past the end'') | t # _ \<Rightarrow> Inr t)"

definition advance :: "Parser \<Rightarrow> (Token \<times> Parser) res" where
  "advance p = bindE (current p) (\<lambda>tok. Inr (tok, if tok_type tok \<noteq> TOKEN_EOF then tl p else p))"

definition check :: "TokenType \<Rightarrow> Parser \<Rightarrow> bool res" where
  "check ty p = bindE (current p) (\<lambda>tok. Inr (tok_type tok = ty))"

definition match :: "TokenType \<Rightarrow> Parser \<Rightarrow> (bool \<times> Parser) res" where
  "match ty p = bindE (check ty p) (\<lambda>c.
     if c then bindE (advance p) (\<lambda>(_, p). Inr (True, p)) else Inr (False, p))"

definition parse_error :: "string \<Rightarrow> string \<Rightarrow> db_error" where
  "parse_error msg got = RuntimeError (''Parse error: '' @ msg @ '' (got '' @ [QUOTE] @ got @ [QUOTE] @ '')'')"

definition expect :: "TokenType \<Rightarrow> string \<Rightarrow> Parser \<Rightarrow> (Token \<times> Parser) res" where
  "expect ty msg p = bindE (check ty p) (\<lambda>c.
     if c then advance p else bindE (current p) (\<lambda>tok. Inl (parse_error msg (tok_value tok))))"

lemma bindE_cong [fundef_cong]:
  "m = m' \<Longrightarrow> (\<And>x. m' = Inr x \<Longrightarrow> f x = g x) \<Longrightarrow> bindE m f = bindE m' g"
  by (cases m') simp_all

text \<open>What the accessors do on a non-empty suffix.\<close>

lemma access_simps [simp]:
  "current (t # ts) = Inr t"
  "advance (t # ts) = Inr (t, if tok_type t \<noteq> TOKEN_EOF then ts else t # ts)"
  "check ty (t # ts) = Inr (tok_type t = ty)"
  "match ty (t # ts) = Inr (tok_type t = ty, if tok_type t = ty \<and> ty \<noteq> TOKEN_EOF then ts else t # ts)"
  "expect ty msg (t # ts) = (if tok_type t = ty then Inr (t, if ty \<noteq> TOKEN_EOF then ts else t # ts)
     else Inl (parse_error msg (tok_value t)))"
  by (auto simp: current_def advance_def check_def match_def expect_def)

lemma access_Nil [simp]:
  "current [] = Inl (UndefinedBehaviour ''token position past the end'')"
  "advance [] = Inl (UndefinedBehaviour ''token position past the end'')"
  "check ty [] = Inl (UndefinedBehaviour ''token position past the end'')"
  "match ty [] = Inl (UndefinedBehaviour ''token position past the end'')"
  "expect ty msg [] = Inl (UndefinedBehaviour ''token position past the end'')"
  by (simp_all add: current_def advance_def check_def match_def expect_def)

lemma expect_length: "expect ty msg p = Inr (t, p') \<Longrightarrow> ty \<noteq> TOKEN_EOF \<Longrightarrow> length p' < length p"
  by (cases p) (auto split: if_splits)

lemma match_length: "match ty p = Inr (b, p') \<Longrightarrow> length p' \<le> length p"
  by (cases p) (auto split: if_splits)

section \<open>Statements\<close>

text \<open>The optional comma after a list element.\<close>

definition skip_comma :: "Parser \<Rightarrow> Parser res" where
  "skip_comma p = bindE (check TOKEN_COMMA p) (\<lambda>c.
     if c then bindE (advance p) (\<lambda>(_, p). Inr p) else Inr p)"

definition parse_column_type :: "Parser \<Rightarrow> (string \<times> Parser) res" where
  "parse_column_type p =
     bindE (check TOKEN_INT p) (\<lambda>i.
     if i then bindE (advance p) (\<lambda>(_, p). Inr (''INT'', p))
     else bindE (check TOKEN_TEXT p) (\<lambda>t.
     if t then bindE (advance p) (\<lambda>(_, p). Inr (''TEXT'', p))
     else bindE (current p) (\<lambda>tok. Inl (parse_error ''expected column type INT or TEXT'' (tok_value tok)))))"

lemma skip_comma_simps [simp]:
  "skip_comma (t # ts) = Inr (if tok_type t = TOKEN_COMMA then ts else t # ts)"
  "skip_comma [] = Inl (UndefinedBehaviour ''token position past the end'')"
  by (simp_all add: skip_comma_def)

lemma skip_comma_length: "skip_comma p = Inr p' \<Longrightarrow> length p' \<le> length p"
  by (cases p) (auto split: if_splits)

lemma parse_column_type_simps [simp]:
  "parse_column_type (t # ts) =
     (if tok_type t = TOKEN_INT then Inr (''INT'', ts)
      else if tok_type t = TOKEN_TEXT then Inr (''TEXT'', ts)
      else Inl (parse_error ''expected column type INT or TEXT'' (tok_value t)))"
  "parse_column_type [] = Inl (UndefinedBehaviour ''token position past the end'')"
  by (auto simp: parse_column_type_def)

lemma parse_column_type_length: "parse_column_type p = Inr (ty, p') \<Longrightarrow> length p' \<le> length p"
  by (cases p) (auto split: if_splits)

text \<open>The column loop of \<open>parseCreateTable\<close>.\<close>

function parse_columns :: "Parser \<Rightarrow> ColumnDef list \<Rightarrow> (ColumnDef list \<times> Parser) res" where
  "parse_columns p cols =
     bindE (check TOKEN_RPAREN p) (\<lambda>rp. bindE (check TOKEN_EOF p) (\<lambda>eof.
     if \<not> rp \<and> \<not> eof then
       bindE (expect TOKEN_IDENTIFIER ''expected column name'' p) (\<lambda>(colName, p1).
       bindE (parse_column_type p1) (\<lambda>(ty, p2).
       bindE (skip_comma p2) (\<lambda>p3.
         parse_columns p3 (cols @ [\<lparr>cd_name = tok_value colName, cd_type = ty\<rparr>]))))
     else Inr (cols, p)))"
  by pat_completeness auto
termination
  by (relation "measure (length \<circ> fst)")
    (auto dest!: expect_length parse_column_type_length skip_comma_length)

declare parse_columns.simps [simp del]

definition parseCreateTable :: "Parser \<Rightarrow> Statement res" where
  "parseCreateTable p =
     bindE (expect TOKEN_CREATE ''expected CREATE'' p) (\<lambda>(_, p).
     bindE (expect TOKEN_TABLE ''expected TABLE after CREATE'' p) (\<lambda>(_, p).
     bindE (expect TOKEN_IDENTIFIER ''expected table name'' p) (\<lambda>(name, p).
     bindE (expect TOKEN_LPAREN (''expected '' @ [QUOTE] @ ''('' @ [QUOTE] @ '' after table name'') p) (\<lambda>(_, p).
     bindE (parse_columns p []) (\<lambda>(cols, p).
     bindE (expect TOKEN_RPAREN (''expected '' @ [QUOTE] @ '')'' @ [QUOTE] @ '' after column definitions'') p) (\<lambda>(_, p).
     bindE (match TOKEN_SEMICOLON p) (\<lambda>_.
       Inr ((new_Statement CREATE_TABLE)\<lparr>tableName := tok_value name, columns := cols\<rparr>))))))))"

text \<open>A literal or identifier in a value position.\<close>

definition is_value_token :: "TokenType \<Rightarrow> bool" where
  "is_value_token ty \<longleftrightarrow> ty = TOKEN_NUMBER \<or> ty = TOKEN_STRING \<or> ty = TOKEN_IDENTIFIER"

definition parse_value :: "string \<Rightarrow> Parser \<Rightarrow> (string \<times> Parser) res" where
  "parse_value msg p = bindE (current p) (\<lambda>tok.
     if is_value_token (tok_type tok) then bindE (advance p) (\<lambda>(_, p). Inr (tok_value tok, p))
     else Inl (parse_error msg (tok_value tok)))"

lemma parse_value_simps [simp]:
  "parse_value msg (t # ts) = (if is_value_token (tok_type t) then Inr (tok_value t, ts)
     else Inl (parse_error msg (tok_value t)))"
  "parse_value msg [] = Inl (UndefinedBehaviour ''token position past the end'')"
  by (auto simp: parse_value_def is_value_token_def)

lemma parse_value_length: "parse_value msg p = Inr (v, p') \<Longrightarrow> length p' < length p"
  by (cases p) (auto split: if_splits)

text \<open>The value loop of \<open>parseInsert\<close>.\<close>

function parse_values :: "Parser \<Rightarrow> string list \<Rightarrow> (string list \<times> Parser) res" where
  "parse_values p vs =
     bindE (check TOKEN_RPAREN p) (\<lambda>rp. bindE (check TOKEN_EOF p) (\<lambda>eof.
     if \<not> rp \<and> \<not> eof then
       bindE (parse_value ''expected a value'' p) (\<lambda>(v, p1).
       bindE (skip_comma p1) (\<lambda>p2. parse_values p2 (vs @ [v])))
     else Inr (vs, p)))"
  by pat_completeness auto
termination
  by (relation "measure (length \<circ> fst)") (auto dest!: parse_value_length skip_comma_length)

declare parse_values.simps [simp del]

definition parseInsert :: "Parser \<Rightarrow> Statement res" where
  "parseInsert p =
     bindE (expect TOKEN_INSERT ''expected INSERT'' p) (\<lambda>(_, p).
     bindE (expect TOKEN_INTO ''expected INTO after INSERT'' p) (\<lambda>(_, p).
     bindE (expect TOKEN_IDENTIFIER ''expected table name'' p) (\<lambda>(name, p).
     bindE (expect TOKEN_VALUES ''expected VALUES'' p) (\<lambda>(_, p).
     bindE (expect TOKEN_LPAREN (''expected '' @ [QUOTE] @ ''('' @ [QUOTE] @ '' after VALUES'') p) (\<lambda>(_, p).
     bindE (parse_values p []) (\<lambda>(vs, p).
     bindE (expect TOKEN_RPAREN (''expected '' @ [QUOTE] @ '')'' @ [QUOTE] @ '' after values'') p) (\<lambda>(_, p).
     bindE (match TOKEN_SEMICOLON p) (\<lambda>_.
       Inr ((new_Statement INSERT)\<lparr>tableName := tok_value name, stmt_values := vs\<rparr>)))))))))"

definition parseWhere :: "Parser \<Rightarrow> (WhereClause \<times> Parser) res" where
  "parseWhere p =
     bindE (expect TOKEN_WHERE ''expected WHERE'' p) (\<lambda>(_, p).
     bindE (expect TOKEN_IDENTIFIER ''expected column name in WHERE'' p) (\<lambda>(col, p).
     bindE (expect TOKEN_EQUALS (''expected '' @ [QUOTE] @ ''='' @ [QUOTE] @ '' in WHERE clause'') p) (\<lambda>(_, p).
     bindE (parse_value (''expected a value after '' @ [QUOTE] @ ''='' @ [QUOTE] @ '' in WHERE clause'') p) (\<lambda>(v, p).
       Inr (\<lparr>wc_column = tok_value col, wc_value = v\<rparr>, p)))))"

text \<open>The column-name loop of \<open>parseSelect\<close>: one name, then another after every comma.\<close>

function parse_select_columns :: "Parser \<Rightarrow> string list \<Rightarrow> (string list \<times> Parser) res" where
  "parse_select_columns p cols =
     bindE (expect TOKEN_IDENTIFIER ''expected column name'' p) (\<lambda>(col, p1).
     bindE (match TOKEN_COMMA p1) (\<lambda>(more, p2).
     if more then parse_select_columns p2 (cols @ [tok_value col])
     else Inr (cols @ [tok_value col], p2)))"
  by pat_completeness auto
termination
  by (relation "measure (length \<circ> fst)") (auto dest!: expect_length match_length)

declare parse_select_columns.simps [simp del]

text \<open>The optional \<open>WHERE\<close> clause that ends \<open>parseSelect\<close> and \<open>parseDelete\<close>, with the optional
  semicolon.\<close>

definition parse_opt_where :: "Statement \<Rightarrow> Parser \<Rightarrow> Statement res" where
  "parse_opt_where stmt p =
     bindE (check TOKEN_WHERE p) (\<lambda>w.
     bindE (if w then bindE (parseWhere p) (\<lambda>(wc, p). Inr (stmt\<lparr>hasWhere := True, where_clause := wc\<rparr>, p))
            else Inr (stmt, p)) (\<lambda>(stmt, p).
     bindE (match TOKEN_SEMICOLON p) (\<lambda>_. Inr stmt)))"

definition parseSelect :: "Parser \<Rightarrow> Statement res" where
  "parseSelect p =
     bindE (expect TOKEN_SELECT ''expected SELECT'' p) (\<lambda>(_, p).
     bindE (match TOKEN_STAR p) (\<lambda>(star, p).
     bindE (if star then Inr ([], p) else parse_select_columns p []) (\<lambda>(cols, p).
     bindE (expect TOKEN_FROM ''expected FROM'' p) (\<lambda>(_, p).
     bindE (expect TOKEN_IDENTIFIER ''expected table name'' p) (\<lambda>(name, p).
       parse_opt_where ((new_Statement SELECT)\<lparr>selectAll := star, selectColumns := cols, tableName := tok_value name\<rparr>) p)))))"

definition parseDelete :: "Parser \<Rightarrow> Statement res" where
  "parseDelete p =
     bindE (expect TOKEN_DELETE ''expected DELETE'' p) (\<lambda>(_, p).
     bindE (expect TOKEN_FROM ''expected FROM after DELETE'' p) (\<lambda>(_, p).
     bindE (expect TOKEN_IDENTIFIER ''expected table name'' p) (\<lambda>(name, p).
       parse_opt_where ((new_Statement DELETE_STMT)\<lparr>tableName := tok_value name\<rparr>) p)))"

definition parse :: "Token list \<Rightarrow> Statement res" where
  "parse tokens =
     bindE (check TOKEN_CREATE tokens) (\<lambda>c. if c then parseCreateTable tokens
     else bindE (check TOKEN_INSERT tokens) (\<lambda>i. if i then parseInsert tokens
     else bindE (check TOKEN_SELECT tokens) (\<lambda>s. if s then parseSelect tokens
     else bindE (check TOKEN_DELETE tokens) (\<lambda>d. if d then parseDelete tokens
     else bindE (current tokens) (\<lambda>tok.
       Inl (parse_error ''expected CREATE, INSERT, SELECT, or DELETE'' (tok_value tok)))))))"

section \<open>Printing (statementToString)\<close>

fun show_column_defs :: "ColumnDef list \<Rightarrow> string" where
  "show_column_defs [] = ''''"
| "show_column_defs [c] = ''  '' @ cd_name c @ '' '' @ cd_type c @ [CHR 0x0A]"
| "show_column_defs (c # d # cs) = ''  '' @ cd_name c @ '' '' @ cd_type c @ '','' @ [CHR 0x0A] @ show_column_defs (d # cs)"

definition show_where :: "Statement \<Rightarrow> string" where
  "show_where stmt = (if hasWhere stmt
     then '' WHERE '' @ wc_column (where_clause stmt) @ '' = '' @ wc_value (where_clause stmt) else '''')"

definition statementToString :: "Statement \<Rightarrow> string" where
  "statementToString stmt =
     (case stmt_type stmt of
        CREATE_TABLE \<Rightarrow> ''CREATE TABLE '' @ tableName stmt @ '' ('' @ [CHR 0x0A] @ show_column_defs (columns stmt) @ '')''
      | INSERT \<Rightarrow> ''INSERT INTO '' @ tableName stmt @ '' VALUES ('' @ sep_by '', '' (stmt_values stmt) @ '')''
      | SELECT \<Rightarrow> ''SELECT '' @ (if selectAll stmt then ''*'' else sep_by '', '' (selectColumns stmt)) @
          '' FROM '' @ tableName stmt @ show_where stmt
      | DELETE_STMT \<Rightarrow> ''DELETE FROM '' @ tableName stmt @ show_where stmt)"

section \<open>Every failure is a parse error\<close>

definition is_parse_error :: "db_error \<Rightarrow> bool" where
  "is_parse_error e \<longleftrightarrow> (\<exists>msg got. e = parse_error msg got)"

lemma is_parse_error_I [simp]: "is_parse_error (parse_error msg got)"
  by (auto simp: is_parse_error_def)

text \<open>A step is safe when it fails with a parse error only and leaves a suffix that still ends with
  the end-of-file token.\<close>

definition safe_step :: "('a \<times> Parser) res \<Rightarrow> bool" where
  "safe_step r = (case r of Inl e \<Rightarrow> is_parse_error e | Inr (_, p) \<Rightarrow> eof_terminated p)"

definition safe_result :: "'a res \<Rightarrow> bool" where
  "safe_result r = (case r of Inl e \<Rightarrow> is_parse_error e | Inr _ \<Rightarrow> True)"

lemma safe_simps [simp]:
  "safe_step (Inl e) = is_parse_error e"
  "safe_step (Inr (x, p)) = eof_terminated p"
  "safe_result (Inl e) = is_parse_error e"
  "safe_result (Inr y) = True"
  by (simp_all add: safe_step_def safe_result_def)

lemma safe_step_bind:
  "safe_step m \<Longrightarrow> (\<And>x p. m = Inr (x, p) \<Longrightarrow> eof_terminated p \<Longrightarrow> safe_step (f (x, p))) \<Longrightarrow> safe_step (bindE m f)"
  by (cases m) auto

lemma safe_result_bind:
  "safe_step m \<Longrightarrow> (\<And>x p. eof_terminated p \<Longrightarrow> safe_result (f (x, p))) \<Longrightarrow> safe_result (bindE m f)"
  by (cases m) auto

lemma safe_expect: "eof_terminated p \<Longrightarrow> ty \<noteq> TOKEN_EOF \<Longrightarrow> safe_step (expect ty msg p)"
  by (cases p) (auto split: if_splits)

lemma safe_match: "eof_terminated p \<Longrightarrow> ty \<noteq> TOKEN_EOF \<Longrightarrow> safe_step (match ty p)"
  by (cases p) (auto split: if_splits)

lemma safe_column_type: "eof_terminated p \<Longrightarrow> safe_step (parse_column_type p)"
  by (cases p) (auto split: if_splits)

lemma safe_parse_value: "eof_terminated p \<Longrightarrow> safe_step (parse_value msg p)"
  by (cases p) (auto simp: is_value_token_def split: if_splits)

lemmas safe_access = safe_expect safe_match safe_column_type safe_parse_value

lemma eof_terminated_skip_comma:
  "eof_terminated p \<Longrightarrow> \<exists>p'. skip_comma p = Inr p' \<and> eof_terminated p'"
  by (cases p) auto

lemma check_eof_terminated: "eof_terminated p \<Longrightarrow> check ty p = Inr (tok_type (hd p) = ty)"
  by (cases p) auto

text \<open>Both list loops stop at a closing parenthesis or the end, and otherwise consume an element.\<close>

lemma safe_skip_comma:
  assumes "safe_step m" "\<And>x p. m = Inr (x, p) \<Longrightarrow> length p < n"
    and "\<And>x p. eof_terminated p \<Longrightarrow> length p < n \<Longrightarrow> safe_step (f x p)"
  shows "safe_step (bindE m (\<lambda>(x, p). bindE (skip_comma p) (f x)))"
proof (cases m)
  case (Inr y)
  obtain x p where y: "y = (x, p)" by (cases y)
  with Inr assms(1,2) have p: "eof_terminated p" "length p < n" by auto
  then obtain p' where "skip_comma p = Inr p'" "eof_terminated p'"
    using eof_terminated_skip_comma by blast
  with p show ?thesis
    using Inr y assms(3) skip_comma_length [of p p'] by auto
qed (use assms(1) in simp)

lemma safe_parse_columns: "eof_terminated p \<Longrightarrow> safe_step (parse_columns p cols)"
proof (induction p arbitrary: cols rule: measure_induct_rule [of length])
  case (less p)
  then obtain t ts where p: "p = t # ts" by (cases p) auto
  show ?case
  proof (cases "tok_type t = TOKEN_IDENTIFIER")
    case True
    then have ts: "eof_terminated ts" using less.prems p by simp
    have "safe_step (bindE (parse_column_type ts) (\<lambda>(ty, p2). bindE (skip_comma p2)
        (\<lambda>p3. parse_columns p3 (cols @ [\<lparr>cd_name = tok_value t, cd_type = ty\<rparr>]))))"
      using p by (intro safe_skip_comma [where n = "length p"] safe_column_type ts less.IH)
        (auto dest: parse_column_type_length)
    with True p show ?thesis by (simp add: parse_columns.simps [of "t # ts"])
  qed (use less.prems p in \<open>auto simp: parse_columns.simps [of "t # ts"]\<close>)
qed

lemma safe_parse_values: "eof_terminated p \<Longrightarrow> safe_step (parse_values p vs)"
proof (induction p arbitrary: vs rule: measure_induct_rule [of length])
  case (less p)
  then obtain t ts where p: "p = t # ts" by (cases p) auto
  have "safe_step (bindE (parse_value ''expected a value'' p) (\<lambda>(v, p1). bindE (skip_comma p1)
      (\<lambda>p2. parse_values p2 (vs @ [v]))))"
    by (intro safe_skip_comma [where n = "length p"] safe_parse_value less)
      (auto dest: parse_value_length)
  with p less.prems show ?case by (auto simp: parse_values.simps [of "t # ts"])
qed

lemma safe_parse_select_columns: "eof_terminated p \<Longrightarrow> safe_step (parse_select_columns p cols)"
proof (induction p cols rule: parse_select_columns.induct)
  case (1 p cols)
  show ?case
    unfolding parse_select_columns.simps [of p cols] using 1
    by (auto intro!: safe_step_bind safe_access)
qed

lemma safe_parse_opt_where: "eof_terminated p \<Longrightarrow> safe_result (parse_opt_where stmt p)"
  unfolding parse_opt_where_def parseWhere_def
  by (auto simp: check_eof_terminated intro!: safe_result_bind safe_step_bind safe_access)

lemmas safe_parts = safe_parse_columns safe_parse_values safe_parse_select_columns safe_parse_opt_where

lemma safe_statements:
  assumes "eof_terminated p"
  shows "safe_result (parseCreateTable p)" "safe_result (parseInsert p)"
    "safe_result (parseSelect p)" "safe_result (parseDelete p)"
  unfolding parseCreateTable_def parseInsert_def parseSelect_def parseDelete_def
  using assms
  by (auto intro!: safe_result_bind safe_step_bind safe_access safe_parts)

lemma safe_parse: "eof_terminated p \<Longrightarrow> safe_result (parse p)"
  by (cases p) (auto simp: parse_def safe_statements)

section \<open>Printing and parsing back\<close>

text \<open>Statements whose text can be read back: names are words that are not keywords, the values
  are such words or digit strings, and the fields the statement does not use are unset.\<close>

definition is_name :: "string \<Rightarrow> bool" where
  "is_name w \<longleftrightarrow> is_word w \<and> keywordType w = TOKEN_IDENTIFIER"

definition is_value_text :: "string \<Rightarrow> bool" where
  "is_value_text w \<longleftrightarrow> is_name w \<or> is_number w"

definition is_column_def :: "ColumnDef \<Rightarrow> bool" where
  "is_column_def c \<longleftrightarrow> is_name (cd_name c) \<and> (cd_type c = ''INT'' \<or> cd_type c = ''TEXT'')"

definition printable_where :: "Statement \<Rightarrow> bool" where
  "printable_where s \<longleftrightarrow>
     (if hasWhere s then is_name (wc_column (where_clause s)) \<and> is_value_text (wc_value (where_clause s))
      else where_clause s = empty_WhereClause)"

definition printable :: "Statement \<Rightarrow> bool" where
  "printable s \<longleftrightarrow> is_name (tableName s) \<and> printable_where s \<and>
     (case stmt_type s of
        CREATE_TABLE \<Rightarrow> list_all is_column_def (columns s) \<and>
          s = (new_Statement CREATE_TABLE)\<lparr>tableName := tableName s, columns := columns s\<rparr>
      | INSERT \<Rightarrow> list_all is_value_text (stmt_values s) \<and>
          s = (new_Statement INSERT)\<lparr>tableName := tableName s, stmt_values := stmt_values s\<rparr>
      | SELECT \<Rightarrow> (if selectAll s then selectColumns s = []
                    else list_all is_name (selectColumns s) \<and> selectColumns s \<noteq> []) \<and>
          s = (new_Statement SELECT)\<lparr>tableName := tableName s, selectAll := selectAll s,
                selectColumns := selectColumns s, hasWhere := hasWhere s, where_clause := where_clause s\<rparr>
      | DELETE_STMT \<Rightarrow>
          s = (new_Statement DELETE_STMT)\<lparr>tableName := tableName s, hasWhere := hasWhere s, where_clause := where_clause s\<rparr>)"

lemma lex_name [simp]: "is_name w \<Longrightarrow> at_word_end r \<Longrightarrow> lex (w @ r) = Token TOKEN_IDENTIFIER w # lex r"
  by (simp add: is_name_def lex_word)

lemma lex_name_end [simp]: "is_name w \<Longrightarrow> lex w = [Token TOKEN_IDENTIFIER w, Token TOKEN_EOF '''']"
  using lex_name [of w "[]"] by simp

definition value_token :: "string \<Rightarrow> Token" where
  "value_token w = Token (if is_number w then TOKEN_NUMBER else TOKEN_IDENTIFIER) w"

lemma value_token_simps [simp]:
  "tok_value (value_token w) = w"
  "is_value_token (tok_type (value_token w))"
  "tok_type (value_token w) \<noteq> TOKEN_RPAREN" "tok_type (value_token w) \<noteq> TOKEN_EOF"
  by (simp_all add: value_token_def is_value_token_def)

lemma is_name_not_number: "is_name w \<Longrightarrow> \<not> is_number w"
  by (cases w) (auto simp: is_name_def is_word_def is_number_def)

lemma lex_value [simp]: "is_value_text w \<Longrightarrow> at_word_end r \<Longrightarrow> lex (w @ r) = value_token w # lex r"
  by (auto simp: is_value_text_def value_token_def lex_number is_name_not_number)

lemma lex_value_end [simp]: "is_value_text w \<Longrightarrow> lex w = [value_token w, Token TOKEN_EOF '''']"
  using lex_value [of w "[]"] by simp

lemma lex_blank [simp]:
  "lex (CHR '' '' # r) = lex r" "lex (CHR 0x0A # r) = lex r"
  by (simp_all add: isspace_def)

lemma at_word_end_punct [simp]:
  "\<not> word_char (CHR '' '')" "\<not> word_char (CHR 0x0A)" "\<not> word_char (CHR '','')" "\<not> word_char (CHR ''('')"
  "\<not> word_char (CHR '')'')" "\<not> word_char (CHR ''='')"
  by (simp_all add: word_char_def ctype_defs)

lemma lex_keyword:
  assumes "keywordType w = ty" "list_all word_char w" "w \<noteq> []" "\<not> isdigit (hd w)" "at_word_end r"
  shows "lex (w @ r) = Token ty w # lex r"
  using assms lex_word [of w r] by (simp add: is_word_def)

lemmas kw_eval = keywordType_def toUpper_def toupper_def word_char_def ctype_defs Let_def

lemma lex_kw_SELECT: "at_word_end r \<Longrightarrow> lex (''SELECT'' @ r) = Token TOKEN_SELECT ''SELECT'' # lex r"
  by (rule lex_keyword) (simp_all add: kw_eval)

lemma lex_kw_INSERT: "at_word_end r \<Longrightarrow> lex (''INSERT'' @ r) = Token TOKEN_INSERT ''INSERT'' # lex r"
  by (rule lex_keyword) (simp_all add: kw_eval)

lemma lex_kw_INTO: "at_word_end r \<Longrightarrow> lex (''INTO'' @ r) = Token TOKEN_INTO ''INTO'' # lex r"
  by (rule lex_keyword) (simp_all add: kw_eval)

lemma lex_kw_VALUES: "at_word_end r \<Longrightarrow> lex (''VALUES'' @ r) = Token TOKEN_VALUES ''VALUES'' # lex r"
  by (rule lex_keyword) (simp_all add: kw_eval)

lemma lex_kw_FROM: "at_word_end r \<Longrightarrow> lex (''FROM'' @ r) = Token TOKEN_FROM ''FROM'' # lex r"
  by (rule lex_keyword) (simp_all add: kw_eval)

lemma lex_kw_WHERE: "at_word_end r \<Longrightarrow> lex (''WHERE'' @ r) = Token TOKEN_WHERE ''WHERE'' # lex r"
  by (rule lex_keyword) (simp_all add: kw_eval)

lemma lex_kw_CREATE: "at_word_end r \<Longrightarrow> lex (''CREATE'' @ r) = Token TOKEN_CREATE ''CREATE'' # lex r"
  by (rule lex_keyword) (simp_all add: kw_eval)

lemma lex_kw_TABLE: "at_word_end r \<Longrightarrow> lex (''TABLE'' @ r) = Token TOKEN_TABLE ''TABLE'' # lex r"
  by (rule lex_keyword) (simp_all add: kw_eval)

lemma lex_kw_DELETE: "at_word_end r \<Longrightarrow> lex (''DELETE'' @ r) = Token TOKEN_DELETE ''DELETE'' # lex r"
  by (rule lex_keyword) (simp_all add: kw_eval)

lemma lex_kw_INT: "at_word_end r \<Longrightarrow> lex (''INT'' @ r) = Token TOKEN_INT ''INT'' # lex r"
  by (rule lex_keyword) (simp_all add: kw_eval)

lemma lex_kw_TEXT: "at_word_end r \<Longrightarrow> lex (''TEXT'' @ r) = Token TOKEN_TEXT ''TEXT'' # lex r"
  by (rule lex_keyword) (simp_all add: kw_eval)

text \<open>The same on the character lists that the simplifier normalises string literals to.\<close>

lemmas lex_keywords [simp] =
  lex_kw_SELECT [simplified] lex_kw_INSERT [simplified] lex_kw_INTO [simplified]
  lex_kw_VALUES [simplified] lex_kw_FROM [simplified] lex_kw_WHERE [simplified]
  lex_kw_CREATE [simplified] lex_kw_TABLE [simplified] lex_kw_DELETE [simplified]
  lex_kw_INT [simplified] lex_kw_TEXT [simplified]

text \<open>Column definitions.\<close>

definition type_token :: "string \<Rightarrow> Token" where
  "type_token ty = Token (if ty = ''INT'' then TOKEN_INT else TOKEN_TEXT) ty"

fun column_tokens :: "ColumnDef list \<Rightarrow> Token list" where
  "column_tokens [] = []"
| "column_tokens [c] = [Token TOKEN_IDENTIFIER (cd_name c), type_token (cd_type c)]"
| "column_tokens (c # d # cs) = Token TOKEN_IDENTIFIER (cd_name c) # type_token (cd_type c) #
     Token TOKEN_COMMA '','' # column_tokens (d # cs)"

lemma lex_column_defs:
  "list_all is_column_def cols \<Longrightarrow>
   lex (show_column_defs cols @ CHR '')'' # r) = column_tokens cols @ Token TOKEN_RPAREN '')'' # lex r"
  by (induction cols rule: show_column_defs.induct)
    (auto simp: is_column_def_def type_token_def)

lemma parse_columns_tokens:
  "list_all is_column_def cols \<Longrightarrow>
   parse_columns (column_tokens cols @ Token TOKEN_RPAREN '')'' # r) acc = Inr (acc @ cols, Token TOKEN_RPAREN '')'' # r)"
proof (induction cols arbitrary: acc rule: column_tokens.induct)
  case 1
  then show ?case by (simp add: parse_columns.simps [of "_ # _"])
next
  case (2 c)
  then show ?case
    by (auto simp: parse_columns.simps [of "_ # _"] is_column_def_def type_token_def)
next
  case (3 c d cs)
  then have "parse_column_type (type_token (cd_type c) # ts) = Inr (cd_type c, ts)" for ts
    by (auto simp: is_column_def_def type_token_def)
  with 3 show ?case by (simp add: parse_columns.simps [of "Token TOKEN_IDENTIFIER _ # _"])
qed

text \<open>Separated words.\<close>

fun sep_tokens :: "(string \<Rightarrow> Token) \<Rightarrow> string list \<Rightarrow> Token list" where
  "sep_tokens f [] = []"
| "sep_tokens f [w] = [f w]"
| "sep_tokens f (w # x # ws) = f w # Token TOKEN_COMMA '','' # sep_tokens f (x # ws)"

lemma lex_sep_values:
  "list_all is_value_text ws \<Longrightarrow> at_word_end r \<Longrightarrow>
   lex (sep_by '', '' ws @ r) = sep_tokens value_token ws @ lex r"
  by (induction ws rule: sep_tokens.induct [of "\<lambda>_. P" for P]) auto

lemma parse_values_tokens:
  "parse_values (sep_tokens value_token ws @ Token TOKEN_RPAREN '')'' # r) acc = Inr (acc @ ws, Token TOKEN_RPAREN '')'' # r)"
proof (induction ws arbitrary: acc)
  case Nil
  then show ?case by (simp add: parse_values.simps [of "_ # _"])
next
  case (Cons w ws)
  then show ?case
    by (cases ws) (simp_all add: parse_values.simps [of "value_token _ # _"])
qed

lemma lex_sep_names:
  "list_all is_name ws \<Longrightarrow> at_word_end r \<Longrightarrow>
   lex (sep_by '', '' ws @ r) = sep_tokens (Token TOKEN_IDENTIFIER) ws @ lex r"
  by (induction ws rule: sep_tokens.induct [of "\<lambda>_. P" for P]) auto

lemma parse_select_columns_tokens:
  "ws \<noteq> [] \<Longrightarrow> tok_type t \<noteq> TOKEN_COMMA \<Longrightarrow>
   parse_select_columns (sep_tokens (Token TOKEN_IDENTIFIER) ws @ t # r) acc = Inr (acc @ ws, t # r)"
proof (induction ws arbitrary: acc)
  case (Cons w ws)
  then show ?case
    by (cases ws) (simp_all add: parse_select_columns.simps [of "Token _ _ # _"])
qed simp

text \<open>The optional clause.\<close>

lemma parse_where_printed:
  assumes "printable_where s" "\<not> hasWhere u" "where_clause u = empty_WhereClause"
  shows "parse_opt_where u (lex (show_where s)) = Inr (u\<lparr>hasWhere := hasWhere s, where_clause := where_clause s\<rparr>)"
  using assms
  by (cases "hasWhere s") (auto simp: printable_where_def show_where_def parse_opt_where_def parseWhere_def)

lemma lex_show_where_head:
  "printable_where s \<Longrightarrow> \<exists>t r. lex (show_where s) = t # r \<and> tok_type t \<noteq> TOKEN_COMMA"
  by (cases "hasWhere s") (auto simp: printable_where_def show_where_def)

lemma at_word_end_show_where: "at_word_end (show_where s)"
  by (simp add: show_where_def)

lemma parse_print_CREATE:
  assumes "printable s" "stmt_type s = CREATE_TABLE"
  shows "parse (lex (statementToString s)) = Inr s"
proof -
  have n: "is_name (tableName s)" and c: "list_all is_column_def (columns s)"
    and s: "s = (new_Statement CREATE_TABLE)\<lparr>tableName := tableName s, columns := columns s\<rparr>"
    using assms by (auto simp: printable_def)
  have "lex (statementToString s) = Token TOKEN_CREATE ''CREATE'' # Token TOKEN_TABLE ''TABLE'' #
      Token TOKEN_IDENTIFIER (tableName s) # Token TOKEN_LPAREN ''('' # column_tokens (columns s) @
      [Token TOKEN_RPAREN '')'', Token TOKEN_EOF '''']"
    using n lex_column_defs [OF c, of "[]"] by (simp add: statementToString_def assms(2))
  then show ?thesis
    using s parse_columns_tokens [OF c, of "[Token TOKEN_EOF '''']" "[]"]
    by (simp add: parse_def parseCreateTable_def)
qed

lemma parse_print_INSERT:
  assumes "printable s" "stmt_type s = INSERT"
  shows "parse (lex (statementToString s)) = Inr s"
proof -
  have n: "is_name (tableName s)" and v: "list_all is_value_text (stmt_values s)"
    and s: "s = (new_Statement INSERT)\<lparr>tableName := tableName s, stmt_values := stmt_values s\<rparr>"
    using assms by (auto simp: printable_def)
  have "lex (statementToString s) = Token TOKEN_INSERT ''INSERT'' # Token TOKEN_INTO ''INTO'' #
      Token TOKEN_IDENTIFIER (tableName s) # Token TOKEN_VALUES ''VALUES'' # Token TOKEN_LPAREN ''('' #
      sep_tokens value_token (stmt_values s) @ [Token TOKEN_RPAREN '')'', Token TOKEN_EOF '''']"
    using n lex_sep_values [OF v, of "'')''"] by (simp add: statementToString_def assms(2))
  then show ?thesis
    using s parse_values_tokens [of "stmt_values s" "[Token TOKEN_EOF '''']" "[]"]
    by (simp add: parse_def parseInsert_def)
qed

lemma parse_print_SELECT:
  assumes "printable s" "stmt_type s = SELECT"
  shows "parse (lex (statementToString s)) = Inr s"
proof -
  have n: "is_name (tableName s)" and w: "printable_where s"
    and c: "if selectAll s then selectColumns s = [] else list_all is_name (selectColumns s) \<and> selectColumns s \<noteq> []"
    and s: "s = (new_Statement SELECT)\<lparr>tableName := tableName s, selectAll := selectAll s,
                selectColumns := selectColumns s, hasWhere := hasWhere s, where_clause := where_clause s\<rparr>"
    using assms by (auto simp: printable_def)
  let ?u = "(new_Statement SELECT)\<lparr>selectAll := selectAll s, selectColumns := selectColumns s, tableName := tableName s\<rparr>"
  have tail: "parse_opt_where ?u (lex (show_where s)) = Inr s"
    using parse_where_printed [OF w, of ?u] by (subst s) (simp add: new_Statement_def)
  have after: "lex ('' FROM '' @ tableName s @ show_where s) =
      Token TOKEN_FROM ''FROM'' # Token TOKEN_IDENTIFIER (tableName s) # lex (show_where s)"
    using n at_word_end_show_where by simp
  show ?thesis
  proof (cases "selectAll s")
    case True
    with c tail after show ?thesis
      by (simp add: parse_def parseSelect_def statementToString_def assms(2))
  next
    case False
    with c have cs: "list_all is_name (selectColumns s)" "selectColumns s \<noteq> []" by auto
    have "lex (statementToString s) = Token TOKEN_SELECT ''SELECT'' #
        sep_tokens (Token TOKEN_IDENTIFIER) (selectColumns s) @ lex ('' FROM '' @ tableName s @ show_where s)"
      using lex_sep_names [OF cs(1), of "'' FROM '' @ tableName s @ show_where s"] False
      by (simp add: statementToString_def assms(2))
    moreover have "tok_type (hd (sep_tokens (Token TOKEN_IDENTIFIER) (selectColumns s))) = TOKEN_IDENTIFIER"
      "sep_tokens (Token TOKEN_IDENTIFIER) (selectColumns s) \<noteq> []"
      using cs(2) by (cases "selectColumns s"; cases "tl (selectColumns s)"; simp)+
    ultimately show ?thesis
      using False tail after
        parse_select_columns_tokens [OF cs(2), of "Token TOKEN_FROM ''FROM''" "Token TOKEN_IDENTIFIER (tableName s) # lex (show_where s)" "[]"]
      by (cases "sep_tokens (Token TOKEN_IDENTIFIER) (selectColumns s)")
        (auto simp: parse_def parseSelect_def)
  qed
qed

lemma parse_print_DELETE:
  assumes "printable s" "stmt_type s = DELETE_STMT"
  shows "parse (lex (statementToString s)) = Inr s"
proof -
  have n: "is_name (tableName s)" and w: "printable_where s"
    and s: "s = (new_Statement DELETE_STMT)\<lparr>tableName := tableName s, hasWhere := hasWhere s, where_clause := where_clause s\<rparr>"
    using assms by (auto simp: printable_def)
  have "parse_opt_where ((new_Statement DELETE_STMT)\<lparr>tableName := tableName s\<rparr>) (lex (show_where s)) = Inr s"
    using parse_where_printed [OF w, of "(new_Statement DELETE_STMT)\<lparr>tableName := tableName s\<rparr>"]
    by (subst s) (simp add: new_Statement_def)
  then show ?thesis
    using n at_word_end_show_where by (simp add: parse_def parseDelete_def statementToString_def assms(2))
qed

section \<open>Properties\<close>

text \<open>C4: Lexing and parsing the text that \<open>statementToString\<close> prints for a
  statement with non-keyword names and word or number values gives that statement back, for
  all four statement types.\<close>

theorem parse_print_roundtrip:
  assumes "printable s"
  shows "parse (handleInput (statementToString s)) = Inr s"
  using assms
  by (cases "stmt_type s")
    (simp_all add: handleInput_def parse_print_CREATE parse_print_INSERT parse_print_SELECT parse_print_DELETE)

definition sample_select :: Statement where
  "sample_select = (new_Statement SELECT)\<lparr>tableName := ''t'', selectColumns := [''a'', ''b''],
     hasWhere := True, where_clause := \<lparr>wc_column = ''a'', wc_value = ''42''\<rparr>\<rparr>"

theorem parse_print_roundtrip_witness:
  "printable sample_select \<and> parse (handleInput (statementToString sample_select)) = Inr sample_select"
proof -
  have p: "printable sample_select"
    by (simp add: sample_select_def printable_def printable_where_def is_name_def is_value_text_def
        is_number_def is_word_def kw_eval new_Statement_def)
  then show ?thesis using parse_print_roundtrip [OF p] by simp
qed

text \<open>C22: Whatever text is entered, tokenizing and parsing it either yields a statement or
  throws a parse error: the parser never reads past the end of the token vector.\<close>

theorem parse_input_safe:
  "(\<exists>stmt. parse (handleInput input) = Inr stmt) \<or>
   (\<exists>msg got. parse (handleInput input) = Inl (parse_error msg got))"
  using safe_parse [OF eof_terminated_lex, of input]
  by (auto simp: safe_result_def handleInput_def is_parse_error_def split: sum.splits)

end
