(* ===== verification/Optimizer.thy ===== *)
theory Optimizer
  imports Parser Catalog Complex_Main
begin

text \<open>
  The query optimizer of \<open>src/optimizer/Optimizer.cpp\<close>: a statement and the catalog give a tree
  of plan nodes.  Estimates are \<open>double\<close> in the sources and real numbers here; rounding is not
  modelled.
\<close>

datatype PlanNodeType = SEQ_SCAN | INDEX_SCAN | NESTED_LOOP_JOIN | HASH_JOIN | FILTER | PROJECTION | INSERT_OP | DELETE_OP

datatype PlanNode = PlanNode
  (pn_type: PlanNodeType) (pn_tableName: string) (predicateCol: string) (predicateVal: string) (hasPredicate: bool)
  (leftJoinCol: string) (rightJoinCol: string) (outputColumns: "string list") (pn_selectAll: bool)
  (insertValues: "string list") (pn_left: "PlanNode option") (pn_right: "PlanNode option")
  (estimatedCost: real) (estimatedRows: real)

definition rows_of :: "TableInfo option \<Rightarrow> nat" where
  "rows_of info = (case info of None \<Rightarrow> 0 | Some i \<Rightarrow> ti_rowCount i)"

definition estimateScanCost :: "Catalog \<Rightarrow> string \<Rightarrow> real" where
  "estimateScanCost cat table = (case getTable table cat of
      None \<Rightarrow> 1
    | Some info \<Rightarrow> max (of_int \<lceil>real (ti_rowCount info) / 10\<rceil>) 1)"

definition estimateSelectivity :: "Catalog \<Rightarrow> string \<Rightarrow> string \<Rightarrow> string \<Rightarrow> real" where
  "estimateSelectivity cat table column val = (case getTable table cat of
      None \<Rightarrow> 1 / 10
    | Some info \<Rightarrow> if ti_rowCount info = 0 then 1 / 10
                   else if ti_rowCount info < 10 then 1 / real (ti_rowCount info) else 1 / 10)"

definition shouldUseIndex :: "Catalog \<Rightarrow> string \<Rightarrow> string \<Rightarrow> bool res" where
  "shouldUseIndex cat table column = (case getTable table cat of
      None \<Rightarrow> Inr False
    | Some info \<Rightarrow>
        if \<not> ti_hasIndex info then Inr False
        else if columnCount (ti_schema info) > 0
        then bindE (getColumn (ti_schema info) 0) (\<lambda>col. Inr (col_name col = column \<and> ti_rowCount info > 50))
        else Inr False)"

text \<open>\<open>std::log2(info ? info->rowCount + 1 : 1) + 1\<close>; the sum wraps in \<open>uint32_t\<close>, and \<open>log2\<close> of 0 is
  minus infinity in the sources, a case the model leaves to \<^const>\<open>log\<close>.\<close>

definition index_scan_cost :: "Catalog \<Rightarrow> string \<Rightarrow> real" where
  "index_scan_cost cat table =
     log 2 (case getTable table cat of None \<Rightarrow> 1 | Some info \<Rightarrow> real (to_u32 (ti_rowCount info + 1))) + 1"

definition optimize_scan :: "Catalog \<Rightarrow> Statement \<Rightarrow> PlanNode res" where
  "optimize_scan cat stmt =
     (let w = where_clause stmt; info = getTable (tableName stmt) cat;
          sel = estimateSelectivity cat (tableName stmt) (wc_column w) (wc_value w) in
      bindE (if hasWhere stmt then shouldUseIndex cat (tableName stmt) (wc_column w) else Inr False) (\<lambda>useIndex.
      if useIndex
      then Inr (PlanNode INDEX_SCAN (tableName stmt) (wc_column w) (wc_value w) True '''' '''' [] False [] None None
             (index_scan_cost cat (tableName stmt)) (real (rows_of info) * sel))
      else Inr (PlanNode SEQ_SCAN (tableName stmt)
             (if hasWhere stmt then wc_column w else '''') (if hasWhere stmt then wc_value w else '''') (hasWhere stmt)
             '''' '''' [] False [] None None
             (estimateScanCost cat (tableName stmt)) (if hasWhere stmt then real (rows_of info) * sel else real (rows_of info)))))"

definition set_selectAll :: "bool \<Rightarrow> PlanNode \<Rightarrow> PlanNode" where
  "set_selectAll b n = PlanNode (pn_type n) (pn_tableName n) (predicateCol n) (predicateVal n) (hasPredicate n)
     (leftJoinCol n) (rightJoinCol n) (outputColumns n) b (insertValues n) (pn_left n) (pn_right n) (estimatedCost n) (estimatedRows n)"

definition optimizeSelect :: "Catalog \<Rightarrow> Statement \<Rightarrow> PlanNode res" where
  "optimizeSelect cat stmt =
     bindE (optimize_scan cat stmt) (\<lambda>scanNode.
     if \<not> selectAll stmt \<and> selectColumns stmt \<noteq> []
     then Inr (PlanNode PROJECTION '''' '''' '''' False '''' '''' (selectColumns stmt) False [] (Some scanNode) None
            (estimatedCost scanNode + 1 / 10) (estimatedRows scanNode))
     else Inr (set_selectAll (selectAll stmt) scanNode))"

definition optimizeInsert :: "Statement \<Rightarrow> PlanNode" where
  "optimizeInsert stmt = PlanNode INSERT_OP (tableName stmt) '''' '''' False '''' '''' [] False (stmt_values stmt) None None 1 1"

definition optimizeDelete :: "Catalog \<Rightarrow> Statement \<Rightarrow> PlanNode" where
  "optimizeDelete cat stmt =
     (let w = where_clause stmt; info = getTable (tableName stmt) cat;
          col = (if hasWhere stmt then wc_column w else ''''); val = (if hasWhere stmt then wc_value w else '''');
          scanNode = PlanNode SEQ_SCAN (tableName stmt) col val (hasWhere stmt) '''' '''' [] False [] None None
            (estimateScanCost cat (tableName stmt)) 0
      in PlanNode DELETE_OP (tableName stmt) col val (hasWhere stmt) '''' '''' [] False [] (Some scanNode) None
           (estimatedCost scanNode + 1)
           (if hasWhere stmt then real (rows_of info) * estimateSelectivity cat (tableName stmt) (wc_column w) (wc_value w)
            else real (rows_of info)))"

text \<open>\<open>None\<close> is the null plan of \<open>CREATE TABLE\<close>.\<close>

definition optimize :: "Catalog \<Rightarrow> Statement \<Rightarrow> PlanNode option res" where
  "optimize cat stmt = (case stmt_type stmt of
      SELECT \<Rightarrow> bindE (optimizeSelect cat stmt) (\<lambda>n. Inr (Some n))
    | INSERT \<Rightarrow> Inr (Some (optimizeInsert stmt))
    | DELETE_STMT \<Rightarrow> Inr (Some (optimizeDelete cat stmt))
    | CREATE_TABLE \<Rightarrow> Inr None)"

section \<open>Laws\<close>

lemma estimateScanCost_ge_1: "1 \<le> estimateScanCost cat t"
  by (simp add: estimateScanCost_def split: option.splits)

lemma estimateSelectivity_bounds: "0 < estimateSelectivity cat t c v" "estimateSelectivity cat t c v \<le> 1"
  by (auto simp: estimateSelectivity_def split: option.splits)

text \<open>When the index is chosen: the table has one, the predicate is on the first column, and the table
  has more than 50 rows.  The decision never fails.\<close>

lemma shouldUseIndex_iff:
  "shouldUseIndex cat t c = Inr (\<exists>info. getTable t cat = Some info \<and> ti_hasIndex info \<and> ti_schema info \<noteq> [] \<and>
     col_name (hd (ti_schema info)) = c \<and> 50 < ti_rowCount info)"
  by (auto simp: shouldUseIndex_def getColumn_def columnCount_def hd_conv_nth split: option.splits)

lemma optimize_scan_cases:
  obtains (index) node info where "optimize_scan cat stmt = Inr node" "pn_type node = INDEX_SCAN" "hasWhere stmt"
      "getTable (tableName stmt) cat = Some info" "ti_hasIndex info" "ti_schema info \<noteq> []"
      "col_name (hd (ti_schema info)) = wc_column (where_clause stmt)" "50 < ti_rowCount info"
      "pn_tableName node = tableName stmt" "hasPredicate node" "predicateCol node = wc_column (where_clause stmt)"
      "predicateVal node = wc_value (where_clause stmt)" "pn_left node = None"
      "estimatedRows node = real (ti_rowCount info) * estimateSelectivity cat (tableName stmt) (wc_column (where_clause stmt)) (wc_value (where_clause stmt))"
  | (seq) node where "optimize_scan cat stmt = Inr node" "pn_type node = SEQ_SCAN" "pn_tableName node = tableName stmt"
      "hasPredicate node = hasWhere stmt" "hasWhere stmt \<Longrightarrow> predicateCol node = wc_column (where_clause stmt)"
      "hasWhere stmt \<Longrightarrow> predicateVal node = wc_value (where_clause stmt)" "pn_left node = None"
      "estimatedRows node \<le> real (rows_of (getTable (tableName stmt) cat))" "1 \<le> estimatedCost node"
proof -
  let ?w = "where_clause stmt"
  let ?info = "getTable (tableName stmt) cat"
  have r: "real (rows_of ?info) * estimateSelectivity cat (tableName stmt) (wc_column ?w) (wc_value ?w) \<le> real (rows_of ?info)"
    using estimateSelectivity_bounds [of cat "tableName stmt" "wc_column ?w" "wc_value ?w"]
    by (intro mult_right_le_one_le) auto
  show thesis
  proof (cases "hasWhere stmt \<and> (\<exists>i. ?info = Some i \<and> ti_hasIndex i \<and> ti_schema i \<noteq> [] \<and>
      col_name (hd (ti_schema i)) = wc_column ?w \<and> 50 < ti_rowCount i)")
    case True
    then obtain i where i: "?info = Some i" "ti_hasIndex i" "ti_schema i \<noteq> []" "col_name (hd (ti_schema i)) = wc_column ?w" "50 < ti_rowCount i"
      by blast
    define node where "node = PlanNode INDEX_SCAN (tableName stmt) (wc_column ?w) (wc_value ?w) True [] [] [] False [] None None
      (index_scan_cost cat (tableName stmt))
      (real (rows_of ?info) * estimateSelectivity cat (tableName stmt) (wc_column ?w) (wc_value ?w))"
    have "optimize_scan cat stmt = Inr node" using True by (simp add: optimize_scan_def shouldUseIndex_iff node_def Let_def)
    then show thesis by (rule index [where info = i]) (use i True in \<open>simp_all add: node_def rows_of_def\<close>)
  next
    case False
    then have e: "(if hasWhere stmt then shouldUseIndex cat (tableName stmt) (wc_column ?w) else Inr False) = Inr False"
      by (auto simp: shouldUseIndex_iff)
    define node where "node = PlanNode SEQ_SCAN (tableName stmt)
      (if hasWhere stmt then wc_column ?w else []) (if hasWhere stmt then wc_value ?w else []) (hasWhere stmt)
      [] [] [] False [] None None (estimateScanCost cat (tableName stmt))
      (if hasWhere stmt then real (rows_of ?info) * estimateSelectivity cat (tableName stmt) (wc_column ?w) (wc_value ?w) else real (rows_of ?info))"
    have "optimize_scan cat stmt = Inr node" using e by (simp add: optimize_scan_def node_def Let_def)
    then show thesis by (rule seq) (use r estimateScanCost_ge_1 in \<open>simp_all add: node_def\<close>)
  qed
qed

section \<open>Properties\<close>

text \<open>The scan a select plan rests on: the plan itself, or the child of its projection.\<close>

definition plan_scan :: "PlanNode \<Rightarrow> PlanNode" where
  "plan_scan n = (case pn_left n of None \<Rightarrow> n | Some c \<Rightarrow> c)"

text \<open>C30: The optimizer always finds a plan for a SELECT, without errors.  Its scan reads the named table
  with exactly the statement's predicate; an index scan is chosen exactly when the table has an
  index, the predicate is on the first column and the catalog counts more than 50 rows; named columns,
  and only they, are projected.\<close>

theorem optimizeSelect_sound:
  "\<exists>plan. optimizeSelect cat stmt = Inr plan \<and> pn_tableName (plan_scan plan) = tableName stmt \<and>
     hasPredicate (plan_scan plan) = hasWhere stmt \<and>
     (hasWhere stmt \<longrightarrow> predicateCol (plan_scan plan) = wc_column (where_clause stmt) \<and> predicateVal (plan_scan plan) = wc_value (where_clause stmt)) \<and>
     pn_type (plan_scan plan) = (if hasWhere stmt \<and> (\<exists>info. getTable (tableName stmt) cat = Some info \<and> ti_hasIndex info \<and>
         ti_schema info \<noteq> [] \<and> col_name (hd (ti_schema info)) = wc_column (where_clause stmt) \<and> 50 < ti_rowCount info)
       then INDEX_SCAN else SEQ_SCAN) \<and>
     (pn_type plan = PROJECTION \<longleftrightarrow> \<not> selectAll stmt \<and> selectColumns stmt \<noteq> []) \<and>
     (pn_type plan = PROJECTION \<longrightarrow> outputColumns plan = selectColumns stmt) \<and>
     estimatedRows plan \<le> real (rows_of (getTable (tableName stmt) cat))"
proof (rule optimize_scan_cases [of cat stmt])
  fix node info
  assume n: "optimize_scan cat stmt = Inr node" "pn_type node = INDEX_SCAN" "hasWhere stmt"
      "getTable (tableName stmt) cat = Some info" "ti_hasIndex info" "ti_schema info \<noteq> []"
      "col_name (hd (ti_schema info)) = wc_column (where_clause stmt)" "50 < ti_rowCount info"
      "pn_tableName node = tableName stmt" "hasPredicate node" "predicateCol node = wc_column (where_clause stmt)"
      "predicateVal node = wc_value (where_clause stmt)" "pn_left node = None"
      "estimatedRows node = real (ti_rowCount info) * estimateSelectivity cat (tableName stmt) (wc_column (where_clause stmt)) (wc_value (where_clause stmt))"
  have "estimatedRows node \<le> real (ti_rowCount info)"
    unfolding n(14) using estimateSelectivity_bounds by (intro mult_right_le_one_le) (auto simp: less_imp_le)
  then show ?thesis using n by (simp add: optimizeSelect_def plan_scan_def set_selectAll_def rows_of_def)
next
  fix node
  assume n: "optimize_scan cat stmt = Inr node" "pn_type node = SEQ_SCAN" "pn_tableName node = tableName stmt"
      "hasPredicate node = hasWhere stmt" "hasWhere stmt \<Longrightarrow> predicateCol node = wc_column (where_clause stmt)"
      "hasWhere stmt \<Longrightarrow> predicateVal node = wc_value (where_clause stmt)" "pn_left node = None"
      "estimatedRows node \<le> real (rows_of (getTable (tableName stmt) cat))" "1 \<le> estimatedCost node"
  have "\<not> (hasWhere stmt \<and> (\<exists>info. getTable (tableName stmt) cat = Some info \<and> ti_hasIndex info \<and>
      ti_schema info \<noteq> [] \<and> col_name (hd (ti_schema info)) = wc_column (where_clause stmt) \<and> 50 < ti_rowCount info))"
  proof
    assume "hasWhere stmt \<and> (\<exists>info. getTable (tableName stmt) cat = Some info \<and> ti_hasIndex info \<and>
      ti_schema info \<noteq> [] \<and> col_name (hd (ti_schema info)) = wc_column (where_clause stmt) \<and> 50 < ti_rowCount info)"
    then have "hasWhere stmt \<and> shouldUseIndex cat (tableName stmt) (wc_column (where_clause stmt)) = Inr True"
      by (simp add: shouldUseIndex_iff)
    then have "optimize_scan cat stmt = Inr (PlanNode INDEX_SCAN (tableName stmt) (wc_column (where_clause stmt)) (wc_value (where_clause stmt)) True
        '''' '''' [] False [] None None (index_scan_cost cat (tableName stmt))
        (real (rows_of (getTable (tableName stmt) cat)) * estimateSelectivity cat (tableName stmt) (wc_column (where_clause stmt)) (wc_value (where_clause stmt))))"
      by (simp add: optimize_scan_def Let_def)
    then show False using n(1,2) by auto
  qed
  then show ?thesis using n by (auto simp: optimizeSelect_def plan_scan_def set_selectAll_def)
qed

text \<open>A table just large enough for the index to be chosen.\<close>

definition sample_catalog :: Catalog where
  "sample_catalog = setIndex ''t'' 2 (updateRowCount ''t'' 51 (addTable ''t'' [\<lparr>col_name = ''id'', col_type = DT_INT\<rparr>] 1 []))"

definition sample_query :: Statement where
  "sample_query = (new_Statement SELECT)\<lparr>tableName := ''t'', selectAll := True, hasWhere := True,
     where_clause := \<lparr>wc_column = ''id'', wc_value = ''7''\<rparr>\<rparr>"

lemma sample_catalog_table:
  "getTable ''t'' sample_catalog = Some \<lparr>ti_name = ''t'', ti_schema = [\<lparr>col_name = ''id'', col_type = DT_INT\<rparr>], ti_fileId = 1,
     ti_rowCount = 51, ti_hasIndex = True, ti_indexFileId = 2\<rparr>"
  by (simp add: sample_catalog_def setIndex_def updateRowCount_def)

theorem optimizeSelect_sound_witness:
  "\<exists>plan. optimizeSelect sample_catalog sample_query = Inr plan \<and> pn_type (plan_scan plan) = INDEX_SCAN \<and>
     predicateCol (plan_scan plan) = ''id'' \<and> pn_type plan \<noteq> PROJECTION"
  using optimizeSelect_sound [of sample_catalog sample_query]
  by (auto simp: sample_query_def new_Statement_def shouldUseIndex_iff sample_catalog_table)

text \<open>The choice of an index scan does not compare costs: on a table of 51 rows the chosen index scan
  is estimated dearer than the sequential scan that was not chosen.\<close>

theorem index_choice_ignores_cost:
  "\<exists>plan. optimizeSelect sample_catalog sample_query = Inr plan \<and> pn_type plan = INDEX_SCAN \<and>
     estimateScanCost sample_catalog ''t'' < estimatedCost plan"
proof -
  have c: "\<lceil>(51::real) / 10\<rceil> = 6" by (rule ceiling_unique) simp_all
  have "log 2 32 = (5::real)" using log_pow_cancel [of "2::real" 5] by simp
  then have l: "5 < log 2 (52::real)" using log_less_cancel_iff [of "2::real" 32 52] by simp
  show ?thesis
    using c l by (simp add: optimizeSelect_def optimize_scan_def set_selectAll_def shouldUseIndex_iff index_scan_cost_def
        sample_query_def new_Statement_def sample_catalog_table estimateScanCost_def Let_def)
qed

end
