(* ===== verification/LogManager.thy ===== *)
theory LogManager
  imports Common
begin

text \<open>
  The write-ahead log of \<open>src/recovery/LogManager.cpp\<close>: the byte format of records, appending,
  flushing, reading back.

  The file is split into what the operating system has (\<open>lm_disk\<close>) and what is still in the
  stream buffer of \<open>logFile_\<close> (\<open>lm_pending\<close>).  A flush moves everything to the disk; a crash keeps
  the disk part and whatever prefix of the buffer had been written on the way.  \<open>LOG_OTHER\<close> stands
  for the values a cast of a stored byte can give outside the enumerators.
\<close>

section \<open>Records (LogManager.h)\<close>

datatype LogRecordType = LOG_INSERT | LOG_DELETE | LOG_UPDATE | BEGIN_TXN | COMMIT_TXN | ABORT_TXN | CHECKPOINT | LOG_OTHER nat

primrec type_code :: "LogRecordType \<Rightarrow> nat" where
  "type_code LOG_INSERT = 0"
| "type_code LOG_DELETE = 1"
| "type_code LOG_UPDATE = 2"
| "type_code BEGIN_TXN = 3"
| "type_code COMMIT_TXN = 4"
| "type_code ABORT_TXN = 5"
| "type_code CHECKPOINT = 6"
| "type_code (LOG_OTHER n) = n"

definition code_type :: "nat \<Rightarrow> LogRecordType" where
  "code_type n = (if n = 0 then LOG_INSERT else if n = 1 then LOG_DELETE else if n = 2 then LOG_UPDATE
     else if n = 3 then BEGIN_TXN else if n = 4 then COMMIT_TXN else if n = 5 then ABORT_TXN
     else if n = 6 then CHECKPOINT else LOG_OTHER n)"

record LogRecord =
  lsn :: nat
  log_type :: LogRecordType
  txnId :: int
  log_table :: string
  log_rid :: RID
  oldData :: "byte list"
  newData :: "byte list"

definition new_LogRecord :: LogRecord where
  "new_LogRecord = \<lparr>lsn = 0, log_type = BEGIN_TXN, txnId = 0, log_table = '''', log_rid = default_RID, oldData = [], newData = []\<rparr>"

record LogManager =
  lm_disk :: "byte list"
  lm_pending :: "byte list"
  lm_isOpen :: bool
  lm_nextLSN :: nat

section \<open>Operations\<close>

definition serializeRecord :: "LogRecord \<Rightarrow> byte list" where
  "serializeRecord r =
     le_bytes 8 (lsn r) @ le_bytes 1 (type_code (log_type r)) @ le_bytes 4 (int32_to_u32 (txnId r)) @
     enc_prefixed 2 (log_table r) @ le_bytes 4 (pageId (log_rid r)) @ le_bytes 2 (slotNum (log_rid r)) @
     enc_prefixed 4 (oldData r) @ enc_prefixed 4 (newData r)"

definition deserializeRecord_at :: "byte list \<Rightarrow> nat \<Rightarrow> (LogRecord \<times> nat) res" where
  "deserializeRecord_at bytes off =
     bindE (rd_le 8 bytes off) (\<lambda>(l, off).
     bindE (rd_le 1 bytes off) (\<lambda>(t, off).
     bindE (rd_le 4 bytes off) (\<lambda>(x, off).
     bindE (dec_prefixed 2 bytes off) (\<lambda>(name, off).
     bindE (rd_le 4 bytes off) (\<lambda>(p, off).
     bindE (rd_le 2 bytes off) (\<lambda>(s, off).
     bindE (dec_prefixed 4 bytes off) (\<lambda>(old, off).
     bindE (dec_prefixed 4 bytes off) (\<lambda>(new, off).
     Inr (\<lparr>lsn = l, log_type = code_type t, txnId = u32_to_int32 x, log_table = name, log_rid = RID p s,
           oldData = old, newData = new\<rparr>, off)))))))))"

definition deserializeRecord :: "byte list \<Rightarrow> LogRecord res" where
  "deserializeRecord bytes = bindE (deserializeRecord_at bytes 0) (\<lambda>(r, _). Inr r)"

text \<open>What \<open>appendLog\<close> writes for a record: its size in four bytes, then the record.\<close>

definition log_frame :: "LogRecord \<Rightarrow> byte list" where
  "log_frame r = (let serialized = serializeRecord r in le_bytes 4 (to_u32 (length serialized)) @ serialized)"

definition appendLog :: "LogRecord \<Rightarrow> LogManager \<Rightarrow> nat \<times> LogManager" where
  "appendLog rec lm =
     (let rec = rec\<lparr>lsn := lm_nextLSN lm\<rparr>;
          lm = lm\<lparr>lm_nextLSN := (lm_nextLSN lm + 1) mod 18446744073709551616\<rparr>
      in (lsn rec, if lm_isOpen lm then lm\<lparr>lm_pending := lm_pending lm @ log_frame rec\<rparr> else lm))"

definition flushLog :: "LogManager \<Rightarrow> LogManager" where
  "flushLog lm = (if lm_isOpen lm then lm\<lparr>lm_disk := lm_disk lm @ lm_pending lm, lm_pending := []\<rparr> else lm)"

text \<open>The stream writes part of its buffer on its own when the buffer is full.\<close>

definition spill :: "nat \<Rightarrow> LogManager \<Rightarrow> LogManager" where
  "spill n lm = lm\<lparr>lm_disk := lm_disk lm @ take n (lm_pending lm), lm_pending := drop n (lm_pending lm)\<rparr>"

text \<open>The loop of \<open>readAllRecords\<close> over the contents of the file: it stops at a truncated size or a
  truncated record.\<close>

function read_records :: "byte list \<Rightarrow> LogRecord list res" where
  "read_records bs =
     (if length bs < 4 then Inr []
      else let recordSize = le_val (take 4 bs); rest = drop 4 bs
           in if length rest < recordSize then Inr []
              else bindE (deserializeRecord (take recordSize rest)) (\<lambda>r.
                   bindE (read_records (drop recordSize rest)) (\<lambda>rs. Inr (r # rs))))"
  by auto
termination by (relation "measure length") auto

declare read_records.simps [simp del]

definition readAllRecords :: "LogManager \<Rightarrow> LogRecord list res" where
  "readAllRecords lm = read_records (lm_disk lm)"

definition next_lsn :: "LogRecord \<Rightarrow> nat \<Rightarrow> nat" where
  "next_lsn r n = (if lsn r \<ge> n then (lsn r + 1) mod 18446744073709551616 else n)"

text \<open>\<open>open\<close> on a freshly constructed manager, for a log file with the given contents; \<open>can_open\<close> tells
  whether the system lets it open the file for appending.\<close>

definition open_log :: "byte list \<Rightarrow> bool \<Rightarrow> LogManager res" where
  "open_log contents can_open =
     bindE (if length contents > 0 then read_records contents else Inr []) (\<lambda>records.
     if can_open then Inr \<lparr>lm_disk = contents, lm_pending = [], lm_isOpen = True, lm_nextLSN = fold next_lsn records 1\<rparr>
     else Inl (RuntimeError (''LogManager: cannot open WAL file: '' @ DATA_DIR @ ''/'' @ WAL_FILE_NAME)))"

definition logBegin :: "int \<Rightarrow> LogManager \<Rightarrow> nat \<times> LogManager" where
  "logBegin t lm = appendLog (new_LogRecord\<lparr>log_type := BEGIN_TXN, txnId := t\<rparr>) lm"

definition logCommit :: "int \<Rightarrow> LogManager \<Rightarrow> nat \<times> LogManager" where
  "logCommit t lm = (let (l, lm) = appendLog (new_LogRecord\<lparr>log_type := COMMIT_TXN, txnId := t\<rparr>) lm in (l, flushLog lm))"

definition logAbort :: "int \<Rightarrow> LogManager \<Rightarrow> nat \<times> LogManager" where
  "logAbort t lm = appendLog (new_LogRecord\<lparr>log_type := ABORT_TXN, txnId := t\<rparr>) lm"

definition logInsert :: "int \<Rightarrow> string \<Rightarrow> RID \<Rightarrow> byte list \<Rightarrow> LogManager \<Rightarrow> nat \<times> LogManager" where
  "logInsert t table rid bytes lm =
     appendLog (new_LogRecord\<lparr>log_type := LOG_INSERT, txnId := t, log_table := table, log_rid := rid, newData := bytes\<rparr>) lm"

definition logDelete :: "int \<Rightarrow> string \<Rightarrow> RID \<Rightarrow> byte list \<Rightarrow> LogManager \<Rightarrow> nat \<times> LogManager" where
  "logDelete t table rid bytes lm =
     appendLog (new_LogRecord\<lparr>log_type := LOG_DELETE, txnId := t, log_table := table, log_rid := rid, oldData := bytes\<rparr>) lm"

definition currentLSN :: "LogManager \<Rightarrow> nat" where
  "currentLSN lm = lm_nextLSN lm"

section \<open>The record format is a codec\<close>

definition record_ok :: "LogRecord \<Rightarrow> bool" where
  "record_ok r \<longleftrightarrow> lsn r < 18446744073709551616 \<and> type_code (log_type r) < 7 \<and> (\<forall>n. log_type r \<noteq> LOG_OTHER n) \<and> in_int32 (txnId r) \<and>
     length (log_table r) < 65536 \<and> rid_ok (log_rid r) \<and>
     length (log_table r) + length (oldData r) + length (newData r) + 29 < 4294967296"

lemma code_type_code: "(\<forall>n. t \<noteq> LOG_OTHER n) \<Longrightarrow> code_type (type_code t) = t"
  by (cases t) (simp_all add: code_type_def)

lemma length_serializeRecord: "length (serializeRecord r) = length (log_table r) + length (oldData r) + length (newData r) + 29"
  by (simp add: serializeRecord_def)

interpretation u8: codec "le_bytes 1" "rd_le 1" "\<lambda>v. v < 256"
  using codec_le [of 1] by simp

interpretation rc: codec serializeRecord deserializeRecord_at record_ok
proof
  fix r :: LogRecord and pre post :: "byte list"
  assume ok: "record_ok r"
  define b1 b2 b3 b4 b5 b6 b7 b8 where bs: "b1 = le_bytes 8 (lsn r)" "b2 = le_bytes 1 (type_code (log_type r))"
    "b3 = le_bytes 4 (int32_to_u32 (txnId r))" "b4 = enc_prefixed 2 (log_table r)" "b5 = le_bytes 4 (pageId (log_rid r))"
    "b6 = le_bytes 2 (slotNum (log_rid r))" "b7 = enc_prefixed 4 (oldData r)" "b8 = enc_prefixed 4 (newData r)"
  let ?b = "pre @ b1 @ b2 @ b3 @ b4 @ b5 @ b6 @ b7 @ b8 @ post"
  have r: "lsn r < 18446744073709551616" "type_code (log_type r) < 256" "length (log_table r) < 65536"
    "pageId (log_rid r) < 4294967296" "slotNum (log_rid r) < 65536" "length (oldData r) < 4294967296" "length (newData r) < 4294967296"
    using ok by (auto simp: record_ok_def rid_ok_def)
  have d: "rd_le 8 ?b (length pre) = Inr (lsn r, length (pre @ b1))"
    "rd_le 1 ?b (length (pre @ b1)) = Inr (type_code (log_type r), length (pre @ b1 @ b2))"
    "rd_le 4 ?b (length (pre @ b1 @ b2)) = Inr (int32_to_u32 (txnId r), length (pre @ b1 @ b2 @ b3))"
    "dec_prefixed 2 ?b (length (pre @ b1 @ b2 @ b3)) = Inr (log_table r, length (pre @ b1 @ b2 @ b3 @ b4))"
    "rd_le 4 ?b (length (pre @ b1 @ b2 @ b3 @ b4)) = Inr (pageId (log_rid r), length (pre @ b1 @ b2 @ b3 @ b4 @ b5))"
    "rd_le 2 ?b (length (pre @ b1 @ b2 @ b3 @ b4 @ b5)) = Inr (slotNum (log_rid r), length (pre @ b1 @ b2 @ b3 @ b4 @ b5 @ b6))"
    "dec_prefixed 4 ?b (length (pre @ b1 @ b2 @ b3 @ b4 @ b5 @ b6)) = Inr (oldData r, length (pre @ b1 @ b2 @ b3 @ b4 @ b5 @ b6 @ b7))"
    "dec_prefixed 4 ?b (length (pre @ b1 @ b2 @ b3 @ b4 @ b5 @ b6 @ b7)) = Inr (newData r, length (pre @ b1 @ b2 @ b3 @ b4 @ b5 @ b6 @ b7 @ b8))"
    using u64.dec_enc [OF r(1), of pre] u8.dec_enc [OF r(2), of "pre @ b1"] u32.dec_enc [of "int32_to_u32 (txnId r)" "pre @ b1 @ b2"]
      str16.dec_enc [OF r(3), of "pre @ b1 @ b2 @ b3"] u32.dec_enc [OF r(4), of "pre @ b1 @ b2 @ b3 @ b4"]
      u16.dec_enc [OF r(5), of "pre @ b1 @ b2 @ b3 @ b4 @ b5"] str32.dec_enc [OF r(6), of "pre @ b1 @ b2 @ b3 @ b4 @ b5 @ b6"]
      str32.dec_enc [OF r(7), of "pre @ b1 @ b2 @ b3 @ b4 @ b5 @ b6 @ b7"]
    by (simp_all add: bs add.assoc)
  have "deserializeRecord_at ?b (length pre) = Inr (r, length (pre @ b1 @ b2 @ b3 @ b4 @ b5 @ b6 @ b7 @ b8))"
    using ok unfolding deserializeRecord_at_def
    by (simp only: d bindE_simps prod.case) (simp add: record_ok_def code_type_code)
  then show "deserializeRecord_at (pre @ serializeRecord r @ post) (length pre) = Inr (r, length pre + length (serializeRecord r))"
    by (simp add: serializeRecord_def bs)
qed

lemma deserializeRecord_serialized: "record_ok r \<Longrightarrow> deserializeRecord (serializeRecord r) = Inr r"
  using rc.dec_enc [of r "[]" "[]"] by (simp add: deserializeRecord_def)

section \<open>Reading a log file back\<close>

abbreviation log_file :: "LogRecord list \<Rightarrow> byte list" where
  "log_file rs \<equiv> concat (map log_frame rs)"

lemma length_log_frame: "length (log_frame r) = 4 + length (serializeRecord r)"
  by (simp add: log_frame_def Let_def)

lemma read_frame:
  assumes "record_ok r"
  shows "read_records (log_frame r @ rest) = bindE (read_records rest) (\<lambda>rs. Inr (r # rs))"
proof -
  have n: "length (serializeRecord r) < 4294967296" using assms by (simp add: record_ok_def length_serializeRecord)
  let ?bs = "log_frame r @ rest"
  have b: "?bs = le_bytes 4 (length (serializeRecord r)) @ serializeRecord r @ rest" using n by (simp add: log_frame_def Let_def)
  have "take 4 ?bs = le_bytes 4 (length (serializeRecord r))" "drop 4 ?bs = serializeRecord r @ rest" "\<not> length ?bs < 4"
    unfolding b by simp_all
  then show ?thesis
    using n deserializeRecord_serialized [OF assms] by (subst read_records.simps) (simp add: Let_def)
qed

lemma read_oversized:
  assumes "length bs < le_val (take 4 bs)"
  shows "read_records bs = Inr []"
proof -
  have "length (drop 4 bs) < le_val (take 4 bs)" using assms by simp
  then show ?thesis by (subst read_records.simps) (simp only: Let_def if_True if_cancel)
qed

lemma read_torn_frame:
  assumes "record_ok r" "n < length (log_frame r)"
  shows "read_records (take n (log_frame r)) = Inr []"
proof -
  have s: "length (serializeRecord r) < 4294967296" using assms by (simp add: record_ok_def length_serializeRecord)
  show ?thesis
  proof (cases "n < 4")
    case True
    then show ?thesis using assms(2) by (subst read_records.simps) simp
  next
    case False
    have "take n (log_frame r) = le_bytes 4 (length (serializeRecord r)) @ take (n - 4) (serializeRecord r)"
      using False s by (simp add: log_frame_def Let_def)
    moreover have "n - 4 < length (serializeRecord r)" using False assms(2) length_log_frame [of r] by simp
    ultimately show ?thesis using False s
      by (subst read_records.simps) (simp add: Let_def)
  qed
qed

text \<open>How many records of a list are complete in the first \<open>n\<close> bytes of their log file.\<close>

fun complete :: "nat \<Rightarrow> LogRecord list \<Rightarrow> nat" where
  "complete n [] = 0"
| "complete n (r # rs) = (if n < length (log_frame r) then 0 else Suc (complete (n - length (log_frame r)) rs))"

lemma read_log_prefix:
  "list_all record_ok rs \<Longrightarrow> read_records (take n (log_file rs)) = Inr (take (complete n rs) rs)"
proof (induction rs arbitrary: n)
  case Nil
  then show ?case by (subst read_records.simps) simp
next
  case (Cons r rs)
  show ?case
  proof (cases "n < length (log_frame r)")
    case True
    then show ?thesis using Cons.prems read_torn_frame [of r n] by simp
  next
    case False
    then have "take n (log_file (r # rs)) = log_frame r @ take (n - length (log_frame r)) (log_file rs)" by simp
    then show ?thesis using False Cons.prems Cons.IH read_frame [of r] by simp
  qed
qed

lemma complete_file: "length (log_file rs) \<le> n \<Longrightarrow> complete n rs = length rs"
  by (induction rs arbitrary: n) auto

lemma complete_append: "length (log_file rs) \<le> n \<Longrightarrow> complete n (rs @ rs') = length rs + complete (n - length (log_file rs)) rs'"
  by (induction rs arbitrary: n) auto

section \<open>The log of a running system\<close>

text \<open>The manager has written exactly the records \<open>rs\<close>, of which the first \<open>k\<close> are known to be on the
  disk: their sequence numbers increase and stay below the next one.\<close>

definition log_inv :: "LogManager \<Rightarrow> LogRecord list \<Rightarrow> nat \<Rightarrow> bool" where
  "log_inv lm rs k \<longleftrightarrow> lm_isOpen lm \<and> list_all record_ok rs \<and> lm_disk lm @ lm_pending lm = log_file rs \<and>
     k \<le> length rs \<and> length (log_file (take k rs)) \<le> length (lm_disk lm) \<and>
     sorted_wrt (<) (map lsn rs) \<and> (\<forall>r \<in> set rs. lsn r < lm_nextLSN lm) \<and> lm_nextLSN lm < 18446744073709551616"

lemma log_inv_append:
  assumes "log_inv lm rs k" "record_ok (rec\<lparr>lsn := lm_nextLSN lm\<rparr>)" "lm_nextLSN lm + 1 < 18446744073709551616"
  shows "log_inv (snd (appendLog rec lm)) (rs @ [rec\<lparr>lsn := lm_nextLSN lm\<rparr>]) k" "fst (appendLog rec lm) = lm_nextLSN lm"
  using assms by (auto simp: log_inv_def appendLog_def Let_def sorted_wrt_append less_Suc_eq simp flip: append_assoc)

lemma log_inv_flush:
  assumes "log_inv lm rs k"
  shows "log_inv (flushLog lm) rs (length rs)" "lm_disk (flushLog lm) = log_file rs" "lm_pending (flushLog lm) = []"
proof -
  have f: "lm_disk lm @ lm_pending lm = log_file rs" "lm_isOpen lm" using assms by (simp_all add: log_inv_def)
  then show d: "lm_disk (flushLog lm) = log_file rs" "lm_pending (flushLog lm) = []" by (simp_all add: flushLog_def)
  show "log_inv (flushLog lm) rs (length rs)" using assms d unfolding log_inv_def by (simp add: flushLog_def)
qed

lemma log_inv_spill: "log_inv lm rs k \<Longrightarrow> log_inv (spill n lm) rs k"
  by (auto simp: log_inv_def spill_def)

text \<open>What is read after a crash: a prefix of the records written that contains all known to be on the
  disk.\<close>

lemma read_after_crash:
  assumes "log_inv lm rs k"
  shows "\<exists>j. k \<le> j \<and> j \<le> length rs \<and> read_records (lm_disk lm @ take n (lm_pending lm)) = Inr (take j rs)"
proof -
  let ?n = "length (lm_disk lm) + min n (length (lm_pending lm))"
  have ok: "list_all record_ok rs" and d: "length (log_file (take k rs)) \<le> ?n" and k: "k \<le> length rs"
    using assms by (auto simp: log_inv_def)
  have "lm_disk lm @ lm_pending lm = log_file rs" using assms by (simp add: log_inv_def)
  then have e: "lm_disk lm @ take n (lm_pending lm) = take ?n (log_file rs)"
    by (simp add: min_def flip: \<open>lm_disk lm @ lm_pending lm = log_file rs\<close>)
  have "complete ?n rs = length (take k rs) + complete (?n - length (log_file (take k rs))) (drop k rs)"
    using complete_append [OF d, of "drop k rs"] by simp
  then have "k \<le> complete ?n rs" using k by simp
  moreover have "complete n rs \<le> length rs" for n
    by (induction rs arbitrary: n) auto
  ultimately show ?thesis using read_log_prefix [OF ok, of ?n] unfolding e by blast
qed

section \<open>Histories of the log\<close>

text \<open>The calls the engine makes: appending a well-formed record, flushing, and the stream's own partial
  writes.  A commit is an append followed by a flush.  A restart loses the stream buffer, but for some prefix
  of it, and opens the file that is left; \<open>open\<close> appends at the end of the file whatever stands there, so the
  restarts of these histories are those that find the file ending with a complete record.  What a restart on
  a torn record leads to is the subject of \<open>torn_tail_loses_commit\<close> below.\<close>

inductive log_step :: "LogManager \<times> LogRecord list \<times> nat \<Rightarrow> LogManager \<times> LogRecord list \<times> nat \<Rightarrow> bool" where
  append: "record_ok (rec\<lparr>lsn := lm_nextLSN lm\<rparr>) \<Longrightarrow> lm_nextLSN lm + 1 < 18446744073709551616 \<Longrightarrow> appendLog rec lm = (l, lm') \<Longrightarrow>
    log_step (lm, rs, k) (lm', rs @ [rec\<lparr>lsn := l\<rparr>], k)"
| flush: "log_step (lm, rs, k) (flushLog lm, rs, length rs)"
| spill: "log_step (lm, rs, k) (spill n lm, rs, k)"
| restart: "contents = lm_disk lm @ take n (lm_pending lm) \<Longrightarrow> contents = log_file (take j rs) \<Longrightarrow>
    open_log contents True = Inr lm' \<Longrightarrow> log_step (lm, rs, k) (lm', take j rs, length (take j rs))"

definition log_start :: LogManager where
  "log_start = \<lparr>lm_disk = [], lm_pending = [], lm_isOpen = True, lm_nextLSN = 1\<rparr>"

abbreviation log_reach :: "LogManager \<Rightarrow> LogRecord list \<Rightarrow> nat \<Rightarrow> bool" where
  "log_reach lm rs k \<equiv> log_step\<^sup>*\<^sup>* (log_start, [], 0) (lm, rs, k)"

lemma log_start_opened: "open_log [] True = Inr log_start"
  by (simp add: open_log_def log_start_def)

lemma fold_next_lsn:
  assumes "sorted_wrt (<) (map lsn rs)" "\<And>r. r \<in> set rs \<Longrightarrow> lsn r < b" "b < 18446744073709551616" "1 \<le> n" "n \<le> b"
  shows "n \<le> fold next_lsn rs n \<and> fold next_lsn rs n \<le> b \<and> (\<forall>r \<in> set rs. lsn r < fold next_lsn rs n)"
  using assms
proof (induction rs arbitrary: n)
  case (Cons r rs)
  have r: "lsn r < b" using Cons.prems(2) by simp
  have n: "n \<le> next_lsn r n" "lsn r < next_lsn r n" "next_lsn r n \<le> b" using r Cons.prems(3-5) by (auto simp: next_lsn_def)
  have "next_lsn r n \<le> fold next_lsn rs (next_lsn r n) \<and> fold next_lsn rs (next_lsn r n) \<le> b \<and>
      (\<forall>q \<in> set rs. lsn q < fold next_lsn rs (next_lsn r n))"
    by (rule Cons.IH) (use Cons.prems n in auto)
  with n show ?case by auto
qed simp

text \<open>What \<open>open\<close> makes of a file it reads the first records of a log from.\<close>

lemma open_log_found:
  assumes inv: "log_inv lm rs k" and f: "read_records contents = Inr (take j rs)"
  obtains lm' where "open_log contents True = Inr lm'" "lm_disk lm' = contents" "lm_pending lm' = []" "lm_isOpen lm'"
    "\<forall>r \<in> set (take j rs). lsn r < lm_nextLSN lm'" "lm_nextLSN lm' < 18446744073709551616"
proof -
  let ?next = "fold next_lsn (take j rs) 1"
  have s: "sorted_wrt (<) (map lsn rs)" "\<forall>r \<in> set rs. lsn r < lm_nextLSN lm" "lm_nextLSN lm < 18446744073709551616"
    using inv by (simp_all add: log_inv_def)
  have e: "read_records [] = Inr []" by (subst read_records.simps) simp
  have o: "open_log contents True = Inr \<lparr>lm_disk = contents, lm_pending = [], lm_isOpen = True, lm_nextLSN = ?next\<rparr>"
    using f e by (cases contents) (auto simp: open_log_def)
  have "sorted_wrt (<) (map lsn (take j rs))" using s(1) by (simp flip: take_map)
  moreover have "lsn r < max 1 (lm_nextLSN lm)" if "r \<in> set (take j rs)" for r
    using in_set_takeD [OF that] s(2) by (auto simp: less_max_iff_disj)
  ultimately have "?next \<le> max 1 (lm_nextLSN lm) \<and> (\<forall>r \<in> set (take j rs). lsn r < ?next)"
    using fold_next_lsn [of "take j rs" "max 1 (lm_nextLSN lm)" 1] s(3) by simp
  then show thesis using s(3) by (intro that [OF o]) auto
qed

lemma read_log_file: "list_all record_ok rs \<Longrightarrow> read_records (log_file rs) = Inr rs"
  using read_log_prefix [of rs "length (log_file rs)"] complete_file [of rs "length (log_file rs)"] by simp

lemma log_inv_restart:
  assumes inv: "log_inv lm rs k" and o: "open_log (log_file (take j rs)) True = Inr lm'"
  shows "log_inv lm' (take j rs) (length (take j rs))"
proof -
  have r: "list_all record_ok rs" "sorted_wrt (<) (map lsn rs)" using inv by (simp_all add: log_inv_def)
  have ok: "list_all record_ok (take j rs)" using r(1) by (auto simp: list_all_iff dest: in_set_takeD)
  have sorted: "sorted_wrt (<) (map lsn (take j rs))" using r(2) by (simp flip: take_map)
  show ?thesis
    by (rule open_log_found [OF inv read_log_file [OF ok]]) (use o ok sorted in \<open>simp add: log_inv_def min_def\<close>)
qed

lemma log_step_inv: "log_step x y \<Longrightarrow> (case x of (lm, rs, k) \<Rightarrow> log_inv lm rs k) \<Longrightarrow> (case y of (lm, rs, k) \<Rightarrow> log_inv lm rs k)"
proof (induction rule: log_step.induct)
  case (append lm rec l lm' rs k)
  then have "log_inv (snd (appendLog rec lm)) (rs @ [rec\<lparr>lsn := lm_nextLSN lm\<rparr>]) k" "fst (appendLog rec lm) = lm_nextLSN lm"
    using log_inv_append [of lm rs k rec] by simp_all
  then show ?case using append(3) by simp
next
  case (restart contents lm n j rs lm' k)
  then show ?case using log_inv_restart [of lm rs k j lm'] by simp
qed (auto intro: log_inv_flush(1) log_inv_spill)

lemma log_reach_inv: "log_reach lm rs k \<Longrightarrow> log_inv lm rs k"
proof -
  assume r: "log_reach lm rs k"
  have "case (lm, rs, k) of (lm, rs, k) \<Rightarrow> log_inv lm rs k"
    using r
  proof (induction rule: rtranclp_induct)
    case base
    then show ?case by (simp add: log_inv_def log_start_def)
  qed (rule log_step_inv)
  then show ?thesis by simp
qed

lemma commit_record_ok:
  "in_int32 t \<Longrightarrow> n < 18446744073709551616 \<Longrightarrow> record_ok (new_LogRecord\<lparr>log_type := COMMIT_TXN, txnId := t, lsn := n\<rparr>)"
  by (simp add: record_ok_def new_LogRecord_def rid_ok_def default_RID_def)

lemma log_inv_nextLSN: "log_inv lm rs k \<Longrightarrow> lm_nextLSN lm < 18446744073709551616"
  by (simp add: log_inv_def)

section \<open>Properties\<close>

text \<open>C5: Whatever well-formed records (fields within the widths of the format) were appended, flushed and partly
  written by the stream, in one run or over restarts that each found the file ending with a complete record, a crash leaves a file from which \<open>readAllRecords\<close> reads
  a prefix of the log's records that contains every record flushed: a torn last record is dropped, not
  misread.\<close>

theorem crash_reads_prefix:
  assumes "log_reach lm rs k" "contents = lm_disk lm @ take n (lm_pending lm)"
  shows "\<exists>j. k \<le> j \<and> j \<le> length rs \<and> read_records contents = Inr (take j rs)"
  unfolding assms(2) by (rule read_after_crash [OF log_reach_inv [OF assms(1)]])

definition sample_commit :: LogRecord where
  "sample_commit = new_LogRecord\<lparr>log_type := COMMIT_TXN, txnId := 5, lsn := 1\<rparr>"

lemma sample_log_reach:
  "log_reach \<lparr>lm_disk = [], lm_pending = log_frame sample_commit, lm_isOpen = True, lm_nextLSN = 2\<rparr> [sample_commit] 0"
proof (rule r_into_rtranclp)
  have "appendLog sample_commit log_start =
      (1, \<lparr>lm_disk = [], lm_pending = log_frame sample_commit, lm_isOpen = True, lm_nextLSN = 2\<rparr>)"
    by (simp add: appendLog_def log_start_def sample_commit_def)
  then have "log_step (log_start, [], 0)
      (\<lparr>lm_disk = [], lm_pending = log_frame sample_commit, lm_isOpen = True, lm_nextLSN = 2\<rparr>, [] @ [sample_commit\<lparr>lsn := 1\<rparr>], 0)"
    by (intro log_step.append) (simp_all add: log_start_def sample_commit_def commit_record_ok in_int32_def)
  then show "log_step (log_start, [], 0)
      (\<lparr>lm_disk = [], lm_pending = log_frame sample_commit, lm_isOpen = True, lm_nextLSN = 2\<rparr>, [sample_commit], 0)"
    by (simp add: sample_commit_def)
qed

text \<open>The same log after a restart that found the record complete, and a second record appended.\<close>

definition sample_abort :: LogRecord where
  "sample_abort = new_LogRecord\<lparr>log_type := ABORT_TXN, txnId := 6, lsn := 2\<rparr>"

definition sample_restarted :: LogManager where
  "sample_restarted = \<lparr>lm_disk = log_frame sample_commit, lm_pending = log_frame sample_abort, lm_isOpen = True, lm_nextLSN = 3\<rparr>"

lemma sample_records_ok: "record_ok sample_commit" "record_ok sample_abort"
  by (simp_all add: sample_commit_def sample_abort_def record_ok_def new_LogRecord_def rid_ok_def default_RID_def in_int32_def)

lemma sample_restarted_reach: "log_reach sample_restarted [sample_commit, sample_abort] 1"
proof -
  let ?lm = "\<lparr>lm_disk = [], lm_pending = log_frame sample_commit, lm_isOpen = True, lm_nextLSN = 2\<rparr> :: LogManager"
  let ?lm1 = "\<lparr>lm_disk = log_frame sample_commit, lm_pending = [], lm_isOpen = True, lm_nextLSN = 2\<rparr> :: LogManager"
  have "read_records (log_frame sample_commit) = Inr [sample_commit]"
    using read_log_file [of "[sample_commit]"] sample_records_ok by simp
  then have "open_log (log_frame sample_commit) True = Inr ?lm1"
    by (simp add: open_log_def length_log_frame next_lsn_def sample_commit_def)
  then have "log_step (?lm, [sample_commit], 0) (?lm1, take 1 [sample_commit], length (take 1 [sample_commit]))"
    by (intro log_step.restart [of "log_frame sample_commit" _ "length (log_frame sample_commit)"]) simp_all
  moreover have "log_step (?lm1, [sample_commit], 1) (sample_restarted, [sample_commit] @ [sample_abort\<lparr>lsn := 2\<rparr>], 1)"
  proof (rule log_step.append)
    show "record_ok (sample_abort\<lparr>lsn := lm_nextLSN ?lm1\<rparr>)" using sample_records_ok(2) by (simp add: sample_abort_def)
  qed (simp_all add: appendLog_def sample_restarted_def sample_abort_def)
  moreover have "sample_abort\<lparr>lsn := 2\<rparr> = sample_abort" by (simp add: sample_abort_def)
  ultimately show ?thesis
    by (metis (no_types, lifting) append_Cons append_Nil length_Cons list.size(3) One_nat_def rtranclp.rtrancl_into_rtrancl
        sample_log_reach take_Suc_Cons take_0)
qed

theorem crash_reads_prefix_witness:
  "\<exists>j. 1 \<le> j \<and> j \<le> 2 \<and> read_records (log_frame sample_commit @ take 7 (log_frame sample_abort)) = Inr (take j [sample_commit, sample_abort])"
  using crash_reads_prefix [OF sample_restarted_reach refl, of 7] by (auto simp: sample_restarted_def)

text \<open>C16: Once \<open>logCommit\<close> has returned, the commit record and every record of the log before it survive
  a crash: whatever prefix of the stream buffer reaches the disk, \<open>readAllRecords\<close> returns all of them, with
  the commit record last.  The log may be that of a first run or of restarts that each found the file ending
  with a complete record; without that restriction the property fails, see \<open>torn_tail_loses_commit\<close>.\<close>

theorem logCommit_durable:
  assumes "log_reach lm rs k" "in_int32 t" "lm_nextLSN lm + 1 < 18446744073709551616" "logCommit t lm = (l, lm')"
  shows "read_records (lm_disk lm' @ take n (lm_pending lm')) =
    Inr (rs @ [new_LogRecord\<lparr>log_type := COMMIT_TXN, txnId := t, lsn := l\<rparr>])"
proof -
  let ?rec = "new_LogRecord\<lparr>log_type := COMMIT_TXN, txnId := t\<rparr>"
  note inv = log_reach_inv [OF assms(1)]
  have "log_inv (snd (appendLog ?rec lm)) (rs @ [?rec\<lparr>lsn := lm_nextLSN lm\<rparr>]) k"
    using log_inv_append(1) [OF inv _ assms(3), of ?rec] commit_record_ok [OF assms(2)] log_inv_nextLSN [OF inv] by simp
  note f = log_inv_flush [OF this]
  have lm': "lm' = flushLog (snd (appendLog ?rec lm))" "l = lm_nextLSN lm"
    using assms(4) by (auto simp: logCommit_def appendLog_def Let_def)
  have "list_all record_ok (rs @ [?rec\<lparr>lsn := l\<rparr>])" using f(1) lm'(2) by (simp add: log_inv_def)
  from read_log_prefix [OF this, of "length (log_file (rs @ [?rec\<lparr>lsn := l\<rparr>]))"] complete_file [OF order_refl, of "rs @ [?rec\<lparr>lsn := l\<rparr>]"]
  show ?thesis using f(2,3) lm' by simp
qed

theorem logCommit_durable_witness:
  "read_records (lm_disk (snd (logCommit 7 log_start))) = Inr [new_LogRecord\<lparr>log_type := COMMIT_TXN, txnId := 7, lsn := 1\<rparr>]"
  using logCommit_durable [of log_start "[]" 0 7 1 "snd (logCommit 7 log_start)" 0]
  by (simp add: in_int32_def log_start_def logCommit_def appendLog_def Let_def)

text \<open>C25: Sequence numbers strictly increase along the log of any history, restarts included that each found
  the file ending with a complete record; and \<open>open\<close> after a crash at any byte, also in the middle of a record,
  continues above every record it finds in the file.\<close>

theorem lsn_monotone_across_restart:
  assumes "log_reach lm rs k" "contents = lm_disk lm @ take n (lm_pending lm)"
  shows "sorted_wrt (<) (map lsn rs) \<and>
    (\<exists>lm' found. open_log contents True = Inr lm' \<and> read_records contents = Inr found \<and> (\<forall>r \<in> set found. lsn r < currentLSN lm'))"
proof -
  note inv = log_reach_inv [OF assms(1)]
  have s: "sorted_wrt (<) (map lsn rs)" using inv by (simp add: log_inv_def)
  obtain j where j: "read_records contents = Inr (take j rs)"
    using read_after_crash [OF inv, of n] assms(2) by blast
  then show ?thesis by (rule open_log_found [OF inv]) (use s j in \<open>auto simp: currentLSN_def\<close>)
qed

theorem lsn_monotone_across_restart_witness:
  "sorted_wrt (<) (map lsn [sample_commit, sample_abort]) \<and>
   (\<exists>lm' found. open_log (log_frame sample_commit @ log_frame sample_abort) True = Inr lm' \<and>
     read_records (log_frame sample_commit @ log_frame sample_abort) = Inr found \<and> list_all (\<lambda>r. lsn r < currentLSN lm') found)"
  using lsn_monotone_across_restart [OF sample_restarted_reach refl, of "length (log_frame sample_abort)"]
  by (auto simp: sample_restarted_def list_all_iff)

text \<open>The size field that \<open>readAllRecords\<close> finds where one to three bytes of a torn record are followed by
  the frame of a commit record.\<close>

lemma torn_size_field:
  assumes "length torn \<in> {1, 2, 3}"
  shows "100 \<le> le_val (take 4 (torn @ le_bytes 4 29 @ rest))"
proof -
  have b: "le_bytes 4 29 = [char_of (29::nat), char_of (0::nat), char_of (0::nat), char_of (0::nat)]"
  proof -
    have "(4::nat) = Suc (Suc (Suc (Suc 0)))" by simp
    then show ?thesis by (simp only: le_bytes.simps) simp
  qed
  consider a where "torn = [a]" | a b where "torn = [a, b]" | a b c where "torn = [a, b, c]"
    using assms by (auto simp: length_Suc_conv numeral_2_eq_2 numeral_3_eq_3)
  then show ?thesis unfolding b by cases simp_all
qed

text \<open>A restart on a torn record loses later commits.  Take any log file of well-formed records that ends
  in the first one, two or three bytes of a further record, as a crash during a write leaves it.  \<open>open\<close>
  succeeds and appends after the torn bytes; a \<open>logCommit\<close> then returns with nothing left in the buffer, and
  yet \<open>readAllRecords\<close> returns the old records only: the torn bytes are taken for the start of the size field, and
  the commit record is never found.\<close>

theorem torn_tail_loses_commit:
  assumes "list_all record_ok rs" "1 \<le> n" "n \<le> 3"
  shows "\<exists>lm l lm'. open_log (log_file rs @ take n (log_frame r)) True = Inr lm \<and> logCommit t lm = (l, lm') \<and>
    lm_pending lm' = [] \<and> lm_disk lm' = log_file rs @ take n (log_frame r) @ log_frame (new_LogRecord\<lparr>log_type := COMMIT_TXN, txnId := t, lsn := l\<rparr>) \<and>
    readAllRecords lm' = Inr rs"
proof -
  have read: "read_records (log_file rs @ rest) = bindE (read_records rest) (\<lambda>qs. Inr (rs @ qs))" for rest
    using assms(1)
  proof (induction rs)
    case Nil
    then show ?case by (cases "read_records rest") simp_all
  next
    case (Cons q rs)
    then show ?case by (cases "read_records rest") (simp_all add: read_frame)
  qed
  let ?torn = "take n (log_frame r)"
  have l: "length ?torn = n" using assms(3) by (simp add: length_log_frame)
  define lm where "lm = \<lparr>lm_disk = log_file rs @ ?torn, lm_pending = [], lm_isOpen = True, lm_nextLSN = fold next_lsn rs 1\<rparr>"
  have "read_records ?torn = Inr []" by (subst read_records.simps) (use l assms(3) in simp)
  then have o: "open_log (log_file rs @ ?torn) True = Inr lm" using l assms(2) by (simp add: open_log_def read lm_def)
  let ?rec = "new_LogRecord\<lparr>log_type := COMMIT_TXN, txnId := t, lsn := lm_nextLSN lm\<rparr>"
  obtain lm' where c: "logCommit t lm = (lm_nextLSN lm, lm')" "lm_pending lm' = []" "lm_disk lm' = log_file rs @ ?torn @ log_frame ?rec"
    by (simp add: logCommit_def appendLog_def flushLog_def lm_def)
  have s: "length (serializeRecord ?rec) = 29" by (simp add: length_serializeRecord new_LogRecord_def)
  then have f: "log_frame ?rec = le_bytes 4 29 @ serializeRecord ?rec" by (simp add: log_frame_def Let_def)
  have "100 \<le> le_val (take 4 (?torn @ log_frame ?rec))"
    unfolding f by (rule torn_size_field) (use l assms(2,3) in auto)
  moreover have "length (?torn @ log_frame ?rec) < 100" using l s assms(3) by (simp add: length_log_frame)
  ultimately have "read_records (?torn @ log_frame ?rec) = Inr []" by (intro read_oversized) linarith
  then have "readAllRecords lm' = Inr rs" unfolding readAllRecords_def c(3) by (simp add: read)
  with o c show ?thesis by blast
qed

theorem torn_tail_loses_commit_witness:
  "\<exists>lm l lm'. open_log (log_frame sample_commit @ take 3 (log_frame sample_abort)) True = Inr lm \<and>
     logCommit 7 lm = (l, lm') \<and> readAllRecords lm' = Inr [sample_commit]"
  using torn_tail_loses_commit [of "[sample_commit]" 3 sample_abort 7] sample_records_ok by auto

end
