(* ===== verification/LockManager.thy ===== *)
theory LockManager
  imports Prelude "HOL-Library.AList"
begin

text \<open>
  The lock manager of \<open>src/transaction/LockManager.cpp\<close>.

  A call of \<open>lockShared\<close> or \<open>lockExclusive\<close> that has to wait is two steps here: the part up to
  \<open>cv_.wait\<close>, which leaves a pending request, and the part after it (\<open>wakeShared\<close>,
  \<open>wakeExclusive\<close>), which runs when the predicate of the wait holds.  The mutex makes each part
  atomic; the step relation \<open>lock_step\<close> interleaves the parts of all threads.

  The wait-for graph is an association list from transactions to the distinct transactions they wait
  for; list order stands for the unspecified iteration order of the hash containers.
\<close>

section \<open>State (LockManager.h)\<close>

datatype LockMode = SHARED | EXCLUSIVE

record ResourceId =
  res_tableName :: string
  res_pageId :: nat
  res_slotNum :: nat

record LockRequest =
  lr_txnId :: int
  lr_mode :: LockMode
  lr_granted :: bool

type_synonym wait_graph = "(int \<times> int list) list"

record LockManager =
  lk_table :: "ResourceId \<rightharpoonup> LockRequest list"
  lk_graph :: wait_graph

definition new_LockManager :: LockManager where
  "new_LockManager = \<lparr>lk_table = Map.empty, lk_graph = []\<rparr>"

section \<open>Deadlock detection\<close>

text \<open>\<open>detectCycle\<close> and its loop over the neighbours: whether a cycle was found, and the two sets.\<close>

function (sequential) detectCycle :: "nat \<Rightarrow> wait_graph \<Rightarrow> int \<Rightarrow> int set \<Rightarrow> int set \<Rightarrow> (bool \<times> int set \<times> int set) res"
  and visit_neighbors :: "nat \<Rightarrow> wait_graph \<Rightarrow> int list \<Rightarrow> int set \<Rightarrow> int set \<Rightarrow> (bool \<times> int set \<times> int set) res" where
  "detectCycle 0 g t visited inStack = Inl OutOfFuel"
| "detectCycle (Suc n) g t visited inStack =
     bindE (case map_of g t of
              None \<Rightarrow> Inr (False, insert t visited, insert t inStack)
            | Some ns \<Rightarrow> visit_neighbors n g ns (insert t visited) (insert t inStack))
       (\<lambda>(found, visited, inStack). if found then Inr (True, visited, inStack) else Inr (False, visited, inStack - {t}))"
| "visit_neighbors n g [] visited inStack = Inr (False, visited, inStack)"
| "visit_neighbors n g (x # xs) visited inStack =
     (if x \<in> inStack then Inr (True, visited, inStack)
      else if x \<notin> visited
      then bindE (detectCycle n g x visited inStack) (\<lambda>(found, visited, inStack).
           if found then Inr (True, visited, inStack) else visit_neighbors n g xs visited inStack)
      else visit_neighbors n g xs visited inStack)"
  by pat_completeness auto
termination
  by (relation "inv_image (less_than <*lex*> less_than)
        (\<lambda>x. case x of Inl (n, _) \<Rightarrow> (n, 0) | Inr (n, _, xs, _) \<Rightarrow> (n, Suc (length xs)))") auto

definition detect_fuel :: "wait_graph \<Rightarrow> nat" where
  "detect_fuel g = Suc (length g)"

definition hasDeadlock :: "int \<Rightarrow> LockManager \<Rightarrow> bool res" where
  "hasDeadlock t lm = bindE (detectCycle (detect_fuel (lk_graph lm)) (lk_graph lm) t {} {}) (\<lambda>(found, _, _). Inr found)"

section \<open>Operations\<close>

definition requests :: "ResourceId \<Rightarrow> LockManager \<Rightarrow> LockRequest list" where
  "requests res lm = (case lk_table lm res of None \<Rightarrow> [] | Some rs \<Rightarrow> rs)"

definition add_request :: "ResourceId \<Rightarrow> LockRequest \<Rightarrow> LockManager \<Rightarrow> LockManager" where
  "add_request res r lm = lm\<lparr>lk_table := (lk_table lm)(res \<mapsto> requests res lm @ [r])\<rparr>"

definition edges :: "wait_graph \<Rightarrow> int \<Rightarrow> int list" where
  "edges g t = (case map_of g t of None \<Rightarrow> [] | Some ns \<Rightarrow> ns)"

definition add_edge :: "int \<Rightarrow> int \<Rightarrow> wait_graph \<Rightarrow> wait_graph" where
  "add_edge t u g = AList.update t (List.insert u (edges g t)) g"

text \<open>\<open>waitForGraph_[txnId].insert(req.txnId)\<close> for every granted request of another transaction.\<close>

definition add_waits :: "int \<Rightarrow> LockRequest list \<Rightarrow> wait_graph \<Rightarrow> wait_graph" where
  "add_waits t rs g = fold (\<lambda>r. if lr_txnId r \<noteq> t \<and> lr_granted r then add_edge t (lr_txnId r) else id) rs g"

datatype lock_outcome = Granted | Deadlock | Waiting

text \<open>The common end of both lock operations when the lock cannot be granted at once.\<close>

definition wait_for_lock :: "int \<Rightarrow> ResourceId \<Rightarrow> LockMode \<Rightarrow> LockManager \<Rightarrow> (lock_outcome \<times> LockManager) res" where
  "wait_for_lock t res mode lm =
     (let lm = lm\<lparr>lk_graph := add_waits t (requests res lm) (lk_graph lm)\<rparr> in
      bindE (hasDeadlock t lm) (\<lambda>deadlock.
      if deadlock then Inr (Deadlock, lm\<lparr>lk_graph := AList.delete t (lk_graph lm)\<rparr>)
      else Inr (Waiting, add_request res \<lparr>lr_txnId = t, lr_mode = mode, lr_granted = False\<rparr> lm)))"

definition shared_ok :: "int \<Rightarrow> LockRequest list \<Rightarrow> bool" where
  "shared_ok t rs \<longleftrightarrow> \<not> list_ex (\<lambda>r. lr_txnId r \<noteq> t \<and> lr_mode r = EXCLUSIVE \<and> lr_granted r) rs"

definition exclusive_ok :: "int \<Rightarrow> LockRequest list \<Rightarrow> bool" where
  "exclusive_ok t rs \<longleftrightarrow> \<not> list_ex (\<lambda>r. lr_txnId r \<noteq> t \<and> lr_granted r) rs"

definition lockShared :: "int \<Rightarrow> ResourceId \<Rightarrow> LockManager \<Rightarrow> (lock_outcome \<times> LockManager) res" where
  "lockShared t res lm =
     (let lm = lm\<lparr>lk_table := (lk_table lm)(res \<mapsto> requests res lm)\<rparr>; rs = requests res lm in
      if list_ex (\<lambda>r. lr_txnId r = t \<and> lr_granted r) rs then Inr (Granted, lm)
      else if shared_ok t rs then Inr (Granted, add_request res \<lparr>lr_txnId = t, lr_mode = SHARED, lr_granted = True\<rparr> lm)
      else wait_for_lock t res SHARED lm)"

definition lockExclusive :: "int \<Rightarrow> ResourceId \<Rightarrow> LockManager \<Rightarrow> (lock_outcome \<times> LockManager) res" where
  "lockExclusive t res lm =
     (let lm = lm\<lparr>lk_table := (lk_table lm)(res \<mapsto> requests res lm)\<rparr>; rs = requests res lm in
      if list_ex (\<lambda>r. lr_txnId r = t \<and> lr_granted r \<and> lr_mode r = EXCLUSIVE) rs then Inr (Granted, lm)
      else if exclusive_ok t rs then Inr (Granted, add_request res \<lparr>lr_txnId = t, lr_mode = EXCLUSIVE, lr_granted = True\<rparr> lm)
      else wait_for_lock t res EXCLUSIVE lm)"

text \<open>After the wait: the first pending request of the transaction is granted, whatever its mode.\<close>

fun grant_first :: "int \<Rightarrow> LockRequest list \<Rightarrow> LockRequest list" where
  "grant_first t [] = []"
| "grant_first t (r # rs) = (if lr_txnId r = t \<and> \<not> lr_granted r then r\<lparr>lr_granted := True\<rparr> # rs else r # grant_first t rs)"

definition finish_wait :: "int \<Rightarrow> ResourceId \<Rightarrow> LockManager \<Rightarrow> LockManager" where
  "finish_wait t res lm = lm\<lparr>lk_table := (lk_table lm)(res \<mapsto> grant_first t (requests res lm)), lk_graph := AList.delete t (lk_graph lm)\<rparr>"

definition wakeShared :: "int \<Rightarrow> ResourceId \<Rightarrow> LockManager \<Rightarrow> LockManager option" where
  "wakeShared t res lm = (if shared_ok t (requests res lm) then Some (finish_wait t res lm) else None)"

definition wakeExclusive :: "int \<Rightarrow> ResourceId \<Rightarrow> LockManager \<Rightarrow> LockManager option" where
  "wakeExclusive t res lm = (if exclusive_ok t (requests res lm) then Some (finish_wait t res lm) else None)"

fun remove_first_granted :: "int \<Rightarrow> LockRequest list \<Rightarrow> LockRequest list" where
  "remove_first_granted t [] = []"
| "remove_first_granted t (r # rs) = (if lr_txnId r = t \<and> lr_granted r then rs else r # remove_first_granted t rs)"

definition store_requests :: "LockRequest list \<Rightarrow> LockRequest list option" where
  "store_requests rs = (if rs = [] then None else Some rs)"

definition unlock :: "int \<Rightarrow> ResourceId \<Rightarrow> LockManager \<Rightarrow> LockManager" where
  "unlock t res lm = (case lk_table lm res of
      None \<Rightarrow> lm
    | Some rs \<Rightarrow> lm\<lparr>lk_table := (lk_table lm)(res := store_requests (remove_first_granted t rs))\<rparr>)"

definition unlockAll :: "int \<Rightarrow> LockManager \<Rightarrow> LockManager" where
  "unlockAll t lm = lm\<lparr>lk_table := (\<lambda>res. case lk_table lm res of
        None \<Rightarrow> None
      | Some rs \<Rightarrow> if list_ex (\<lambda>r. lr_txnId r = t) rs then store_requests (filter (\<lambda>r. lr_txnId r \<noteq> t) rs) else Some rs),
      lk_graph := AList.delete t (lk_graph lm)\<rparr>"

section \<open>Depth-first search finds exactly the reachable cycles\<close>

definition wait_rel :: "wait_graph \<Rightarrow> int rel" where
  "wait_rel g = {(t, u). u \<in> set (edges g t)}"

definition cycle_from :: "wait_graph \<Rightarrow> int \<Rightarrow> bool" where
  "cycle_from g t \<longleftrightarrow> (\<exists>x. (t, x) \<in> (wait_rel g)\<^sup>* \<and> (x, x) \<in> (wait_rel g)\<^sup>+)"

text \<open>The finished nodes, visited and no longer on the stack: their edges lead to finished nodes, and none
  of them lies on a cycle.\<close>

definition finished :: "wait_graph \<Rightarrow> int set \<Rightarrow> int set \<Rightarrow> bool" where
  "finished g visited inStack \<longleftrightarrow> (\<forall>u w. u \<in> visited - inStack \<longrightarrow> (u, w) \<in> wait_rel g \<longrightarrow> w \<in> visited - inStack) \<and>
     (\<forall>x \<in> visited - inStack. (x, x) \<notin> (wait_rel g)\<^sup>+)"

lemma finished_closed:
  assumes "finished g v s" "u \<in> v - s" "(u, w) \<in> (wait_rel g)\<^sup>*"
  shows "w \<in> v - s"
  using assms(3)
proof (induction rule: rtrancl_induct)
  case base
  show ?case by (rule assms(2))
next
  case (step y z)
  then show ?case using assms(1) unfolding finished_def by blast
qed

lemma finished_push: "t \<notin> v \<Longrightarrow> s \<subseteq> v \<Longrightarrow> finished g (insert t v) (insert t s) = finished g v s"
proof -
  assume "t \<notin> v" "s \<subseteq> v"
  then have "insert t v - insert t s = v - s" by auto
  then show ?thesis by (simp add: finished_def)
qed

lemma finished_pop:
  assumes "finished g v (insert t s)" "t \<in> v" "t \<notin> s" "set (edges g t) \<subseteq> v - insert t s"
  shows "finished g v s"
proof -
  have e: "v - s = insert t (v - insert t s)" using assms(2,3) by auto
  have "(t, t) \<notin> (wait_rel g)\<^sup>+"
  proof
    assume "(t, t) \<in> (wait_rel g)\<^sup>+"
    then obtain w where w: "(t, w) \<in> wait_rel g" "(w, t) \<in> (wait_rel g)\<^sup>*" by (auto dest: tranclD)
    then have "w \<in> v - insert t s" using assms(4) by (auto simp: wait_rel_def)
    from finished_closed [OF assms(1) this w(2)] show False by simp
  qed
  moreover have "w \<in> v - s" if "u \<in> v - s" "(u, w) \<in> wait_rel g" for u w
  proof (cases "u = t")
    case True
    then show ?thesis using that(2) assms(4) e by (auto simp: wait_rel_def)
  next
    case False
    then have "u \<in> v - insert t s" using that(1) by simp
    then have "w \<in> v - insert t s" using assms(1) that(2) unfolding finished_def by blast
    then show ?thesis using e by simp
  qed
  moreover have "(x, x) \<notin> (wait_rel g)\<^sup>+" if "x \<in> v - insert t s" for x
    using assms(1) that unfolding finished_def by blast
  ultimately show ?thesis unfolding finished_def e by blast
qed

lemma cycle_from_edge: "cycle_from g x \<Longrightarrow> (t, x) \<in> wait_rel g \<Longrightarrow> cycle_from g t"
  unfolding cycle_from_def by (meson converse_rtrancl_into_rtrancl)

lemma edges_None: "map_of g t = None \<Longrightarrow> edges g t = []"
  by (simp add: edges_def)

text \<open>The search, for a stack whose nodes all reach the current one; the fuel suffices because every
  nested call puts another key of the graph on the stack.\<close>

lemma detectCycle_spec:
  "t \<notin> v \<Longrightarrow> s \<subseteq> v \<Longrightarrow> finished g v s \<Longrightarrow> card (dom (map_of g) - s) < n \<Longrightarrow> (\<forall>u \<in> s. (u, t) \<in> (wait_rel g)\<^sup>*) \<Longrightarrow>
     \<exists>b v' s'. detectCycle n g t v s = Inr (b, v', s') \<and> (b \<longrightarrow> cycle_from g t) \<and>
       (\<not> b \<longrightarrow> s' = s \<and> insert t v \<subseteq> v' \<and> finished g v' s)"
  "t' \<in> s \<Longrightarrow> s \<subseteq> v \<Longrightarrow> set xs \<subseteq> set (edges g t') \<Longrightarrow> finished g v s \<Longrightarrow> card (dom (map_of g) - s) < n \<Longrightarrow>
     (\<forall>u \<in> s. (u, t') \<in> (wait_rel g)\<^sup>*) \<Longrightarrow>
     \<exists>b v' s'. visit_neighbors n g xs v s = Inr (b, v', s') \<and> (b \<longrightarrow> cycle_from g t') \<and>
       (\<not> b \<longrightarrow> s' = s \<and> v \<subseteq> v' \<and> finished g v' s \<and> set xs \<subseteq> v' - s)"
proof (induction n g t v s and n g xs v s arbitrary: and t' rule: detectCycle_visit_neighbors.induct)
  case (2 n g t v s)
  have ts: "t \<notin> s" using "2.prems"(1,2) by auto
  show ?case
  proof (cases "map_of g t")
    case None
    have "finished g (insert t v) s"
      by (rule finished_pop [of g "insert t v" t s])
        (use "2.prems" ts None finished_push [of t v s g] in \<open>auto simp: edges_None\<close>)
    then show ?thesis using None ts by auto
  next
    case (Some ns)
    have "t \<in> dom (map_of g) - s" using Some ts by auto
    then have "card (dom (map_of g) - insert t s) < n"
      using "2.prems"(4) card_Diff1_less [of "dom (map_of g) - s" t] finite_dom_map_of [of g]
      by (simp add: Diff_insert [symmetric])
    moreover have "\<forall>u \<in> insert t s. (u, t) \<in> (wait_rel g)\<^sup>*" using "2.prems"(5) by auto
    moreover have "set ns \<subseteq> set (edges g t)" using Some by (simp add: edges_def)
    moreover have "s \<subseteq> insert t v" using "2.prems"(2) by auto
    ultimately obtain b v' s' where r: "visit_neighbors n g ns (insert t v) (insert t s) = Inr (b, v', s')" "b \<longrightarrow> cycle_from g t"
      "\<not> b \<longrightarrow> s' = insert t s \<and> insert t v \<subseteq> v' \<and> finished g v' (insert t s) \<and> set ns \<subseteq> v' - insert t s"
      using "2.IH" [OF Some, of t] "2.prems"(1,2,3) finished_push [of t v s g] by auto
    have "finished g v' s" if "\<not> b"
      by (rule finished_pop [of g v' t s]) (use r(3) that ts Some in \<open>auto simp: edges_def\<close>)
    then show ?thesis using Some r ts by (cases b) auto
  qed
next
  case (4 n g x xs v s)
  have tx: "(t', x) \<in> wait_rel g" using "4.prems"(3) by (auto simp: wait_rel_def)
  consider (stack) "x \<in> s" | (new) "x \<notin> s" "x \<notin> v" | (old) "x \<notin> s" "x \<in> v" by blast
  then show ?case
  proof cases
    case stack
    then have "(x, x) \<in> (wait_rel g)\<^sup>+" using "4.prems"(6) tx by (meson rtrancl_into_trancl1)
    then have "cycle_from g t'" using tx unfolding cycle_from_def by blast
    with stack show ?thesis by auto
  next
    case new
    have "\<forall>u \<in> s. (u, x) \<in> (wait_rel g)\<^sup>*" using "4.prems"(6) tx by (meson rtrancl.rtrancl_into_rtrancl)
    then obtain b v' s' where r: "detectCycle n g x v s = Inr (b, v', s')" "b \<longrightarrow> cycle_from g x"
      "\<not> b \<longrightarrow> s' = s \<and> insert x v \<subseteq> v' \<and> finished g v' s"
      using "4.IH"(1) [OF new(1)] new "4.prems"(2,4,5) by blast
    show ?thesis
    proof (cases b)
      case True
      then show ?thesis using new r cycle_from_edge [OF _ tx] by auto
    next
      case False
      then have v': "s' = s" "insert x v \<subseteq> v'" "finished g v' s" using r(3) by auto
      have "s \<subseteq> v'" using v'(2) "4.prems"(2) by auto
      then obtain c v'' s'' where w: "visit_neighbors n g xs v' s = Inr (c, v'', s'')" "c \<longrightarrow> cycle_from g t'"
        "\<not> c \<longrightarrow> s'' = s \<and> v' \<subseteq> v'' \<and> finished g v'' s \<and> set xs \<subseteq> v'' - s"
        using "4.IH"(2) [OF new(1) new(2) _ "4.prems"(1), of False v'] v' "4.prems" by auto
      have "visit_neighbors n g (x # xs) v s = Inr (c, v'', s'')" using new r(1) False v' w(1) by simp
      moreover have "x \<in> v'' \<and> v \<subseteq> v''" if "\<not> c" using w(3) v'(2) that by blast
      ultimately show ?thesis using w new(1) by auto
    qed
  next
    case old
    then have "\<exists>b v' s'. visit_neighbors n g xs v s = Inr (b, v', s') \<and> (b \<longrightarrow> cycle_from g t') \<and>
        (\<not> b \<longrightarrow> s' = s \<and> v \<subseteq> v' \<and> finished g v' s \<and> set xs \<subseteq> v' - s)"
      using "4.IH"(3) [of t'] "4.prems" by auto
    then show ?thesis using old by auto
  qed
qed auto

lemma hasDeadlock_spec: "hasDeadlock t lm = Inr (cycle_from (lk_graph lm) t)"
proof -
  let ?g = "lk_graph lm"
  have "card (dom (map_of ?g)) \<le> length ?g"
    using card_length [of "map fst ?g"] by (simp add: dom_map_of_conv_image_fst)
  then have c: "card (dom (map_of ?g) - {}) < detect_fuel ?g" by (simp add: detect_fuel_def)
  obtain b v' s' where r: "detectCycle (detect_fuel ?g) ?g t {} {} = Inr (b, v', s')" "b \<longrightarrow> cycle_from ?g t"
    "\<not> b \<longrightarrow> insert t {} \<subseteq> v' \<and> finished ?g v' {}"
    using detectCycle_spec(1) [of t "{}" "{}" ?g, OF _ _ _ c] by (auto simp: finished_def)
  have "\<not> cycle_from ?g t" if nb: "\<not> b"
  proof
    assume "cycle_from ?g t"
    then obtain x where x: "(t, x) \<in> (wait_rel ?g)\<^sup>*" "(x, x) \<in> (wait_rel ?g)\<^sup>+" by (auto simp: cycle_from_def)
    have f: "finished ?g v' {}" "t \<in> v' - {}" using r(3) nb by auto
    show False using finished_closed [OF f x(1)] f(1) x(2) by (auto simp: finished_def)
  qed
  then show ?thesis using r(1,2) by (auto simp: hasDeadlock_def)
qed

section \<open>Interleavings\<close>

text \<open>The lock manager together with the calls that are blocked in \<open>cv_.wait\<close>.  Each transaction runs in
  one thread: while a call of it is blocked it makes no other call.\<close>

type_synonym lock_state = "LockManager \<times> (int \<times> ResourceId \<times> LockMode) list"

abbreviation blocked :: "lock_state \<Rightarrow> int set" where
  "blocked st \<equiv> fst ` set (snd st)"

definition call_lock :: "LockMode \<Rightarrow> int \<Rightarrow> ResourceId \<Rightarrow> LockManager \<Rightarrow> (lock_outcome \<times> LockManager) res" where
  "call_lock mode = (case mode of SHARED \<Rightarrow> lockShared | EXCLUSIVE \<Rightarrow> lockExclusive)"

definition wake :: "LockMode \<Rightarrow> int \<Rightarrow> ResourceId \<Rightarrow> LockManager \<Rightarrow> LockManager option" where
  "wake mode = (case mode of SHARED \<Rightarrow> wakeShared | EXCLUSIVE \<Rightarrow> wakeExclusive)"

inductive lock_step :: "lock_state \<Rightarrow> lock_state \<Rightarrow> bool" where
  returns: "t \<notin> blocked (lm, W) \<Longrightarrow> call_lock mode t res lm = Inr (outcome, lm') \<Longrightarrow> outcome \<noteq> Waiting \<Longrightarrow> lock_step (lm, W) (lm', W)"
| waits: "t \<notin> blocked (lm, W) \<Longrightarrow> call_lock mode t res lm = Inr (Waiting, lm') \<Longrightarrow> lock_step (lm, W) (lm', (t, res, mode) # W)"
| wakes: "(t, res, mode) \<in> set W \<Longrightarrow> wake mode t res lm = Some lm' \<Longrightarrow> lock_step (lm, W) (lm', remove1 (t, res, mode) W)"
| unlocks: "t \<notin> blocked (lm, W) \<Longrightarrow> lock_step (lm, W) (unlock t res lm, W)"
| ends: "t \<notin> blocked (lm, W) \<Longrightarrow> lock_step (lm, W) (unlockAll t lm, W)"

abbreviation lock_reach :: "lock_state \<Rightarrow> bool" where
  "lock_reach st \<equiv> lock_step\<^sup>*\<^sup>* (new_LockManager, []) st"

definition granted :: "LockManager \<Rightarrow> int \<Rightarrow> ResourceId \<Rightarrow> LockMode \<Rightarrow> bool" where
  "granted lm t res mode \<longleftrightarrow> (\<exists>r \<in> set (requests res lm). lr_txnId r = t \<and> lr_mode r = mode \<and> lr_granted r)"

text \<open>No exclusive lock coexists with a lock of another transaction; the pending requests of a resource
  are exactly those of the blocked calls.\<close>

definition compatible :: "LockRequest list \<Rightarrow> bool" where
  "compatible rs \<longleftrightarrow> (\<forall>r \<in> set rs. \<forall>q \<in> set rs. lr_granted r \<longrightarrow> lr_granted q \<longrightarrow> lr_txnId r \<noteq> lr_txnId q \<longrightarrow> lr_mode r \<noteq> EXCLUSIVE)"

definition pending :: "LockRequest list \<Rightarrow> (int \<times> LockMode) list" where
  "pending rs = map (\<lambda>r. (lr_txnId r, lr_mode r)) (filter (\<lambda>r. \<not> lr_granted r) rs)"

definition pending_ok :: "LockManager \<Rightarrow> (int \<times> ResourceId \<times> LockMode) list \<Rightarrow> bool" where
  "pending_ok lm W \<longleftrightarrow> distinct (map fst W) \<and>
     (\<forall>res. distinct (map fst (pending (requests res lm))) \<and>
        (\<forall>t mode. (t, mode) \<in> set (pending (requests res lm)) \<longleftrightarrow> (t, res, mode) \<in> set W))"

definition lock_inv :: "lock_state \<Rightarrow> bool" where
  "lock_inv st \<longleftrightarrow> (\<forall>res. compatible (requests res (fst st))) \<and> pending_ok (fst st) (snd st)"

lemma requests_simps [simp]:
  "requests r (lm\<lparr>lk_graph := g\<rparr>) = requests r lm"
  "requests r (lm\<lparr>lk_table := (lk_table lm)(res \<mapsto> requests res lm)\<rparr>) = requests r lm"
  "requests r (add_request res q lm) = (if r = res then requests res lm @ [q] else requests r lm)"
  "requests r (finish_wait t res lm) = (if r = res then grant_first t (requests res lm) else requests r lm)"
  by (simp_all add: requests_def add_request_def finish_wait_def)

lemma requests_unlock: "requests r (unlock t res lm) = (if r = res then remove_first_granted t (requests res lm) else requests r lm)"
  by (auto simp: unlock_def requests_def store_requests_def split: option.splits)

lemma requests_unlockAll: "requests r (unlockAll t lm) = filter (\<lambda>q. lr_txnId q \<noteq> t) (requests r lm)"
proof (cases "lk_table lm r")
  case (Some rs)
  have "filter (\<lambda>q. lr_txnId q \<noteq> t) rs = rs" if "\<not> list_ex (\<lambda>q. lr_txnId q = t) rs"
    using that by (auto simp: list_ex_iff filter_id_conv)
  then show ?thesis using Some by (simp add: unlockAll_def requests_def store_requests_def)
qed (simp add: unlockAll_def requests_def)

lemma edges_unlockAll: "edges (lk_graph (unlockAll t lm)) u = (if u = t then [] else edges (lk_graph lm) u)"
  by (simp add: unlockAll_def edges_def delete_conv')

lemma pending_append [simp]: "pending (rs @ qs) = pending rs @ pending qs"
  by (simp add: pending_def)

lemma pending_single [simp]: "pending [q] = (if lr_granted q then [] else [(lr_txnId q, lr_mode q)])"
  by (simp add: pending_def)

lemma set_remove_first_granted: "set (remove_first_granted t rs) \<subseteq> set rs"
  by (induction rs) auto

lemma pending_remove_first_granted [simp]: "pending (remove_first_granted t rs) = pending rs"
  by (induction rs) (auto simp: pending_def)

lemma pending_filter: "t \<notin> fst ` set (pending rs) \<Longrightarrow> pending (filter (\<lambda>q. lr_txnId q \<noteq> t) rs) = pending rs"
  by (induction rs) (auto simp: pending_def)

lemma compatible_subset: "compatible rs \<Longrightarrow> set qs \<subseteq> set rs \<Longrightarrow> compatible qs"
  unfolding compatible_def by blast

text \<open>Granting a request that conflicts with no other keeps the granted locks compatible.\<close>

lemma compatible_add:
  assumes "compatible rs" "case m of SHARED \<Rightarrow> shared_ok t rs | EXCLUSIVE \<Rightarrow> exclusive_ok t rs"
  shows "compatible (rs @ [\<lparr>lr_txnId = t, lr_mode = m, lr_granted = True\<rparr>])"
  using assms by (cases m) (auto simp: compatible_def shared_ok_def exclusive_ok_def list_ex_iff)

lemma compatible_pending: "compatible (rs @ [q]) = compatible rs" if "\<not> lr_granted q"
  using that by (auto simp: compatible_def)

lemma distinct_fst_remove1: "distinct (map fst xs) \<Longrightarrow> distinct (map fst (remove1 x xs))"
  by (induction xs) (auto dest: set_remove1_subset [THEN subsetD])

lemma grant_first_set:
  assumes "distinct (map fst (pending rs))" "(t, m) \<in> set (pending rs)"
  shows "\<exists>q. q \<in> set rs \<and> lr_txnId q = t \<and> lr_mode q = m \<and> \<not> lr_granted q \<and> set (grant_first t rs) \<subseteq> insert (q\<lparr>lr_granted := True\<rparr>) (set rs) \<and>
    pending (grant_first t rs) = remove1 (t, m) (pending rs)"
  using assms
proof (induction rs)
  case (Cons r rs)
  show ?case
  proof (cases "lr_txnId r = t \<and> \<not> lr_granted r")
    case True
    then have "lr_mode r = m" using Cons.prems by (force simp: pending_def)
    with True show ?thesis by (intro exI [of _ r]) (auto simp: pending_def)
  next
    case False
    then have p: "distinct (map fst (pending rs))" "(t, m) \<in> set (pending rs)" using Cons.prems by (auto simp: pending_def split: if_splits)
    from Cons.IH [OF p] obtain q where "q \<in> set rs" "lr_txnId q = t" "lr_mode q = m" "\<not> lr_granted q"
      "set (grant_first t rs) \<subseteq> insert (q\<lparr>lr_granted := True\<rparr>) (set rs)" "pending (grant_first t rs) = remove1 (t, m) (pending rs)" by blast
    with False show ?thesis by (intro exI [of _ q]) (auto simp: pending_def)
  qed
qed (simp add: pending_def)

lemma wait_for_lock_cases:
  assumes "wait_for_lock t res mode lm = Inr (oc, lm')"
  obtains (deadlock) g where "oc = Deadlock" "lm' = lm\<lparr>lk_graph := g\<rparr>"
  | (waiting) g where "oc = Waiting" "lm' = add_request res \<lparr>lr_txnId = t, lr_mode = mode, lr_granted = False\<rparr> (lm\<lparr>lk_graph := g\<rparr>)"
  using assms by (auto simp: wait_for_lock_def hasDeadlock_spec Let_def split: if_splits)

text \<open>What a lock call does to the requests: nothing, a granted request that conflicts with no other, or a
  pending request.\<close>

lemma call_lock_cases:
  assumes "call_lock mode t res lm = Inr (oc, lm')"
  obtains (same) "oc \<noteq> Waiting" "\<And>r. requests r lm' = requests r lm"
  | (grant) "oc \<noteq> Waiting" "case mode of SHARED \<Rightarrow> shared_ok t (requests res lm) | EXCLUSIVE \<Rightarrow> exclusive_ok t (requests res lm)"
      "\<And>r. requests r lm' = (if r = res then requests res lm @ [\<lparr>lr_txnId = t, lr_mode = mode, lr_granted = True\<rparr>] else requests r lm)"
  | (wait) "oc = Waiting"
      "\<And>r. requests r lm' = (if r = res then requests res lm @ [\<lparr>lr_txnId = t, lr_mode = mode, lr_granted = False\<rparr>] else requests r lm)"
proof (cases mode)
  case SHARED
  note l = assms [unfolded SHARED call_lock_def LockMode.case lockShared_def Let_def]
  show thesis
  proof (cases "list_ex (\<lambda>r. lr_txnId r = t \<and> lr_granted r) (requests res lm)")
    case True
    then show thesis using l by (intro same) auto
  next
    case held: False
    show thesis
    proof (cases "shared_ok t (requests res lm)")
      case True
      then show thesis using l held SHARED by (intro grant) auto
    next
      case False
      then have "wait_for_lock t res SHARED (lm\<lparr>lk_table := (lk_table lm)(res \<mapsto> requests res lm)\<rparr>) = Inr (oc, lm')" using l held by simp
      then show thesis by (cases rule: wait_for_lock_cases) (rule same, simp, simp, rule wait, simp_all add: SHARED)
    qed
  qed
next
  case EXCLUSIVE
  note l = assms [unfolded EXCLUSIVE call_lock_def LockMode.case lockExclusive_def Let_def]
  show thesis
  proof (cases "list_ex (\<lambda>r. lr_txnId r = t \<and> lr_granted r \<and> lr_mode r = LockMode.EXCLUSIVE) (requests res lm)")
    case True
    then show thesis using l by (intro same) auto
  next
    case held: False
    show thesis
    proof (cases "exclusive_ok t (requests res lm)")
      case True
      then show thesis using l held EXCLUSIVE by (intro grant) auto
    next
      case False
      then have "wait_for_lock t res LockMode.EXCLUSIVE (lm\<lparr>lk_table := (lk_table lm)(res \<mapsto> requests res lm)\<rparr>) = Inr (oc, lm')" using l held by simp
      then show thesis by (cases rule: wait_for_lock_cases) (rule same, simp, simp, rule wait, simp_all add: EXCLUSIVE)
    qed
  qed
qed

lemma lock_inv_cong: "(\<And>r. requests r lm' = requests r lm) \<Longrightarrow> lock_inv (lm', W) = lock_inv (lm, W)"
  by (simp add: lock_inv_def pending_ok_def)

lemma pending_not_blocked:
  assumes "lock_inv (lm, W)" "t \<notin> blocked (lm, W)"
  shows "t \<notin> fst ` set (pending (requests r lm))"
proof
  assume "t \<in> fst ` set (pending (requests r lm))"
  then obtain m where "(t, m) \<in> set (pending (requests r lm))" by auto
  then have "(t, r, m) \<in> set W" using assms(1) by (simp add: lock_inv_def pending_ok_def)
  then have "t \<in> fst ` set W" by (rule rev_image_eqI) simp
  with assms(2) show False by simp
qed

lemma lock_inv_call:
  assumes inv: "lock_inv (lm, W)" and t: "t \<notin> blocked (lm, W)" and c: "call_lock mode t res lm = Inr (oc, lm')"
  shows "lock_inv (lm', if oc = Waiting then (t, res, mode) # W else W)"
  using c
proof (cases rule: call_lock_cases)
  case same
  have "lock_inv (lm', W)" using lock_inv_cong [of lm' lm W, OF same(2)] inv by simp
  then show ?thesis using same(1) by simp
next
  case grant
  have "compatible (requests r lm')" for r
    using grant(2,3) compatible_add [of "requests res lm" t mode] inv by (simp add: lock_inv_def)
  moreover have "pending (requests r lm') = pending (requests r lm)" for r using grant(3) by simp
  ultimately show ?thesis using grant(1) inv by (simp add: lock_inv_def pending_ok_def)
next
  case wait
  have p: "pending (requests r lm') = (if r = res then pending (requests r lm) @ [(t, mode)] else pending (requests r lm))" for r
    using wait(2) by simp
  have "compatible (requests r lm)" for r using inv by (simp add: lock_inv_def)
  then have "compatible (requests r lm')" for r unfolding wait(2) by (simp add: compatible_pending)
  moreover have "pending_ok lm' ((t, res, mode) # W)"
    unfolding pending_ok_def
  proof (intro conjI allI)
    show "distinct (map fst ((t, res, mode) # W))" using inv t by (simp add: lock_inv_def pending_ok_def)
    fix r u m
    show "distinct (map fst (pending (requests r lm')))"
      using inv p pending_not_blocked [OF inv t] by (simp add: lock_inv_def pending_ok_def)
    have "((u, m) \<in> set (pending (requests r lm))) = ((u, r, m) \<in> set W)" using inv by (simp add: lock_inv_def pending_ok_def)
    then show "((u, m) \<in> set (pending (requests r lm'))) = ((u, r, m) \<in> set ((t, res, mode) # W))" using p by auto
  qed
  ultimately show ?thesis using wait(1) by (simp add: lock_inv_def)
qed

lemma wake_cases:
  assumes "wake mode t res lm = Some lm'"
  shows "lm' = finish_wait t res lm" "case mode of SHARED \<Rightarrow> shared_ok t (requests res lm) | EXCLUSIVE \<Rightarrow> exclusive_ok t (requests res lm)"
  using assms by (auto simp: wake_def wakeShared_def wakeExclusive_def split: LockMode.splits if_splits)

lemma lock_inv_wake:
  assumes inv: "lock_inv (lm, W)" and w: "(t, res, mode) \<in> set W" and k: "wake mode t res lm = Some lm'"
  shows "lock_inv (lm', remove1 (t, res, mode) W)"
proof -
  note lm' = wake_cases [OF k]
  have p: "distinct (map fst (pending (requests res lm)))" "(t, mode) \<in> set (pending (requests res lm))" and dW: "distinct (map fst W)"
    using inv w by (auto simp: lock_inv_def pending_ok_def)
  obtain q where q: "q \<in> set (requests res lm)" "lr_txnId q = t" "lr_mode q = mode" "\<not> lr_granted q"
    "set (grant_first t (requests res lm)) \<subseteq> insert (q\<lparr>lr_granted := True\<rparr>) (set (requests res lm))"
    "pending (grant_first t (requests res lm)) = remove1 (t, mode) (pending (requests res lm))"
    using grant_first_set [OF p] by blast
  have "q\<lparr>lr_granted := True\<rparr> = \<lparr>lr_txnId = t, lr_mode = mode, lr_granted = True\<rparr>" using q(2,3) by (cases q) simp
  moreover have "compatible (requests res lm @ [\<lparr>lr_txnId = t, lr_mode = mode, lr_granted = True\<rparr>])"
    using compatible_add lm'(2) inv by (simp add: lock_inv_def)
  ultimately have "compatible (grant_first t (requests res lm))" using compatible_subset q(5) by fastforce
  then have c: "compatible (requests r lm')" for r using lm'(1) inv by (simp add: lock_inv_def)
  have d: "distinct (pending (requests res lm))" "distinct W" using p(1) dW by (simp_all add: distinct_map)
  have "pending_ok lm' (remove1 (t, res, mode) W)"
    unfolding pending_ok_def
  proof (intro conjI allI)
    show "distinct (map fst (remove1 (t, res, mode) W))" using dW by (rule distinct_fst_remove1)
    fix r u m
    show "distinct (map fst (pending (requests r lm')))"
      using inv lm'(1) q(6) distinct_fst_remove1 [OF p(1)] by (simp add: lock_inv_def pending_ok_def)
    show "((u, m) \<in> set (pending (requests r lm'))) = ((u, r, m) \<in> set (remove1 (t, res, mode) W))"
      using inv lm'(1) q(6) d by (auto simp: lock_inv_def pending_ok_def set_remove1_eq)
  qed
  with c show ?thesis by (simp add: lock_inv_def)
qed

lemma lock_step_inv: "lock_step st st' \<Longrightarrow> lock_inv st \<Longrightarrow> lock_inv st'"
proof (induction rule: lock_step.induct)
  case (returns t lm W mode res outcome lm')
  then show ?case using lock_inv_call [of lm W t mode res outcome lm'] by simp
next
  case (waits t lm W mode res lm')
  then show ?case using lock_inv_call [of lm W t mode res Waiting lm'] by simp
next
  case (wakes t res mode W lm lm')
  then show ?case by (intro lock_inv_wake)
next
  case (unlocks t lm W res)
  then show ?case using compatible_subset [OF _ set_remove_first_granted]
    by (auto simp: lock_inv_def pending_ok_def requests_unlock)
next
  case (ends t lm W)
  then have "t \<notin> fst ` set (pending (requests r lm))" for r by (intro pending_not_blocked)
  then show ?case using ends compatible_subset [OF _ filter_is_subset]
    by (auto simp: lock_inv_def pending_ok_def requests_unlockAll pending_filter)
qed

lemma lock_reach_inv: "lock_reach st \<Longrightarrow> lock_inv st"
proof (induction rule: rtranclp_induct)
  case base
  show ?case by (simp add: lock_inv_def pending_ok_def compatible_def new_LockManager_def requests_def pending_def)
qed (rule lock_step_inv)


section \<open>Properties\<close>

definition res_r :: "nat \<Rightarrow> ResourceId" where
  "res_r n = \<lparr>res_tableName = ''users'', res_pageId = 0, res_slotNum = n\<rparr>"

lemma res_r_eq [simp]: "res_r m = res_r n \<longleftrightarrow> m = n"
  by (simp add: res_r_def)

lemmas lock_defs = call_lock_def lockExclusive_def lockShared_def wait_for_lock_def hasDeadlock_def detect_fuel_def
  requests_def add_request_def add_waits_def add_edge_def edges_def shared_ok_def exclusive_ok_def

text \<open>An exclusive lock on the first row, then a transaction that waits for it.\<close>

lemma lock_exclusive_new:
  "call_lock EXCLUSIVE t res new_LockManager =
     Inr (Granted, \<lparr>lk_table = [res \<mapsto> [\<lparr>lr_txnId = t, lr_mode = EXCLUSIVE, lr_granted = True\<rparr>]], lk_graph = []\<rparr>)"
  by (simp add: lock_defs new_LockManager_def)

text \<open>C6: mutual exclusion.  In every state that some interleaving of lock calls, waits, wake-ups and unlocks
  of any number of transactions reaches from the empty lock manager, a resource with a granted exclusive lock
  of one transaction has no granted lock of another, in either mode.\<close>

theorem lock_exclusion:
  assumes "lock_reach (lm, W)" "granted lm t res EXCLUSIVE" "granted lm u res mode"
  shows "t = u"
proof -
  have "compatible (requests res lm)" using lock_reach_inv [OF assms(1)] by (simp add: lock_inv_def)
  then show ?thesis using assms(2,3) unfolding granted_def compatible_def by metis
qed

theorem lock_exclusion_witness:
  "\<exists>lm. lock_reach (lm, []) \<and> granted lm 1 (res_r 1) EXCLUSIVE \<and> \<not> granted lm 2 (res_r 1) SHARED"
proof -
  let ?lm = "\<lparr>lk_table = [res_r 1 \<mapsto> [\<lparr>lr_txnId = 1, lr_mode = EXCLUSIVE, lr_granted = True\<rparr>]], lk_graph = []\<rparr> :: LockManager"
  have "lock_step (new_LockManager, []) (?lm, [])"
    by (rule lock_step.returns [where t = 1]) (simp, rule lock_exclusive_new, simp)
  then have r: "lock_reach (?lm, [])" by (rule r_into_rtranclp)
  have g: "granted ?lm 1 (res_r 1) EXCLUSIVE" by (simp add: granted_def requests_def)
  have "\<not> granted ?lm 2 (res_r 1) SHARED" using lock_exclusion [OF r g, of 2 SHARED] by auto
  with r g show ?thesis by blast
qed

text \<open>C21: the depth-first search of \<open>hasDeadlock\<close> always ends within the fuel of one call per node and
  answers exactly whether the wait-for graph has a cycle that can be reached from the given transaction,
  whatever the iteration order of the hash containers.\<close>

theorem hasDeadlock_iff_cycle:
  "hasDeadlock t lm = Inr (\<exists>u. (t, u) \<in> (wait_rel (lk_graph lm))\<^sup>* \<and> (u, u) \<in> (wait_rel (lk_graph lm))\<^sup>+)"
  using hasDeadlock_spec [of t lm] by (simp add: cycle_from_def)

text \<open>\<open>unlockAll\<close> drops every request of the transaction, granted or pending, on every resource, keeps the
  requests of all other transactions in their order, and removes the outgoing edges of the transaction from
  the wait-for graph and no others.\<close>

theorem unlockAll_releases:
  "requests res (unlockAll t lm) = filter (\<lambda>r. lr_txnId r \<noteq> t) (requests res lm) \<and>
   edges (lk_graph (unlockAll t lm)) u = (if u = t then [] else edges (lk_graph lm) u)"
  using requests_unlockAll [of res t lm] edges_unlockAll [of t lm u] by simp

text \<open>C38: a deadlock that is not detected.  The edges of a waiting transaction are computed once, before its
  wait, and not again when another transaction takes the lock meanwhile.  In the state this theorem exhibits,
  two transactions wait for locks that the other one holds, neither can wake up, and no call reported a
  deadlock: transaction 1 waits for transaction 2, which ends; transaction 3 takes the lock before transaction
  1 wakes up, and then waits for transaction 1.\<close>

theorem undetected_deadlock:
  "\<exists>lm W. lock_reach (lm, W) \<and> (1, res_r 1, EXCLUSIVE) \<in> set W \<and> (3, res_r 2, EXCLUSIVE) \<in> set W \<and>
     granted lm 1 (res_r 2) EXCLUSIVE \<and> granted lm 3 (res_r 1) EXCLUSIVE \<and>
     wakeExclusive 1 (res_r 1) lm = None \<and> wakeExclusive 3 (res_r 2) lm = None \<and>
     hasDeadlock 1 lm = Inr False \<and> hasDeadlock 3 lm = Inr False"
proof -
  let ?g = "\<lambda>t. \<lparr>lr_txnId = t, lr_mode = EXCLUSIVE, lr_granted = True\<rparr>"
  let ?p = "\<lambda>t. \<lparr>lr_txnId = t, lr_mode = EXCLUSIVE, lr_granted = False\<rparr>"
  let ?a = "\<lparr>lk_table = [res_r 1 \<mapsto> [?g 2]], lk_graph = []\<rparr> :: LockManager"
  let ?b = "\<lparr>lk_table = [res_r 1 \<mapsto> [?g 2], res_r 2 \<mapsto> [?g 1]], lk_graph = []\<rparr> :: LockManager"
  let ?c = "\<lparr>lk_table = [res_r 1 \<mapsto> [?g 2, ?p 1], res_r 2 \<mapsto> [?g 1]], lk_graph = [(1, [2])]\<rparr> :: LockManager"
  let ?e = "\<lparr>lk_table = [res_r 1 \<mapsto> [?p 1, ?g 3], res_r 2 \<mapsto> [?g 1]], lk_graph = [(1, [2])]\<rparr> :: LockManager"
  let ?f = "\<lparr>lk_table = [res_r 1 \<mapsto> [?p 1, ?g 3], res_r 2 \<mapsto> [?g 1, ?p 3]], lk_graph = [(1, [2]), (3, [1])]\<rparr> :: LockManager"
  let ?W = "[(1, res_r 1, EXCLUSIVE)] :: (int \<times> ResourceId \<times> LockMode) list"
  have 1: "lock_step (new_LockManager, []) (?a, [])"
    by (rule lock_step.returns [where t = 2]) (simp, rule lock_exclusive_new, simp)
  have "call_lock EXCLUSIVE 1 (res_r 2) ?a = Inr (Granted, ?b)" by (simp add: lock_defs fun_upd_twist)
  then have 2: "lock_step (?a, []) (?b, [])" by (rule lock_step.returns [rotated]) simp_all
  have "call_lock EXCLUSIVE 1 (res_r 1) ?b = Inr (Waiting, ?c)" by (simp add: lock_defs fun_upd_twist eval_nat_numeral)
  then have 3: "lock_step (?b, []) (?c, ?W)" by (rule lock_step.waits [rotated]) simp
  have 4: "lock_step (?c, ?W) (unlockAll 2 ?c, ?W)" by (rule lock_step.ends) simp
  have "call_lock EXCLUSIVE 3 (res_r 1) (unlockAll 2 ?c) = Inr (Granted, ?e)"
    by (simp add: lock_defs unlockAll_def store_requests_def fun_eq_iff)
  then have 5: "lock_step (unlockAll 2 ?c, ?W) (?e, ?W)" by (rule lock_step.returns [rotated]) simp_all
  have "call_lock EXCLUSIVE 3 (res_r 2) ?e = Inr (Waiting, ?f)" by (simp add: lock_defs fun_upd_twist eval_nat_numeral)
  then have 6: "lock_step (?e, ?W) (?f, (3, res_r 2, EXCLUSIVE) # ?W)" by (rule lock_step.waits [rotated]) simp
  have "lock_reach (?f, (3, res_r 2, EXCLUSIVE) # ?W)"
    using 1 2 3 4 5 6 by (meson rtranclp.rtrancl_into_rtrancl rtranclp.rtrancl_refl)
  moreover have "hasDeadlock 1 ?f = Inr False" "hasDeadlock 3 ?f = Inr False" by (simp_all add: lock_defs eval_nat_numeral)
  ultimately show ?thesis
    by (intro exI [of _ ?f] exI [of _ "(3, res_r 2, EXCLUSIVE) # ?W"])
      (simp add: granted_def requests_def wakeExclusive_def exclusive_ok_def)
qed

end
