(* ===== verification/Transaction.thy ===== *)
theory Transaction
  imports LockManager
begin

text \<open>
  Transactions and the transaction manager of \<open>src/transaction/Transaction.cpp\<close>.

  The manager's mutex makes each operation atomic.  The interface it needs from the lock manager is the
  locale \<open>lock_service\<close>: after \<open>unlockAll\<close> a transaction holds nothing and nobody else lost a lock.  The
  labelled step relation \<open>txn_step\<close> runs both managers together with every public operation of the two classes,
  \<open>LockManager::unlock\<close> included, called in any order.  Neither class checks that the transaction asking for
  a lock is active; that is the protocol of their clients, and it is a separate predicate, \<open>follows\<close>, which
  only the states of \<open>txn_reach\<close> are restricted by.
\<close>

section \<open>State (Transaction.h)\<close>

datatype TxnState = ACTIVE | COMMITTED | ABORTED

record Transaction =
  txn_id :: int
  txn_state :: TxnState
  txn_lockedResources :: "ResourceId set"

record TransactionManager =
  tm_transactions :: "int \<rightharpoonup> Transaction"
  tm_nextTxnId :: int

definition new_Transaction :: "int \<Rightarrow> Transaction" where
  "new_Transaction t = \<lparr>txn_id = t, txn_state = ACTIVE, txn_lockedResources = {}\<rparr>"

definition setState :: "TxnState \<Rightarrow> Transaction \<Rightarrow> Transaction" where
  "setState s txn = txn\<lparr>txn_state := s\<rparr>"

definition addLock :: "ResourceId \<Rightarrow> Transaction \<Rightarrow> Transaction" where
  "addLock res txn = txn\<lparr>txn_lockedResources := insert res (txn_lockedResources txn)\<rparr>"

definition new_TransactionManager :: TransactionManager where
  "new_TransactionManager = \<lparr>tm_transactions = Map.empty, tm_nextTxnId = 1\<rparr>"

section \<open>Operations\<close>

text \<open>\<open>nextTxnId_++\<close> on the largest \<open>int\<close> is undefined behaviour; \<open>emplace\<close> keeps an entry that is already there.\<close>

definition txn_begin :: "TransactionManager \<Rightarrow> (int \<times> TransactionManager) res" where
  "txn_begin tm =
     (let t = tm_nextTxnId tm in
      if \<not> in_int32 (t + 1) then Inl (UndefinedBehaviour ''signed overflow'')
      else Inr (t, tm\<lparr>tm_nextTxnId := t + 1,
             tm_transactions := (case tm_transactions tm t of
                None \<Rightarrow> (tm_transactions tm)(t \<mapsto> new_Transaction t) | Some _ \<Rightarrow> tm_transactions tm)\<rparr>))"

definition txn_end :: "TxnState \<Rightarrow> int \<Rightarrow> TransactionManager \<times> LockManager \<Rightarrow> TransactionManager \<times> LockManager" where
  "txn_end s t st = (case st of (tm, lm) \<Rightarrow> (case tm_transactions tm t of
      None \<Rightarrow> (tm, lm)
    | Some txn \<Rightarrow> (tm\<lparr>tm_transactions := (tm_transactions tm)(t \<mapsto> setState s txn)\<rparr>, unlockAll t lm)))"

definition txn_commit :: "int \<Rightarrow> TransactionManager \<times> LockManager \<Rightarrow> TransactionManager \<times> LockManager" where
  "txn_commit = txn_end COMMITTED"

definition txn_abort :: "int \<Rightarrow> TransactionManager \<times> LockManager \<Rightarrow> TransactionManager \<times> LockManager" where
  "txn_abort = txn_end ABORTED"

definition getTransaction :: "int \<Rightarrow> TransactionManager \<Rightarrow> Transaction option" where
  "getTransaction t tm = tm_transactions tm t"

section \<open>What the lock manager promises\<close>

locale lock_service =
  fixes release :: "int \<Rightarrow> 'l \<Rightarrow> 'l" and holds :: "'l \<Rightarrow> int \<Rightarrow> 'r \<Rightarrow> 'm \<Rightarrow> bool"
  assumes release_own: "\<not> holds (release t l) t r m"
    and release_other: "u \<noteq> t \<Longrightarrow> holds (release t l) u r m = holds l u r m"
begin

lemma release_holder: "holds (release t l) u r m \<longleftrightarrow> u \<noteq> t \<and> holds l u r m"
  using release_own release_other by (cases "u = t") simp_all

lemma release_keeps_owners:
  assumes "\<And>u r m. holds l u r m \<Longrightarrow> u \<in> A"
  shows "holds (release t l) u r m \<Longrightarrow> u \<in> A - {t}"
  using assms by (auto simp: release_holder)

lemma release_twice: "holds (release t (release t l)) u r m = holds (release t l) u r m"
  by (simp add: release_holder)

end

interpretation ls: lock_service unlockAll granted
  by unfold_locales (auto simp: granted_def requests_unlockAll)

section \<open>Both managers together\<close>

definition active :: "TransactionManager \<Rightarrow> int \<Rightarrow> bool" where
  "active tm t \<longleftrightarrow> (case getTransaction t tm of None \<Rightarrow> False | Some txn \<Rightarrow> txn_state txn = ACTIVE)"

type_synonym txn_system = "TransactionManager \<times> LockManager \<times> (int \<times> ResourceId \<times> LockMode) list"

datatype txn_event =
    Begin int
  | Lock int ResourceId LockMode
  | Wake int ResourceId LockMode
  | Unlock int ResourceId
  | Commit int
  | Abort int

text \<open>Each transaction runs in one thread: while a call of it is blocked it makes no other call.\<close>

inductive txn_step :: "txn_system \<Rightarrow> txn_event \<Rightarrow> txn_system \<Rightarrow> bool" where
  start: "txn_begin tm = Inr (t, tm') \<Longrightarrow> txn_step (tm, lm, W) (Begin t) (tm', lm, W)"
| lock: "t \<notin> fst ` set W \<Longrightarrow> call_lock mode t res lm = Inr (oc, lm') \<Longrightarrow> oc \<noteq> Waiting \<Longrightarrow>
    txn_step (tm, lm, W) (Lock t res mode) (tm, lm', W)"
| wait: "t \<notin> fst ` set W \<Longrightarrow> call_lock mode t res lm = Inr (Waiting, lm') \<Longrightarrow>
    txn_step (tm, lm, W) (Lock t res mode) (tm, lm', (t, res, mode) # W)"
| resume: "(t, res, mode) \<in> set W \<Longrightarrow> wake mode t res lm = Some lm' \<Longrightarrow>
    txn_step (tm, lm, W) (Wake t res mode) (tm, lm', remove1 (t, res, mode) W)"
| unlocks: "t \<notin> fst ` set W \<Longrightarrow> txn_step (tm, lm, W) (Unlock t res) (tm, unlock t res lm, W)"
| commits: "t \<notin> fst ` set W \<Longrightarrow> txn_commit t (tm, lm) = (tm', lm') \<Longrightarrow>
    txn_step (tm, lm, W) (Commit t) (tm', lm', W)"
| aborts: "t \<notin> fst ` set W \<Longrightarrow> txn_abort t (tm, lm) = (tm', lm') \<Longrightarrow>
    txn_step (tm, lm, W) (Abort t) (tm', lm', W)"

inductive txn_run :: "txn_system \<Rightarrow> txn_event list \<Rightarrow> txn_system \<Rightarrow> bool" where
  stop: "txn_run st [] st"
| more: "txn_step st e st1 \<Longrightarrow> txn_run st1 es st2 \<Longrightarrow> txn_run st (e # es) st2"

abbreviation txn_init :: txn_system where
  "txn_init \<equiv> (new_TransactionManager, new_LockManager, [])"

text \<open>The clients' protocol: only an active transaction asks for a lock.\<close>

fun follows :: "txn_system \<Rightarrow> txn_event \<Rightarrow> bool" where
  "follows st (Lock t res mode) = active (fst st) t"
| "follows st e = True"

inductive txn_reach :: "txn_system \<Rightarrow> bool" where
  initial: "txn_reach txn_init"
| reached: "txn_reach st \<Longrightarrow> txn_step st e st' \<Longrightarrow> follows st e \<Longrightarrow> txn_reach st'"

definition txn_inv :: "txn_system \<Rightarrow> bool" where
  "txn_inv st \<longleftrightarrow> (case st of (tm, lm, W) \<Rightarrow>
     lock_inv (lm, W) \<and>
     (\<forall>t res mode. granted lm t res mode \<longrightarrow> active tm t) \<and>
     (\<forall>t \<in> fst ` set W. active tm t) \<and>
     (\<forall>t \<in> dom (tm_transactions tm). t < tm_nextTxnId tm))"

lemma txn_invI:
  assumes "lock_inv (lm, W)" "\<And>t res mode. granted lm t res mode \<Longrightarrow> active tm t"
    "\<And>t. t \<in> fst ` set W \<Longrightarrow> active tm t" "\<And>t. t \<in> dom (tm_transactions tm) \<Longrightarrow> t < tm_nextTxnId tm"
  shows "txn_inv (tm, lm, W)"
  unfolding txn_inv_def split by (intro conjI allI impI ballI) (rule assms; assumption)+

lemma txn_invD:
  assumes "txn_inv (tm, lm, W)"
  shows "lock_inv (lm, W)" "granted lm t res mode \<Longrightarrow> active tm t" "t \<in> fst ` set W \<Longrightarrow> active tm t"
    "t \<in> dom (tm_transactions tm) \<Longrightarrow> t < tm_nextTxnId tm"
  using assms by (auto simp: txn_inv_def)

text \<open>A lock call or a wake-up grants only to its own transaction and takes nothing away.\<close>

lemma granted_call:
  assumes "call_lock mode t res lm = Inr (oc, lm')"
  shows "granted lm' u r m \<Longrightarrow> granted lm u r m \<or> u = t" "granted lm u r m \<Longrightarrow> granted lm' u r m"
  using assms by (cases rule: call_lock_cases; auto simp: granted_def split: if_splits)+

lemma grant_first_granted:
  "r \<in> set (grant_first t rs) \<Longrightarrow> lr_granted r \<Longrightarrow> r \<in> set rs \<or> lr_txnId r = t"
  "r \<in> set rs \<Longrightarrow> lr_granted r \<Longrightarrow> r \<in> set (grant_first t rs)"
  by (induction rs) (auto split: if_splits)

lemma granted_wake:
  assumes "wake mode t res lm = Some lm'"
  shows "granted lm' u r m \<Longrightarrow> granted lm u r m \<or> u = t" "granted lm u r m \<Longrightarrow> granted lm' u r m"
  using grant_first_granted wake_cases(1) [OF assms] by (auto simp: granted_def split: if_splits)

lemma txn_begin_cases:
  assumes "txn_begin tm = Inr (t, tm')"
  shows "t = tm_nextTxnId tm" "tm_nextTxnId tm' = t + 1"
    "tm_transactions tm t = None \<Longrightarrow> tm_transactions tm' = (tm_transactions tm)(t \<mapsto> new_Transaction t)"
  using assms by (auto simp: txn_begin_def Let_def split: if_splits)

lemma txn_inv_begin:
  assumes inv: "txn_inv (tm, lm, W)" and b: "txn_begin tm = Inr (t, tm')"
  shows "txn_inv (tm', lm, W)"
proof -
  note f = txn_begin_cases [OF b]
  have "tm_transactions tm t = None" using txn_invD(4) [OF inv, of t] f(1) by (cases "tm_transactions tm t") auto
  note n = f(3) [OF this]
  have a: "active tm' u" if "active tm u" for u
    using that n by (simp add: active_def getTransaction_def new_Transaction_def)
  show ?thesis
  proof (rule txn_invI)
    show "u < tm_nextTxnId tm'" if "u \<in> dom (tm_transactions tm')" for u
      using that n f(1,2) txn_invD(4) [OF inv, of u] by (cases "u = t") simp_all
  qed (use a txn_invD [OF inv] in blast)+
qed

lemma active_end:
  assumes "txn_end s t (tm, lm) = (tm', lm')" "s \<noteq> ACTIVE"
  shows "active tm' u \<longleftrightarrow> active tm u \<and> u \<noteq> t"
  using assms by (auto simp: txn_end_def active_def getTransaction_def setState_def split: option.splits if_splits)

lemma txn_inv_end:
  assumes inv: "txn_inv (tm, lm, W)" and e: "txn_end s t (tm, lm) = (tm', lm')" "s \<noteq> ACTIVE" and t: "t \<notin> fst ` set W"
  shows "txn_inv (tm', lm', W)"
proof (cases "tm_transactions tm t")
  case None
  then show ?thesis using inv e by (simp add: txn_end_def)
next
  case (Some txn)
  then have lm': "lm' = unlockAll t lm" and n: "tm_nextTxnId tm' = tm_nextTxnId tm"
    and d: "dom (tm_transactions tm') = dom (tm_transactions tm)"
    using e(1) by (auto simp: txn_end_def split: if_splits)
  have "lock_step (lm, W) (unlockAll t lm, W)" by (rule lock_step.ends) (simp add: t)
  then have l: "lock_inv (lm', W)" using lock_step_inv txn_invD(1) [OF inv] lm' by blast
  show ?thesis
  proof (rule txn_invI [OF l])
    show "active tm' u" if "granted lm' u res mode" for u res mode
      using that txn_invD(2) [OF inv, of u res mode] active_end [OF e] by (simp add: lm' ls.release_holder)
    show "active tm' u" if "u \<in> fst ` set W" for u
      using that txn_invD(3) [OF inv that] active_end [OF e] t by blast
  qed (use txn_invD(4) [OF inv] d n in simp)
qed

lemma granted_unlock:
  "granted (unlock t res lm) u r m \<Longrightarrow> granted lm u r m"
  "(u, r) \<noteq> (t, res) \<Longrightarrow> granted (unlock t res lm) u r m = granted lm u r m"
proof -
  have "q \<in> set (remove_first_granted t rs) \<longleftrightarrow> q \<in> set rs" if "lr_txnId q \<noteq> t" for q rs
    using that by (induction rs) auto
  then show "(u, r) \<noteq> (t, res) \<Longrightarrow> granted (unlock t res lm) u r m = granted lm u r m"
    by (auto simp: granted_def requests_unlock)
  show "granted (unlock t res lm) u r m \<Longrightarrow> granted lm u r m"
    using set_remove_first_granted by (auto simp: granted_def requests_unlock split: if_splits)
qed

lemma txn_step_inv: "txn_step st e st' \<Longrightarrow> follows st e \<Longrightarrow> txn_inv st \<Longrightarrow> txn_inv st'"
proof (induction rule: txn_step.induct)
  case (start tm t tm' lm W)
  show ?case by (rule txn_inv_begin [OF start(3,1)])
next
  case (lock t W mode res lm oc lm' tm)
  have "lock_inv (lm', W)" using lock_inv_call [OF txn_invD(1) [OF lock(5)] _ lock(2)] lock(1,3) by simp
  moreover have "active tm t" using lock(4) by simp
  ultimately show ?case using txn_invD(2-4) [OF lock(5)] granted_call(1) [OF lock(2)] by (intro txn_invI) blast+
next
  case (wait t W mode res lm lm' tm)
  have "lock_inv (lm', (t, res, mode) # W)" using lock_inv_call [OF txn_invD(1) [OF wait(4)] _ wait(2)] wait(1) by simp
  moreover have "active tm t" using wait(3) by simp
  ultimately show ?case using txn_invD(2-4) [OF wait(4)] granted_call(1) [OF wait(2)]
    by (intro txn_invI) (simp_all, blast+)
next
  case (resume t res mode W lm lm' tm)
  have l: "lock_inv (lm', remove1 (t, res, mode) W)" by (rule lock_inv_wake [OF txn_invD(1) [OF resume(4)] resume(1,2)])
  have "t \<in> fst ` set W" using resume(1) by force
  then have a: "active tm t" by (rule txn_invD(3) [OF resume(4)])
  show ?case
  proof (rule txn_invI [OF l])
    show "active tm u" if "granted lm' u r m" for u r m
      using granted_wake(1) [OF resume(2) that] txn_invD(2) [OF resume(4), of u r m] a by blast
    show "active tm u" if "u \<in> fst ` set (remove1 (t, res, mode) W)" for u
      using that txn_invD(3) [OF resume(4), of u] set_remove1_subset [of "(t, res, mode)" W] by blast
  qed (rule txn_invD(4) [OF resume(4)])
next
  case (unlocks t W tm lm res)
  have "lock_step (lm, W) (unlock t res lm, W)" by (rule lock_step.unlocks) (simp add: unlocks(1))
  then have "lock_inv (unlock t res lm, W)" using lock_step_inv txn_invD(1) [OF unlocks(3)] by blast
  then show ?case
    by (rule txn_invI) (use txn_invD(2-4) [OF unlocks(3)] granted_unlock(1) [of t res lm] in \<open>assumption | blast\<close>)+
next
  case (commits t W tm lm tm' lm')
  show ?case by (rule txn_inv_end [OF commits(4), of COMMITTED t]) (use commits(1,2) in \<open>simp_all add: txn_commit_def\<close>)
next
  case (aborts t W tm lm tm' lm')
  show ?case by (rule txn_inv_end [OF aborts(4), of ABORTED t]) (use aborts(1,2) in \<open>simp_all add: txn_abort_def\<close>)
qed

lemma txn_reach_inv: "txn_reach st \<Longrightarrow> txn_inv st"
proof (induction rule: txn_reach.induct)
  case initial
  have "lock_inv (new_LockManager, [])" by (rule lock_reach_inv) simp
  then show ?case by (simp add: txn_inv_def granted_def new_LockManager_def new_TransactionManager_def requests_def)
qed (rule txn_step_inv)

text \<open>Transaction numbers, in any run: those given out are positive and below the counter.\<close>

definition ids_ok :: "TransactionManager \<Rightarrow> bool" where
  "ids_ok tm \<longleftrightarrow> 1 \<le> tm_nextTxnId tm \<and> (\<forall>t \<in> dom (tm_transactions tm). t < tm_nextTxnId tm)"

lemma txn_step_ids: "txn_step st e st' \<Longrightarrow> ids_ok (fst st) \<Longrightarrow> ids_ok (fst st')"
proof (induction rule: txn_step.induct)
  case (start tm t tm' lm W)
  have "tm_nextTxnId tm' = tm_nextTxnId tm + 1" "dom (tm_transactions tm') = insert (tm_nextTxnId tm) (dom (tm_transactions tm))"
    using start(1) by (auto simp: txn_begin_def Let_def split: if_splits option.splits)
  then show ?case using start(2) unfolding ids_ok_def by (metis fst_conv insertE less_add_one order.strict_trans
      add_increasing2 zero_le_one)
next
  case (commits t W tm lm tm' lm')
  then show ?case by (auto simp: ids_ok_def txn_commit_def txn_end_def split: if_splits option.splits)
next
  case (aborts t W tm lm tm' lm')
  then show ?case by (auto simp: ids_ok_def txn_abort_def txn_end_def split: if_splits option.splits)
qed simp_all

lemma txn_run_ids: "txn_run st es st' \<Longrightarrow> ids_ok (fst st) \<Longrightarrow> ids_ok (fst st')"
  by (induction rule: txn_run.induct) (blast intro: txn_step_ids)+

section \<open>Properties\<close>

text \<open>The calls that can take a lock of transaction \<open>t\<close> on \<open>res\<close> away.\<close>

definition releases :: "txn_event \<Rightarrow> int \<Rightarrow> ResourceId \<Rightarrow> bool" where
  "releases e t res \<longleftrightarrow> e = Commit t \<or> e = Abort t \<or> e = Unlock t res"

lemma granted_end:
  assumes "txn_end s t (tm, lm) = (tm', lm')"
  shows "u \<noteq> t \<Longrightarrow> granted lm' u res mode = granted lm u res mode"
  using assms by (auto simp: txn_end_def ls.release_holder split: option.splits)

lemma txn_step_keeps_locks:
  assumes "txn_step st e st'" "\<not> releases e t res" "granted (fst (snd st)) t res mode"
  shows "granted (fst (snd st')) t res mode"
  using assms
proof (induction rule: txn_step.induct)
  case (unlocks u W tm lm r)
  then show ?case using granted_unlock(2) [of t res u r lm mode] by (auto simp: releases_def)
next
  case (commits u W tm lm tm' lm')
  then show ?case using granted_end [of COMMITTED u tm lm tm' lm' t res mode] by (auto simp: releases_def txn_commit_def)
next
  case (aborts u W tm lm tm' lm')
  then show ?case using granted_end [of ABORTED u tm lm tm' lm' t res mode] by (auto simp: releases_def txn_abort_def)
qed (use granted_call(2) granted_wake(2) in auto)

lemma txn_run_keeps_locks:
  assumes "txn_run st es st'" "\<And>e. e \<in> set es \<Longrightarrow> \<not> releases e t res" "granted (fst (snd st)) t res mode"
  shows "granted (fst (snd st')) t res mode"
  using assms by (induction rule: txn_run.induct) (simp, metis list.set_intros txn_step_keeps_locks)

definition tm1 :: TransactionManager where
  "tm1 = \<lparr>tm_transactions = [1 \<mapsto> new_Transaction 1], tm_nextTxnId = 2\<rparr>"

definition lm1 :: LockManager where
  "lm1 = \<lparr>lk_table = [res_r 1 \<mapsto> [\<lparr>lr_txnId = 1, lr_mode = EXCLUSIVE, lr_granted = True\<rparr>]], lk_graph = []\<rparr>"

lemma active_tm1: "active tm1 1"
  by (simp add: active_def getTransaction_def tm1_def new_Transaction_def)

lemma granted_lm1: "granted lm1 1 (res_r 1) EXCLUSIVE"
  by (simp add: granted_def lm1_def requests_def)

lemma steps_tm1:
  "txn_step txn_init (Begin 1) (tm1, new_LockManager, [])"
  "txn_step (tm1, new_LockManager, []) (Lock 1 (res_r 1) EXCLUSIVE) (tm1, lm1, [])"
proof -
  show "txn_step txn_init (Begin 1) (tm1, new_LockManager, [])"
    by (rule txn_step.start) (simp add: txn_begin_def new_TransactionManager_def tm1_def in_int32_def Let_def)
  show "txn_step (tm1, new_LockManager, []) (Lock 1 (res_r 1) EXCLUSIVE) (tm1, lm1, [])"
    unfolding lm1_def by (rule txn_step.lock) (simp, rule lock_exclusive_new, simp)
qed

lemma reach_tm1: "txn_reach (tm1, lm1, [])"
  using txn_reach.reached [OF txn_reach.reached [OF txn_reach.initial steps_tm1(1)] steps_tm1(2)] active_tm1 by simp

lemma run_tm1: "txn_run txn_init [Begin 1, Lock 1 (res_r 1) EXCLUSIVE] (tm1, lm1, [])"
  by (rule txn_run.more [OF steps_tm1(1) txn_run.more [OF steps_tm1(2) txn_run.stop]])

text \<open>C24: only active transactions hold locks.  In every state that the transaction manager and the lock
  manager reach together by any operations, as long as only active transactions ask for locks (which neither
  class checks), a granted lock belongs to an active transaction, and so does every blocked call.\<close>

theorem locks_of_active_transactions:
  assumes "txn_reach (tm, lm, W)" "granted lm t res mode \<or> (t, res, mode) \<in> set W"
  shows "active tm t"
proof -
  note inv = txn_reach_inv [OF assms(1)]
  show ?thesis using assms(2) txn_invD(2) [OF inv, of t res mode] txn_invD(3) [OF inv, of t] by force
qed

theorem locks_of_active_transactions_witness:
  "txn_reach (tm1, lm1, []) \<and> granted lm1 1 (res_r 1) EXCLUSIVE \<and> active tm1 1"
  using locks_of_active_transactions [OF reach_tm1, of 1 "res_r 1" EXCLUSIVE] reach_tm1 granted_lm1 by blast

text \<open>C11: locks are kept until they are released.  From any state of the two managers, a granted lock stays
  granted through every interleaving of the operations of all transactions, whether or not they are active,
  that contains no \<open>commit\<close> and no \<open>abort\<close> of its transaction and no \<open>unlock\<close> of that resource for it: no
  lock call, wake-up or deadlock, and no release by another transaction, takes it away.\<close>

theorem locks_kept_until_release:
  assumes "txn_run (tm, lm, W) es (tm', lm', W')" "granted lm t res mode"
    and "Commit t \<notin> set es" "Abort t \<notin> set es" "Unlock t res \<notin> set es"
  shows "granted lm' t res mode"
  using txn_run_keeps_locks [OF assms(1), of t res mode] assms(2-5) by (auto simp: releases_def)

theorem locks_kept_until_release_witness:
  "\<exists>tm lm. txn_run (tm1, lm1, []) [Begin 2, Unlock 2 (res_r 1), Abort 2] (tm, lm, []) \<and> granted lm 1 (res_r 1) EXCLUSIVE"
proof -
  let ?tm = "\<lparr>tm_transactions = [1 \<mapsto> new_Transaction 1, 2 \<mapsto> new_Transaction 2], tm_nextTxnId = 3\<rparr> :: TransactionManager"
  let ?lm = "unlock 2 (res_r 1) lm1"
  obtain tm lm where e: "txn_abort 2 (?tm, ?lm) = (tm, lm)" by fastforce
  have "txn_step (tm1, lm1, []) (Begin 2) (?tm, lm1, [])"
    by (rule txn_step.start) (simp add: txn_begin_def tm1_def in_int32_def Let_def)
  moreover have "txn_step (?tm, lm1, []) (Unlock 2 (res_r 1)) (?tm, ?lm, [])" by (rule txn_step.unlocks) simp
  moreover have "txn_step (?tm, ?lm, []) (Abort 2) (tm, lm, [])" by (rule txn_step.aborts [OF _ e]) simp
  ultimately have r: "txn_run (tm1, lm1, []) [Begin 2, Unlock 2 (res_r 1), Abort 2] (tm, lm, [])"
    by (blast intro: txn_run.intros)
  from r locks_kept_until_release [OF r granted_lm1] show ?thesis by auto
qed

text \<open>C29: the life of a transaction.  In every state the two managers reach by any operations, below the
  largest transaction number, \<open>begin\<close> returns a number no transaction has yet, which is then active, while all
  other transactions are as they were.  \<open>commit\<close> and \<open>abort\<close> of any transaction the manager
  knows, with the locks it holds, move it to \<open>COMMITTED\<close> and \<open>ABORTED\<close>, leave it without any granted or pending
  request and its wait-for edges erased, and change neither another transaction's state nor its requests.\<close>

theorem transaction_lifecycle:
  assumes "txn_run txn_init es (tm, lm, W)" "tm_nextTxnId tm < 2147483647"
    and "getTransaction t tm = Some txn"
    and "(s, ending) \<in> {(COMMITTED, txn_commit), (ABORTED, txn_abort)}"
  shows "(\<exists>n tm'. txn_begin tm = Inr (n, tm') \<and> getTransaction n tm = None \<and> active tm' n \<and>
      (\<forall>u. u \<noteq> n \<longrightarrow> getTransaction u tm' = getTransaction u tm)) \<and>
    (\<exists>tm' lm'. ending t (tm, lm) = (tm', lm') \<and>
      (\<forall>u. getTransaction u tm' = (if u = t then Some (txn\<lparr>txn_state := s\<rparr>) else getTransaction u tm)) \<and>
      (\<forall>res. requests res lm' = filter (\<lambda>r. lr_txnId r \<noteq> t) (requests res lm)) \<and>
      (\<forall>u. edges (lk_graph lm') u = (if u = t then [] else edges (lk_graph lm) u)))"
proof -
  let ?n = "tm_nextTxnId tm"
  have "ids_ok (fst (tm, lm, W))"
    by (rule txn_run_ids [OF assms(1)]) (simp add: ids_ok_def new_TransactionManager_def)
  then have n: "tm_transactions tm ?n = None" "in_int32 (?n + 1)"
    using assms(2) by (cases "tm_transactions tm ?n"; auto simp: ids_ok_def in_int32_def)+
  have "ending = txn_end s" using assms(4) by (auto simp: txn_commit_def txn_abort_def)
  then show ?thesis using n assms(3)
    by (simp add: txn_begin_def Let_def getTransaction_def txn_end_def setState_def active_def new_Transaction_def
        requests_unlockAll edges_unlockAll)
qed

theorem transaction_lifecycle_witness:
  "requests (res_r 1) lm1 \<noteq> [] \<and>
   (\<exists>tm lm. txn_commit 1 (tm1, lm1) = (tm, lm) \<and> getTransaction 1 tm = Some ((new_Transaction 1)\<lparr>txn_state := COMMITTED\<rparr>) \<and>
      requests (res_r 1) lm = [])"
proof -
  have "getTransaction 1 tm1 = Some (new_Transaction 1)" "tm_nextTxnId tm1 < 2147483647"
    by (simp_all add: tm1_def getTransaction_def)
  from transaction_lifecycle [OF run_tm1 this(2,1), of COMMITTED txn_commit]
  obtain tm lm where l: "txn_commit 1 (tm1, lm1) = (tm, lm)"
      "getTransaction 1 tm = Some ((new_Transaction 1)\<lparr>txn_state := COMMITTED\<rparr>)"
      "requests (res_r 1) lm = filter (\<lambda>r. lr_txnId r \<noteq> 1) (requests (res_r 1) lm1)" by auto
  have "requests (res_r 1) lm1 = [\<lparr>lr_txnId = 1, lr_mode = EXCLUSIVE, lr_granted = True\<rparr>]"
    by (simp add: lm1_def requests_def)
  with l show ?thesis by simp
qed

end
