(* ===== verification/Engine.thy ===== *)
theory Engine
  imports TableRows Optimizer LogManager Transaction
begin

text \<open>
  The engine of \<open>src/main.cpp\<close>: class \<open>MiniDB\<close>, one operation per kind of statement, and the
  read-eval-print loop of \<open>main\<close>.

  What a statement prints is a list of \<open>Out\<close> (standard output) and \<open>Err\<close> (standard error) strings.  An
  exception that leaves a statement is the value \<open>Inl\<close>; nothing catches it, so it ends the program.  The
  member \<open>indexes_\<close> holds the same pointers as the execution context and is never read; the model has the
  latter only.  The argument \<open>grow\<close> is the growth policy of the node vector of a new index.

  The second half of the theory is the contract of a statement (\<open>sql_spec\<close>, on a map from table names to a
  schema and a multiset of rows) and the proof that every statement implements it.
\<close>

section \<open>Output\<close>

datatype console = Out string | Err string

abbreviation NL :: string where "NL \<equiv> [CHR 0x0A]"

definition quoted :: "string \<Rightarrow> string" where
  "quoted s = [QUOTE] @ s @ [QUOTE]"

definition out_line :: "string \<Rightarrow> console" where "out_line s = Out (s @ NL)"
definition err_line :: "string \<Rightarrow> console" where "err_line s = Err (s @ NL)"

text \<open>What constructing a \<open>Lexer\<close> prints.\<close>

definition new_Lexer :: "console list" where
  "new_Lexer = [out_line ''Initializing lexer...'']"

section \<open>State\<close>

record MiniDB =
  db_ctx :: ExecutionContext
  db_lockMgr :: LockManager
  db_txnMgr :: TransactionManager
  db_logMgr :: LogManager

text \<open>The constructor, for given files, names the system can open, and contents of the log file.\<close>

definition new_MiniDB :: "(string \<rightharpoonup> byte list) \<Rightarrow> (string \<Rightarrow> bool) \<Rightarrow> byte list \<Rightarrow> bool \<Rightarrow> MiniDB res" where
  "new_MiniDB os openable wal can_open =
     bindE (open_log wal can_open) (\<lambda>lm.
     Inr \<lparr>db_ctx = \<lparr>ctx_catalog = [], ctx_storage = \<lparr>st_disk = new_DiskManager os openable, st_pool = new_BufferPool 256\<rparr>,
            ctx_indexes = Map.empty\<rparr>,
          db_lockMgr = new_LockManager, db_txnMgr = new_TransactionManager, db_logMgr = lm\<rparr>)"

text \<open>The part of the destructor that has an effect outside the process.\<close>

definition close_MiniDB :: "MiniDB \<Rightarrow> MiniDB res" where
  "close_MiniDB db = bindE (with_storage (\<lambda>s. bindE (flushAllPages s) (\<lambda>s. Inr ((), s))) (db_ctx db)) (\<lambda>(_, ctx).
     Inr (db\<lparr>db_ctx := ctx\<rparr>))"

section \<open>CREATE TABLE\<close>

definition build_schema :: "ColumnDef list \<Rightarrow> Schema" where
  "build_schema cols = fold (\<lambda>col sch. addColumn sch (cd_name col) (if cd_type col = ''INT'' then DT_INT else DT_TEXT)) cols []"

definition executeCreateTable :: "(nat \<Rightarrow> nat) \<Rightarrow> Statement \<Rightarrow> MiniDB \<Rightarrow> (MiniDB \<times> console list) res" where
  "executeCreateTable grow stmt db =
     (let n = tableName stmt; ctx = db_ctx db in
      if tableExists n (ctx_catalog ctx) then Inr (db, [err_line (''Error: table '' @ quoted n @ '' already exists.'')])
      else
        let sch = build_schema (columns stmt) in
        bindE (with_storage (createTable n) ctx) (\<lambda>(fileId, ctx).
        let ctx = ctx\<lparr>ctx_catalog := addTable n sch fileId (ctx_catalog ctx)\<rparr>;
            tree = new_BPlusTree grow 128;
            ctx = ctx_setIndex n tree ctx
        in Inr (db\<lparr>db_ctx := ctx\<rparr>, [out_line (''Table '' @ quoted n @ '' created with '' @ nat_to_string (columnCount sch) @ '' columns.'')])))"

section \<open>INSERT\<close>

text \<open>The loop that turns the texts of a statement into values; \<open>Inl\<close> inside the result is the name of a column
  whose text is not an integer.\<close>

fun convert_values :: "Schema \<Rightarrow> nat \<Rightarrow> string list \<Rightarrow> Value list \<Rightarrow> (string + Value list) res" where
  "convert_values sch i [] vs = Inr (Inr vs)"
| "convert_values sch i (s # ss) vs =
     bindE (getColumn sch i) (\<lambda>c.
     if col_type c = DT_INT
     then (case stoi s of
             Inl _ \<Rightarrow> Inr (Inl (col_name c))
           | Inr k \<Rightarrow> convert_values sch (Suc i) ss (vs @ [IntValue k]))
     else convert_values sch (Suc i) ss (vs @ [TextValue s]))"

definition no_table :: "string \<Rightarrow> console" where
  "no_table n = err_line (''Error: table '' @ quoted n @ '' does not exist.'')"

text \<open>\<open>txnMgr_.begin(); logMgr_.logBegin(txnId)\<close> and \<open>logMgr_.logCommit(txnId); txnMgr_.commit(txnId)\<close>\<close>

definition begin_txn :: "MiniDB \<Rightarrow> (int \<times> MiniDB) res" where
  "begin_txn db = bindE (txn_begin (db_txnMgr db)) (\<lambda>(t, tm).
     Inr (t, db\<lparr>db_txnMgr := tm, db_logMgr := snd (logBegin t (db_logMgr db))\<rparr>))"

definition commit_txn :: "int \<Rightarrow> MiniDB \<Rightarrow> MiniDB" where
  "commit_txn t db =
     (let db = db\<lparr>db_logMgr := snd (logCommit t (db_logMgr db))\<rparr>;
          (tm, lk) = txn_commit t (db_txnMgr db, db_lockMgr db)
      in db\<lparr>db_txnMgr := tm, db_lockMgr := lk\<rparr>)"

text \<open>\<open>executor.init(execCtx_); executor.next(result)\<close>: an unset \<open>result\<close> is the empty tuple.\<close>

definition run_once :: "Executor \<Rightarrow> MiniDB \<Rightarrow> (Tuple \<times> MiniDB) res" where
  "run_once e db =
     bindE (exec_init e (db_ctx db)) (\<lambda>(e, ctx).
     bindE (next_tuple e) (\<lambda>(r, _).
     Inr (case r of None \<Rightarrow> [] | Some t \<Rightarrow> t, db\<lparr>db_ctx := ctx\<rparr>)))"

definition executeInsert :: "Statement \<Rightarrow> MiniDB \<Rightarrow> (MiniDB \<times> console list) res" where
  "executeInsert stmt db =
     (let n = tableName stmt in
      case getTable n (ctx_catalog (db_ctx db)) of
        None \<Rightarrow> Inr (db, [no_table n])
      | Some info \<Rightarrow>
          let sch = ti_schema info in
          if length (stmt_values stmt) \<noteq> columnCount sch
          then Inr (db, [err_line (''Error: expected '' @ nat_to_string (columnCount sch) @ '' values, got '' @
                 nat_to_string (length (stmt_values stmt)) @ ''.'')])
          else
            bindE (convert_values sch 0 (stmt_values stmt) []) (\<lambda>r. case r of
              Inl col \<Rightarrow> Inr (db, [err_line (''Error: expected integer for column '' @ quoted col @ ''.'')])
            | Inr vs \<Rightarrow>
                bindE (begin_txn db) (\<lambda>(t, db).
                bindE (run_once (new_InsertExecutor n vs) db) (\<lambda>(_, db).
                let db = commit_txn t db;
                    ctx = db_ctx db;
                    db = db\<lparr>db_ctx := ctx\<lparr>ctx_catalog := modifyTable n (\<lambda>i. i\<lparr>ti_rowCount := to_u32 (ti_rowCount i + 1)\<rparr>) (ctx_catalog ctx)\<rparr>\<rparr>
                in Inr (db, [out_line (''Inserted 1 row into '' @ quoted n @ ''.'')])))))"

section \<open>SELECT\<close>

text \<open>The lambda of the WHERE clause; \<open>catch (...)\<close> turns an exception into \<open>false\<close> for integer columns.\<close>

definition where_predicate :: "int \<Rightarrow> DataType \<Rightarrow> string \<Rightarrow> Tuple \<Rightarrow> bool res" where
  "where_predicate colIdx colType whereVal t =
     (if colIdx < 0 \<or> nat colIdx \<ge> length t then Inr False
      else bindE (getValue t (nat colIdx)) (\<lambda>v.
        if colType = DT_INT
        then (case bindE (asInt v) (\<lambda>i. bindE (stoi whereVal) (\<lambda>k. Inr (i = k))) of Inl _ \<Rightarrow> Inr False | Inr b \<Rightarrow> Inr b)
        else bindE (asText v) (\<lambda>s. Inr (s = whereVal))))"

definition no_column :: "string \<Rightarrow> console" where
  "no_column c = err_line (''Error: column '' @ quoted c @ '' not found.'')"

text \<open>The predicate of a statement, or the message that its column does not exist.\<close>

definition build_predicate :: "Schema \<Rightarrow> Statement \<Rightarrow> (console + predicate) res" where
  "build_predicate sch stmt =
     (if hasWhere stmt then
        let colIdx = findColumn sch (wc_column (where_clause stmt)) in
        if colIdx < 0 then Inr (Inl (no_column (wc_column (where_clause stmt))))
        else bindE (getColumn sch (nat colIdx)) (\<lambda>c.
          Inr (Inr (Some (where_predicate colIdx (col_type c) (wc_value (where_clause stmt))))))
      else Inr (Inr None))"

fun select_indices :: "Schema \<Rightarrow> string list \<Rightarrow> string + int list" where
  "select_indices sch [] = Inr []"
| "select_indices sch (col # cols) =
     (let idx = findColumn sch col in
      if idx < 0 then Inl col
      else (case select_indices sch cols of Inl c \<Rightarrow> Inl c | Inr is \<Rightarrow> Inr (idx # is)))"

definition output_columns :: "Schema \<Rightarrow> Statement \<Rightarrow> string + string list \<times> int list" where
  "output_columns sch stmt =
     (if selectAll stmt \<or> selectColumns stmt = []
      then Inr (map col_name sch, map int [0..<columnCount sch])
      else (case select_indices sch (selectColumns stmt) of Inl c \<Rightarrow> Inl c | Inr is \<Rightarrow> Inr (selectColumns stmt, is)))"

definition rule_line :: "nat \<Rightarrow> console" where
  "rule_line k = out_line (''+'' @ concat (replicate k (replicate 15 (CHR ''-'') @ ''+'')))"

definition cells_line :: "string list \<Rightarrow> console" where
  "cells_line cells = out_line (''|'' @ concat (map (\<lambda>s. setw_left 15 s @ ''|'') cells))"

text \<open>The cells of a row; a negative index becomes a huge one in the cast to \<open>size_t\<close> and is skipped.\<close>

fun row_cells :: "int list \<Rightarrow> Tuple \<Rightarrow> string list res" where
  "row_cells [] t = Inr []"
| "row_cells (idx # is) t =
     (if 0 \<le> idx \<and> nat idx < length t
      then bindE (getValue t (nat idx)) (\<lambda>v. bindE (row_cells is t) (\<lambda>cs. Inr (value_toString v # cs)))
      else row_cells is t)"

fun print_rows :: "nat \<Rightarrow> int list \<Rightarrow> Executor \<Rightarrow> int \<Rightarrow> (int \<times> console list) res" where
  "print_rows 0 is e rowCount = Inl OutOfFuel"
| "print_rows (Suc fuel) is e rowCount =
     bindE (next_tuple e) (\<lambda>(r, e). case r of
       None \<Rightarrow> Inr (rowCount, [])
     | Some t \<Rightarrow>
         bindE (row_cells is t) (\<lambda>cells.
         if \<not> in_int32 (rowCount + 1) then Inl (UndefinedBehaviour ''signed overflow'')
         else bindE (print_rows fuel is e (rowCount + 1)) (\<lambda>(k, out). Inr (k, cells_line cells # out))))"

definition executeSelect :: "Statement \<Rightarrow> MiniDB \<Rightarrow> (MiniDB \<times> console list) res" where
  "executeSelect stmt db =
     (let n = tableName stmt in
      case getTable n (ctx_catalog (db_ctx db)) of
        None \<Rightarrow> Inr (db, [no_table n])
      | Some info \<Rightarrow>
          bindE (build_predicate (ti_schema info) stmt) (\<lambda>r. case r of
            Inl msg \<Rightarrow> Inr (db, [msg])
          | Inr p \<Rightarrow>
              bindE (exec_init (new_SeqScanExecutor n p) (db_ctx db)) (\<lambda>(scanExec, ctx).
              let db = db\<lparr>db_ctx := ctx\<rparr> in
              case output_columns (ti_schema info) stmt of
                Inl col \<Rightarrow> Inr (db, [no_column col])
              | Inr (outputCols, outputIndices) \<Rightarrow>
                  let k = length outputCols in
                  bindE (print_rows (Suc (remaining scanExec)) outputIndices scanExec 0) (\<lambda>(rowCount, out).
                  Inr (db, [rule_line k, cells_line outputCols, rule_line k] @ out @
                    [rule_line k, out_line (to_string rowCount @ '' row(s) returned.'')])))))"

section \<open>DELETE\<close>

definition executeDelete :: "Statement \<Rightarrow> MiniDB \<Rightarrow> (MiniDB \<times> console list) res" where
  "executeDelete stmt db =
     (let n = tableName stmt in
      case getTable n (ctx_catalog (db_ctx db)) of
        None \<Rightarrow> Inr (db, [no_table n])
      | Some info \<Rightarrow>
          bindE (build_predicate (ti_schema info) stmt) (\<lambda>r. case r of
            Inl msg \<Rightarrow> Inr (db, [msg])
          | Inr p \<Rightarrow>
              bindE (begin_txn db) (\<lambda>(t, db).
              bindE (run_once (new_DeleteExecutor n p) db) (\<lambda>(result, db).
              let db = commit_txn t db in
              bindE (getValue result 0) (\<lambda>v. bindE (asInt v) (\<lambda>deleted.
              Inr (db, [out_line (''Deleted '' @ to_string deleted @ '' row(s) from '' @ quoted n @ ''.'')])))))))"

section \<open>Dispatch\<close>

definition executePlan :: "PlanNode \<Rightarrow> Statement \<Rightarrow> MiniDB \<Rightarrow> (MiniDB \<times> console list) res" where
  "executePlan plan stmt db = (case pn_type plan of
      INSERT_OP \<Rightarrow> executeInsert stmt db
    | DELETE_OP \<Rightarrow> executeDelete stmt db
    | SEQ_SCAN \<Rightarrow> executeSelect stmt db
    | INDEX_SCAN \<Rightarrow> executeSelect stmt db
    | PROJECTION \<Rightarrow> executeSelect stmt db
    | _ \<Rightarrow> Inr (db, [err_line ''Error: unsupported plan node type.'']))"

definition execute_stmt :: "(nat \<Rightarrow> nat) \<Rightarrow> Statement \<Rightarrow> MiniDB \<Rightarrow> (MiniDB \<times> console list) res" where
  "execute_stmt grow stmt db =
     (if stmt_type stmt = CREATE_TABLE then executeCreateTable grow stmt db
      else bindE (optimize (ctx_catalog (db_ctx db)) stmt) (\<lambda>plan. case plan of
          None \<Rightarrow> Inr (db, [err_line ''Error: optimizer returned no plan.''])
        | Some plan \<Rightarrow> executePlan plan stmt db))"

text \<open>The constructor of the local \<open>lexer\<close> prints its line before anything else.\<close>

definition execute :: "(nat \<Rightarrow> nat) \<Rightarrow> string \<Rightarrow> MiniDB \<Rightarrow> (MiniDB \<times> console list) res" where
  "execute grow sql db = (case parse (handleInput sql) of
      Inl (RuntimeError msg) \<Rightarrow> Inr (db, new_Lexer @ [err_line (''Parse Error: '' @ msg)])
    | Inl e \<Rightarrow> Inl e
    | Inr stmt \<Rightarrow> bindE (execute_stmt grow stmt db) (\<lambda>(db, out). Inr (db, new_Lexer @ out)))"


section \<open>The read-eval-print loop\<close>

text \<open>The UTF-8 bytes of the characters outside ASCII in the banner and the help text.\<close>

definition box :: "nat \<Rightarrow> string" where "box n = [CHR 0xE2, CHR 0x95, char_of n]"
definition em_dash :: string where "em_dash = [CHR 0xE2, CHR 0x80, CHR 0x94]"

definition banner :: "console list" where
  "banner =
     [out_line (box 0x94 @ concat (replicate 42 (box 0x90)) @ box 0x97),
      out_line (box 0x91 @ ''          MiniDB v1.0 '' @ em_dash @ '' SQL Engine        '' @ box 0x91),
      out_line (box 0x91 @ ''  Type SQL commands or '' @ quoted ''.exit'' @ '' to quit    '' @ box 0x91),
      out_line (box 0x9A @ concat (replicate 42 (box 0x90)) @ box 0x9D),
      out_line '''']"

definition help_text :: "console list" where
  "help_text =
     [out_line ''Supported commands:'',
      out_line ''  CREATE TABLE name (col1 TYPE, col2 TYPE, ...);'',
      out_line ''  INSERT INTO name VALUES (val1, val2, ...);'',
      out_line ''  SELECT * FROM name [WHERE col = val];'',
      out_line ''  SELECT col1, col2 FROM name [WHERE col = val];'',
      out_line ''  DELETE FROM name [WHERE col = val];'',
      out_line (''  .help  '' @ em_dash @ '' show this help''),
      out_line (''  .exit  '' @ em_dash @ '' quit MiniDB'')]"

text \<open>Standard input: the characters left, and whether the stream is still good.\<close>

record istream =
  in_rest :: string
  in_good :: bool

text \<open>\<open>std::getline(std::cin, input)\<close>: on a stream that is not good the string keeps its value; at the end of the
  input the stream stops being good.\<close>

definition getline :: "istream \<Rightarrow> string \<Rightarrow> string \<times> istream" where
  "getline is input =
     (if \<not> in_good is then (input, is)
      else let line = takeWhile (\<lambda>c. c \<noteq> CHR 0x0A) (in_rest is); rest = dropWhile (\<lambda>c. c \<noteq> CHR 0x0A) (in_rest is)
           in if rest = [] then (line, \<lparr>in_rest = [], in_good = False\<rparr>) else (line, is\<lparr>in_rest := tl rest\<rparr>))"

record Repl =
  rp_db :: MiniDB
  rp_in :: istream
  rp_input :: string
  rp_out :: "console list"

datatype outcome = Running Repl | Exited MiniDB "console list" | Crashed db_error "console list"

definition is_exit :: "string \<Rightarrow> bool" where
  "is_exit s \<longleftrightarrow> s = ''.exit'' \<or> s = ''quit'' \<or> s = ''exit''"

text \<open>One turn of the loop of \<open>main\<close>.  A crash keeps what was printed up to the line of the lexer; what the failing
  statement printed after that is not recorded.\<close>

definition repl_turn :: "(nat \<Rightarrow> nat) \<Rightarrow> Repl \<Rightarrow> outcome" where
  "repl_turn grow rp =
     (let out = rp_out rp @ [Out ''minidb> ''];
          (input, is) = getline (rp_in rp) (rp_input rp);
          rp = rp\<lparr>rp_in := is, rp_input := input, rp_out := out\<rparr>
      in if is_exit input then Exited (rp_db rp) (out @ [out_line ''Goodbye!''])
         else if input = [] then Running rp
         else if input = ''.help'' then Running (rp\<lparr>rp_out := out @ help_text\<rparr>)
         else (case execute grow input (rp_db rp) of
                 Inl e \<Rightarrow> Crashed e (out @ new_Lexer)
               | Inr (db, o1) \<Rightarrow> Running (rp\<lparr>rp_db := db, rp_out := out @ o1\<rparr>)))"

text \<open>The state after at most \<open>n\<close> turns.\<close>

fun repl_run :: "(nat \<Rightarrow> nat) \<Rightarrow> nat \<Rightarrow> Repl \<Rightarrow> outcome" where
  "repl_run grow 0 rp = Running rp"
| "repl_run grow (Suc n) rp = (case repl_turn grow rp of Running rp \<Rightarrow> repl_run grow n rp | r \<Rightarrow> r)"

definition start_repl :: "MiniDB \<Rightarrow> string \<Rightarrow> Repl" where
  "start_repl db stdin = \<lparr>rp_db = db, rp_in = \<lparr>in_rest = stdin, in_good = True\<rparr>, rp_input = '''', rp_out = banner\<rparr>"

text \<open>\<open>main\<close> up to its return: the engine is closed when the loop ends.\<close>

definition main_run :: "(nat \<Rightarrow> nat) \<Rightarrow> nat \<Rightarrow> MiniDB \<Rightarrow> string \<Rightarrow> outcome" where
  "main_run grow n db stdin = (case repl_run grow n (start_repl db stdin) of
      Exited db out \<Rightarrow> (case close_MiniDB db of Inl e \<Rightarrow> Crashed e out | Inr db \<Rightarrow> Exited db out)
    | r \<Rightarrow> r)"


section \<open>The contract of a statement\<close>

type_synonym tables = "string \<rightharpoonup> Schema \<times> Tuple multiset"

datatype answer =
    Created string nat
  | Inserted string
  | Selected "string list" "string list multiset"
  | Deleted string nat
  | Rejected console

text \<open>The value a text denotes in a column of a type.\<close>

definition typed_value :: "DataType \<Rightarrow> string \<Rightarrow> Value option" where
  "typed_value ty s = (case ty of
      DT_INT \<Rightarrow> (case stoi s of Inl _ \<Rightarrow> None | Inr k \<Rightarrow> Some (IntValue k))
    | DT_TEXT \<Rightarrow> Some (TextValue s))"

definition typed_row :: "Schema \<Rightarrow> string list \<Rightarrow> Value option list" where
  "typed_row sch ss = map2 (\<lambda>c s. typed_value (col_type c) s) sch ss"

definition where_column_ok :: "Schema \<Rightarrow> Statement \<Rightarrow> bool" where
  "where_column_ok sch stmt \<longleftrightarrow> hasWhere stmt \<longrightarrow> wc_column (where_clause stmt) \<in> col_name ` set sch"

text \<open>The value of the first column with a given name.\<close>

definition column_value :: "Schema \<Rightarrow> string \<Rightarrow> Tuple \<Rightarrow> Value option" where
  "column_value sch c t = map_of (zip (map col_name sch) t) c"

definition column_type :: "Schema \<Rightarrow> string \<Rightarrow> DataType option" where
  "column_type sch c = map_of (map (\<lambda>x. (col_name x, col_type x)) sch) c"

definition where_matches :: "Schema \<Rightarrow> Statement \<Rightarrow> Tuple \<Rightarrow> bool" where
  "where_matches sch stmt t \<longleftrightarrow> \<not> hasWhere stmt \<or>
     (case column_type sch (wc_column (where_clause stmt)) of
        None \<Rightarrow> False
      | Some ty \<Rightarrow> (case typed_value ty (wc_value (where_clause stmt)) of
          None \<Rightarrow> False
        | Some v \<Rightarrow> column_value sch (wc_column (where_clause stmt)) t = Some v))"

text \<open>The cells a statement selects from a row.\<close>

definition cells_of :: "Schema \<Rightarrow> string list \<Rightarrow> Tuple \<Rightarrow> string list" where
  "cells_of sch cols t = map (\<lambda>c. value_toString (the (column_value sch c t))) cols"

definition all_columns :: "Statement \<Rightarrow> bool" where
  "all_columns stmt \<longleftrightarrow> selectAll stmt \<or> selectColumns stmt = []"

definition sql_create :: "Statement \<Rightarrow> tables \<Rightarrow> answer \<times> tables" where
  "sql_create stmt ts = (let n = tableName stmt in
     if n \<in> dom ts then (Rejected (err_line (''Error: table '' @ quoted n @ '' already exists.'')), ts)
     else (Created n (length (columns stmt)),
           ts(n \<mapsto> (map (\<lambda>c. \<lparr>col_name = cd_name c, col_type = if cd_type c = ''INT'' then DT_INT else DT_TEXT\<rparr>) (columns stmt), {#}))))"

definition sql_insert :: "Statement \<Rightarrow> tables \<Rightarrow> answer \<times> tables" where
  "sql_insert stmt ts = (let n = tableName stmt; ss = stmt_values stmt in case ts n of
      None \<Rightarrow> (Rejected (no_table n), ts)
    | Some (sch, R) \<Rightarrow>
        if length ss \<noteq> length sch
        then (Rejected (err_line (''Error: expected '' @ nat_to_string (length sch) @ '' values, got '' @ nat_to_string (length ss) @ ''.'')), ts)
        else (case filter (\<lambda>(c, v). v = None) (zip sch (typed_row sch ss)) of
            (c, _) # _ \<Rightarrow> (Rejected (err_line (''Error: expected integer for column '' @ quoted (col_name c) @ ''.'')), ts)
          | [] \<Rightarrow> (Inserted n, ts(n \<mapsto> (sch, add_mset (map the (typed_row sch ss)) R)))))"

definition sql_select :: "Statement \<Rightarrow> tables \<Rightarrow> answer \<times> tables" where
  "sql_select stmt ts = (let n = tableName stmt in case ts n of
      None \<Rightarrow> (Rejected (no_table n), ts)
    | Some (sch, R) \<Rightarrow>
        if \<not> where_column_ok sch stmt then (Rejected (no_column (wc_column (where_clause stmt))), ts)
        else if all_columns stmt
        then (Selected (map col_name sch) (image_mset (map value_toString) (filter_mset (where_matches sch stmt) R)), ts)
        else (case filter (\<lambda>c. c \<notin> col_name ` set sch) (selectColumns stmt) of
            c # _ \<Rightarrow> (Rejected (no_column c), ts)
          | [] \<Rightarrow> (Selected (selectColumns stmt) (image_mset (cells_of sch (selectColumns stmt)) (filter_mset (where_matches sch stmt) R)), ts)))"

definition sql_delete :: "Statement \<Rightarrow> tables \<Rightarrow> answer \<times> tables" where
  "sql_delete stmt ts = (let n = tableName stmt in case ts n of
      None \<Rightarrow> (Rejected (no_table n), ts)
    | Some (sch, R) \<Rightarrow>
        if \<not> where_column_ok sch stmt then (Rejected (no_column (wc_column (where_clause stmt))), ts)
        else (Deleted n (size (filter_mset (where_matches sch stmt) R)),
              ts(n \<mapsto> (sch, filter_mset (\<lambda>t. \<not> where_matches sch stmt t) R))))"

definition sql_spec :: "Statement \<Rightarrow> tables \<Rightarrow> answer \<times> tables" where
  "sql_spec stmt = (case stmt_type stmt of CREATE_TABLE \<Rightarrow> sql_create stmt | INSERT \<Rightarrow> sql_insert stmt
     | SELECT \<Rightarrow> sql_select stmt | DELETE_STMT \<Rightarrow> sql_delete stmt)"

text \<open>What is printed for an answer; the rows of a table come in some order.\<close>

definition table_output :: "string list \<Rightarrow> string list list \<Rightarrow> console list" where
  "table_output cols rs = [rule_line (length cols), cells_line cols, rule_line (length cols)] @ map cells_line rs @
     [rule_line (length cols), out_line (nat_to_string (length rs) @ '' row(s) returned.'')]"

fun prints :: "answer \<Rightarrow> console list \<Rightarrow> bool" where
  "prints (Created n k) out \<longleftrightarrow> out = [out_line (''Table '' @ quoted n @ '' created with '' @ nat_to_string k @ '' columns.'')]"
| "prints (Inserted n) out \<longleftrightarrow> out = [out_line (''Inserted 1 row into '' @ quoted n @ ''.'')]"
| "prints (Selected cols R) out \<longleftrightarrow> (\<exists>rs. mset rs = R \<and> out = table_output cols rs)"
| "prints (Deleted n k) out \<longleftrightarrow> out = [out_line (''Deleted '' @ nat_to_string k @ '' row(s) from '' @ quoted n @ ''.'')]"
| "prints (Rejected msg) out \<longleftrightarrow> out = [msg]"

text \<open>What a statement text prints: the line of the lexer, then the answer.\<close>

definition responds :: "answer \<Rightarrow> console list \<Rightarrow> bool" where
  "responds a out \<longleftrightarrow> (\<exists>o1. out = new_Lexer @ o1 \<and> prints a o1)"

definition tables_of :: "MiniDB \<Rightarrow> tables" where
  "tables_of db n = (case getTable n (ctx_catalog (db_ctx db)) of
      None \<Rightarrow> None
    | Some info \<Rightarrow> Some (ti_schema info, mset (table_rows (db_ctx db) n)))"

text \<open>The resources a statement needs: a file for a new table; for a new row, that it is not empty, that it fits a page,
  that the file can grow, and room in the index; a transaction number; fewer rows than the largest \<open>int\<close>.\<close>

definition txn_room :: "MiniDB \<Rightarrow> bool" where
  "txn_room db \<longleftrightarrow> in_int32 (tm_nextTxnId (db_txnMgr db)) \<and> in_int32 (tm_nextTxnId (db_txnMgr db) + 1)"

definition room_for :: "Statement \<Rightarrow> MiniDB \<Rightarrow> bool" where
  "room_for stmt db = (let n = tableName stmt; ctx = db_ctx db in case stmt_type stmt of
      CREATE_TABLE \<Rightarrow> tableExists n (ctx_catalog ctx) \<or> fresh_table (ctx_storage ctx) n
    | INSERT \<Rightarrow> (case getTable n (ctx_catalog ctx) of
          None \<Rightarrow> True
        | Some info \<Rightarrow> let row = map the (typed_row (ti_schema info) (stmt_values stmt)) in
            txn_room db \<and> row \<noteq> [] \<and> length (serializeTuple row (ti_schema info)) \<le> 3576 \<and>
            getPageCount (ti_fileId info) (ctx_storage ctx) + 1 < 4294967295 \<and> index_room ctx n row)
    | SELECT \<Rightarrow> length (table_rows ctx n) \<le> 2147483647
    | DELETE_STMT \<Rightarrow> txn_room db \<and> length (table_rows ctx n) \<le> 2147483647)"


section \<open>The parts of a statement\<close>

lemma build_schema_map:
  "build_schema cols = map (\<lambda>c. \<lparr>col_name = cd_name c, col_type = if cd_type c = ''INT'' then DT_INT else DT_TEXT\<rparr>) cols"
proof -
  have "fold (\<lambda>col sch. addColumn sch (cd_name col) (if cd_type col = ''INT'' then DT_INT else DT_TEXT)) cols acc =
    acc @ map (\<lambda>c. \<lparr>col_name = cd_name c, col_type = if cd_type c = ''INT'' then DT_INT else DT_TEXT\<rparr>) cols" for acc
    by (induction cols arbitrary: acc) (simp_all add: addColumn_def)
  then show ?thesis by (simp add: build_schema_def)
qed

lemma typed_row_simps [simp]:
  "typed_row [] ss = []" "typed_row sch [] = []"
  "typed_row (c # sch) (s # ss) = typed_value (col_type c) s # typed_row sch ss"
  by (simp_all add: typed_row_def)

lemma convert_values_spec:
  "i + length ss = length sch \<Longrightarrow> convert_values sch i ss vs =
     Inr (case filter (\<lambda>(c, v). v = None) (zip (drop i sch) (typed_row (drop i sch) ss)) of
            (c, _) # _ \<Rightarrow> Inl (col_name c) | [] \<Rightarrow> Inr (vs @ map the (typed_row (drop i sch) ss)))"
proof (induction ss arbitrary: i vs)
  case (Cons s ss)
  then have i: "i < length sch" by simp
  then have d: "drop i sch = sch ! i # drop (Suc i) sch" by (rule Cons_nth_drop_Suc [symmetric])
  have c: "getColumn sch i = Inr (sch ! i)" using i by (simp add: getColumn_def)
  have t: "col_type (sch ! i) \<noteq> DT_INT \<Longrightarrow> col_type (sch ! i) = DT_TEXT" by (cases "col_type (sch ! i)") simp_all
  show ?case
  proof (cases "typed_value (col_type (sch ! i)) s")
    case None
    then show ?thesis unfolding d using c by (auto simp: typed_value_def split: DataType.splits sum.splits)
  next
    case (Some v)
    then have "convert_values sch i (s # ss) vs = convert_values sch (Suc i) ss (vs @ [v])"
      using c t by (auto simp: typed_value_def split: DataType.splits sum.splits)
    with Some Cons show ?thesis unfolding d by (simp split: list.split)
  qed
qed simp

lemma typed_row_ok:
  assumes "length ss = length sch" "filter (\<lambda>(c, v). v = None) (zip sch (typed_row sch ss)) = []" "ss \<noteq> []"
    "length (serializeTuple (map the (typed_row sch ss)) sch') \<le> 3576"
  shows "row_ok sch (map the (typed_row sch ss))"
proof -
  have len: "length (serialize_value v) \<le> length (serializeTuple t sch')" if "v \<in> set t" for v t
    using that by (induction t) auto
  have l: "length (typed_row sch ss) = length sch" using assms(1) by (simp add: typed_row_def)
  have v: "typed_row sch ss ! i = typed_value (col_type (sch ! i)) (ss ! i)" "typed_row sch ss ! i \<noteq> None" if "i < length sch" for i
  proof -
    show "typed_row sch ss ! i = typed_value (col_type (sch ! i)) (ss ! i)" using that assms(1) by (simp add: typed_row_def)
    have "(sch ! i, typed_row sch ss ! i) \<in> set (zip sch (typed_row sch ss))" using that l by (auto simp: set_zip)
    then show "typed_row sch ss ! i \<noteq> None" using assms(2) by (force simp: filter_empty_conv)
  qed
  have ty: "value_type (the (typed_value ty s)) = ty" if "typed_value ty s \<noteq> None" for ty s
    using that by (auto simp: typed_value_def split: DataType.splits sum.splits)
  have int: "storable_value (the (typed_value ty s))" if "typed_value ty s \<noteq> None" "length (serialize_value (the (typed_value ty s))) \<le> 3576" for ty s
    using that by (auto simp: typed_value_def stoi_def Let_def serialize_value_def split: DataType.splits sum.splits if_splits)
  have "storable_value u" if "u \<in> set (map the (typed_row sch ss))" for u
  proof -
    have "\<exists>i < length (map the (typed_row sch ss)). map the (typed_row sch ss) ! i = u" using that by (simp only: in_set_conv_nth)
    then obtain i where i: "i < length sch" "u = the (typed_row sch ss ! i)" using l by auto
    have u: "u = the (typed_value (col_type (sch ! i)) (ss ! i))" "typed_value (col_type (sch ! i)) (ss ! i) \<noteq> None"
      using i v [of i] by simp_all
    have "length (serialize_value u) \<le> 3576" using len [OF that] assms(4) by simp
    then show ?thesis using int [OF u(2)] u(1) by simp
  qed
  moreover have "well_typed (map the (typed_row sch ss)) sch"
    unfolding well_typed_def list_all2_conv_all_nth using l v ty by simp
  ultimately show ?thesis using assms(1,3) l by (auto simp: row_ok_def storable_def list_all_iff)
qed

lemma map_of_first:
  "k < length xs \<Longrightarrow> fst (xs ! k) = c \<Longrightarrow> \<forall>j < k. fst (xs ! j) \<noteq> c \<Longrightarrow> map_of xs c = Some (snd (xs ! k))"
proof (induction xs arbitrary: k)
  case (Cons x xs)
  show ?case
  proof (cases k)
    case 0
    then show ?thesis using Cons.prems by (cases x) simp
  next
    case (Suc k')
    have "fst x \<noteq> c" using Cons.prems(3) Suc by force
    moreover have "\<forall>j < k'. fst (xs ! j) \<noteq> c" using Cons.prems(3) Suc by force
    ultimately show ?thesis using Cons Suc by (cases x) simp
  qed
qed simp

lemma column_found:
  assumes "c \<in> col_name ` set sch" "length t = length sch"
  obtains k where "k < length sch" "findColumn sch c = int k" "column_value sch c t = Some (t ! k)" "column_type sch c = Some (col_type (sch ! k))"
proof (cases rule: findColumn_cases [of sch c])
  case (found k)
  have "column_value sch c t = Some (t ! k)" "column_type sch c = Some (col_type (sch ! k))"
    using map_of_first [of k "zip (map col_name sch) t" c] map_of_first [of k "map (\<lambda>x. (col_name x, col_type x)) sch" c] found assms(2)
    by (simp_all add: column_value_def column_type_def)
  with found show thesis by (intro that) simp_all
qed (use assms in auto)

lemma where_predicate_spec:
  assumes "hasWhere stmt" "wc_column (where_clause stmt) \<in> col_name ` set sch" "well_typed t sch"
  shows "\<exists>c. getColumn sch (nat (findColumn sch (wc_column (where_clause stmt)))) = Inr c \<and>
    where_predicate (findColumn sch (wc_column (where_clause stmt))) (col_type c) (wc_value (where_clause stmt)) t = Inr (where_matches sch stmt t)"
proof -
  let ?w = "where_clause stmt"
  have len: "length t = length sch" using well_typed_length [OF assms(3)] by (simp add: columnCount_def)
  obtain k where k: "k < length sch" "findColumn sch (wc_column ?w) = int k" "column_value sch (wc_column ?w) t = Some (t ! k)"
    "column_type sch (wc_column ?w) = Some (col_type (sch ! k))"
    by (rule column_found [OF assms(2) len])
  have ty: "value_type (t ! k) = col_type (sch ! k)" using assms(3) k(1) len by (simp add: well_typed_def list_all2_conv_all_nth)
  have "where_predicate (int k) (col_type (sch ! k)) (wc_value ?w) t = Inr (where_matches sch stmt t)"
  proof (cases "t ! k")
    case (IntValue i)
    then show ?thesis using ty k len assms(1)
      by (cases "stoi (wc_value ?w)") (auto simp: where_predicate_def where_matches_def getValue_def typed_value_def)
  next
    case (TextValue s)
    then have "col_type (sch ! k) = DT_TEXT" using ty by simp
    then show ?thesis using TextValue k len assms(1)
      by (auto simp: where_predicate_def where_matches_def getValue_def typed_value_def)
  qed
  then show ?thesis using k(1,2) by (simp add: getColumn_def)
qed

text \<open>The predicate of a statement decides \<open>where_matches\<close> on the rows of a table.\<close>

lemma build_predicate_spec:
  assumes "ctx_inv ctx" "getTable n (ctx_catalog ctx) = Some info"
  obtains (ok) p where "where_column_ok (ti_schema info) stmt" "build_predicate (ti_schema info) stmt = Inr (Inr p)"
      "\<forall>t \<in> set (table_rows ctx n). passes p t = Inr (where_matches (ti_schema info) stmt t)"
  | (bad) "\<not> where_column_ok (ti_schema info) stmt" "build_predicate (ti_schema info) stmt = Inr (Inl (no_column (wc_column (where_clause stmt))))"
proof -
  let ?s = "ti_schema info" and ?c = "wc_column (where_clause stmt)"
  have rows: "well_typed t ?s" if "t \<in> set (table_rows ctx n)" for t using table_rows_ok [OF assms that] by (simp add: row_ok_def)
  consider "\<not> hasWhere stmt" | "hasWhere stmt" "?c \<in> col_name ` set ?s" | "hasWhere stmt" "?c \<notin> col_name ` set ?s" by blast
  then show thesis
  proof cases
    case 1
    then show ?thesis by (intro ok [of None]) (simp_all add: where_column_ok_def build_predicate_def passes_def where_matches_def)
  next
    case 2
    then obtain k where k: "k < length ?s" "findColumn ?s ?c = int k" by (cases rule: findColumn_cases [of ?s ?c]) auto
    show ?thesis
      by (rule ok [of "Some (where_predicate (int k) (col_type (?s ! k)) (wc_value (where_clause stmt)))"])
        (use 2 k rows where_predicate_spec [OF 2] in \<open>auto simp: where_column_ok_def build_predicate_def passes_def getColumn_def\<close>)
  next
    case 3
    then show ?thesis using findColumn_neg_iff [of ?s ?c] by (intro bad) (auto simp: where_column_ok_def build_predicate_def)
  qed
qed


section \<open>Every statement implements its contract\<close>

lemma begin_txn_spec:
  assumes "txn_room db"
  obtains t db' where "begin_txn db = Inr (t, db')" "db_ctx db' = db_ctx db"
  using assms by (auto simp: begin_txn_def txn_begin_def txn_room_def Let_def)

lemma commit_txn_ctx [simp]: "db_ctx (commit_txn t db) = db_ctx db"
  by (simp add: commit_txn_def Let_def split: prod.split)

lemma run_once_spec:
  assumes "exec_init e (db_ctx db) = Inr (e', ctx)" "rows e' = Inr [t]"
  shows "run_once e db = Inr (t, db\<lparr>db_ctx := ctx\<rparr>)"
proof -
  obtain e'' where "next_tuple e' = Inr (Some t, e'')" using it.step_law [OF assms(2)] by auto
  then show ?thesis using assms(1) by (simp add: run_once_def)
qed

lemma print_rows_drain:
  assumes "drain fuel e = Inr (ts, e')" "\<forall>t \<in> set ts. row_cells is t = Inr (g t)" "0 \<le> k" "k + int (length ts) \<le> 2147483647"
  shows "print_rows fuel is e k = Inr (k + int (length ts), map (cells_line \<circ> g) ts)"
  using assms
proof (induction fuel arbitrary: e ts k)
  case (Suc fuel)
  from Suc.prems(1) obtain r e1 where r: "next_tuple e = Inr (r, e1)" by (auto elim!: bindE_InrE)
  show ?case
  proof (cases r)
    case None
    then show ?thesis using Suc.prems r by simp
  next
    case (Some t)
    then obtain us where us: "drain fuel e1 = Inr (us, e')" "ts = t # us" using Suc.prems(1) r by (auto elim!: bindE_InrE)
    have "print_rows fuel is e1 (k + 1) = Inr (k + 1 + int (length us), map (cells_line \<circ> g) us)"
      by (rule Suc.IH [OF us(1)]) (use Suc.prems us(2) in auto)
    moreover have "in_int32 (k + 1)" using Suc.prems us(2) by (simp add: in_int32_def)
    ultimately show ?thesis using Suc.prems(2) us(2) r Some by simp
  qed
qed simp

lemma print_rows_spec:
  assumes "rows e = Inr ts" "\<forall>t \<in> set ts. row_cells is t = Inr (g t)" "length ts \<le> 2147483647"
  shows "print_rows (Suc (remaining e)) is e 0 = Inr (int (length ts), map cells_line (map g ts))"
proof -
  obtain e' where "drain (Suc (remaining e)) e = Inr (ts, e')" using drain_all_rows [OF assms(1)] by (auto simp: drain_all_def)
  from print_rows_drain [OF this assms(2), of 0] assms(3) show ?thesis by simp
qed

lemma row_cells_all: "k + length is = length t \<Longrightarrow> is = map int [k..<length t] \<Longrightarrow> row_cells is t = Inr (map value_toString (drop k t))"
proof (induction "is" arbitrary: k)
  case (Cons i "is")
  have k: "k < length t" using Cons.prems(1) by simp
  then have "i = int k" "is = map int [Suc k..<length t]" using Cons.prems(2) by (simp_all add: upt_conv_Cons)
  moreover have "drop k t = t ! k # drop (Suc k) t" using k by (rule Cons_nth_drop_Suc [symmetric])
  ultimately show ?case using Cons.IH [of "Suc k"] Cons.prems(1) k by (simp add: getValue_def)
qed simp

lemma row_cells_full: "row_cells (map int [0..<length t]) t = Inr (map value_toString t)"
  using row_cells_all [of 0 "map int [0..<length t]" t] by simp

lemma select_indices_spec:
  "(case filter (\<lambda>c. c \<notin> col_name ` set sch) cols of
      c # _ \<Rightarrow> select_indices sch cols = Inl c
    | [] \<Rightarrow> select_indices sch cols = Inr (map (findColumn sch) cols))"
  using findColumn_neg_iff [of sch]
  by (induction cols) (auto simp: Let_def split: list.splits sum.splits if_splits)

lemma row_cells_columns:
  assumes "set cols \<subseteq> col_name ` set sch" "length t = length sch"
  shows "row_cells (map (findColumn sch) cols) t = Inr (cells_of sch cols t)"
  using assms(1)
proof (induction cols)
  case (Cons c cols)
  obtain k where "k < length sch" "findColumn sch c = int k" "column_value sch c t = Some (t ! k)"
    by (rule column_found [of c sch t]) (use Cons.prems assms(2) in auto)
  then show ?case using Cons assms(2) by (simp add: cells_of_def getValue_def)
qed (simp add: cells_of_def)

lemma to_string_int [simp]: "to_string (int n) = nat_to_string n"
  by (simp add: to_string_def)

text \<open>A statement that does its work: what it leaves, and what it prints.\<close>

definition implements :: "Statement \<Rightarrow> MiniDB \<Rightarrow> MiniDB \<times> console list \<Rightarrow> bool" where
  "implements stmt db r \<longleftrightarrow> ctx_inv (db_ctx (fst r)) \<and> tables_of (fst r) = snd (sql_spec stmt (tables_of db)) \<and>
     prints (fst (sql_spec stmt (tables_of db))) (snd r)"


lemma tables_of_dom: "tables_of db n = None \<longleftrightarrow> getTable n (ctx_catalog (db_ctx db)) = None"
  by (simp add: tables_of_def split: option.split)

lemma tables_of_Some: "getTable n (ctx_catalog (db_ctx db)) = Some info \<Longrightarrow> tables_of db n = Some (ti_schema info, mset (table_rows (db_ctx db) n))"
  by (simp add: tables_of_def)

lemma rejected: "ctx_inv (db_ctx db) \<Longrightarrow> sql_spec stmt (tables_of db) = (Rejected msg, tables_of db) \<Longrightarrow> implements stmt db (db, [msg])"
  by (simp add: implements_def)

text \<open>Counting rows in the catalog changes no row.\<close>

definition count_row :: "string \<Rightarrow> ExecutionContext \<Rightarrow> ExecutionContext" where
  "count_row n ctx = ctx\<lparr>ctx_catalog := modifyTable n (\<lambda>i. i\<lparr>ti_rowCount := to_u32 (ti_rowCount i + 1)\<rparr>) (ctx_catalog ctx)\<rparr>"

lemma count_schema:
  "map_option (\<lambda>i. (ti_schema i, ti_fileId i)) (getTable m (modifyTable n (\<lambda>i. i\<lparr>ti_rowCount := g i\<rparr>) cat)) =
   map_option (\<lambda>i. (ti_schema i, ti_fileId i)) (getTable m cat)"
  by (simp add: option.map_comp o_def)

lemma table_rows_count: "table_rows (ctx\<lparr>ctx_catalog := modifyTable n (\<lambda>i. i\<lparr>ti_rowCount := g i\<rparr>) (ctx_catalog ctx)\<rparr>) m = table_rows ctx m"
  by (simp add: table_rows_def split: option.split)

lemma ctx_inv_count:
  assumes "ctx_inv ctx"
  shows "ctx_inv (ctx\<lparr>ctx_catalog := modifyTable n (\<lambda>i. i\<lparr>ti_rowCount := g i\<rparr>) (ctx_catalog ctx)\<rparr>)"
proof (rule ctx_inv_update [OF assms])
  note i = ctx_inv_facts [OF assms]
  show "catalog_ok (ctx_catalog (ctx\<lparr>ctx_catalog := modifyTable n (\<lambda>i. i\<lparr>ti_rowCount := g i\<rparr>) (ctx_catalog ctx)\<rparr>))"
    using catalog_ok_modifyTable [OF i(1)] by simp
qed (use ctx_inv_facts [OF assms] count_schema in simp_all)

lemma create_implements:
  assumes ty: "stmt_type stmt = CREATE_TABLE" and inv: "ctx_inv (db_ctx db)" and room: "room_for stmt db"
  shows "\<exists>r. executeCreateTable grow stmt db = Inr r \<and> implements stmt db r"
proof (cases "tableExists (tableName stmt) (ctx_catalog (db_ctx db))")
  case True
  then have "tableName stmt \<in> dom (tables_of db)" by (auto simp: tableExists_def tables_of_def getTable_def split: option.splits)
  then show ?thesis using True inv ty
    by (intro exI [of _ "(db, [err_line (''Error: table '' @ quoted (tableName stmt) @ '' already exists.'')])"] conjI rejected)
      (simp_all add: executeCreateTable_def sql_spec_def sql_create_def Let_def)
next
  case False
  let ?n = "tableName stmt" and ?ctx = "db_ctx db" and ?sch = "build_schema (columns stmt)"
  have new: "getTable ?n (ctx_catalog ?ctx) = None" using False by (simp add: tableExists_def getTable_def)
  have fr: "fresh_table (ctx_storage ?ctx) ?n" using room False ty by (simp add: room_for_def Let_def)
  obtain f s where s: "createTable ?n (ctx_storage ?ctx) = Inr (f, s)" "created ?ctx ?n ?sch (add_table ?n ?sch f s (new_BPlusTree grow 128) ?ctx)"
    by (rule add_table_spec [OF inv fr new])
  let ?ctx' = "add_table ?n ?sch f s (new_BPlusTree grow 128) ?ctx"
  have run: "executeCreateTable grow stmt db = Inr (db\<lparr>db_ctx := ?ctx'\<rparr>,
      [out_line (''Table '' @ quoted ?n @ '' created with '' @ nat_to_string (length (columns stmt)) @ '' columns.'')])"
    using False s(1) by (simp add: executeCreateTable_def Let_def with_storage_def add_table_def columnCount_def build_schema_map)
  have "tables_of (db\<lparr>db_ctx := ?ctx'\<rparr>) m = ((tables_of db)(?n \<mapsto> (?sch, {#}))) m" for m
    using s(2) unfolding created_def tables_of_def by (cases "m = ?n") (auto simp del: add_table_simps split: option.splits)
  then have "tables_of (db\<lparr>db_ctx := ?ctx'\<rparr>) = (tables_of db)(?n \<mapsto> (?sch, {#}))" by blast
  moreover have "?n \<notin> dom (tables_of db)" using new by (simp add: domIff tables_of_dom)
  ultimately show ?thesis using run s(2) ty
    by (simp add: implements_def sql_spec_def sql_create_def Let_def created_def build_schema_map)
qed

lemma insert_runs:
  assumes inv: "ctx_inv (db_ctx db)" and info: "getTable (tableName stmt) (ctx_catalog (db_ctx db)) = Some info"
    and len: "length (stmt_values stmt) = length (ti_schema info)"
    and typed: "filter (\<lambda>(c, v). v = None) (zip (ti_schema info) (typed_row (ti_schema info) (stmt_values stmt))) = []"
    and r: "txn_room db" "map the (typed_row (ti_schema info) (stmt_values stmt)) \<noteq> []"
      "length (serializeTuple (map the (typed_row (ti_schema info) (stmt_values stmt))) (ti_schema info)) \<le> 3576"
      "getPageCount (ti_fileId info) (ctx_storage (db_ctx db)) + 1 < 4294967295"
      "index_room (db_ctx db) (tableName stmt) (map the (typed_row (ti_schema info) (stmt_values stmt)))"
  obtains db' ctx' where "executeInsert stmt db = Inr (db', [out_line (''Inserted 1 row into '' @ quoted (tableName stmt) @ ''.'')])"
    "inserted (db_ctx db) (tableName stmt) info (map the (typed_row (ti_schema info) (stmt_values stmt))) ctx'"
    "db_ctx db' = count_row (tableName stmt) ctx'"
proof -
  let ?n = "tableName stmt" and ?ss = "stmt_values stmt" and ?sch = "ti_schema info" and ?ctx = "db_ctx db"
  let ?row = "map the (typed_row ?sch ?ss)"
  have ss: "?ss \<noteq> []" using r(2) by auto
  have ok: "row_ok ?sch ?row" by (rule typed_row_ok [OF len typed ss r(3)])
  obtain tx db1 where b: "begin_txn db = Inr (tx, db1)" "db_ctx db1 = ?ctx" by (rule begin_txn_spec [OF r(1)])
  obtain x ctx' where x: "exec_init (new_InsertExecutor ?n ?row) ?ctx = Inr (InsertExecutor x, ctx')" "inserted ?ctx ?n info ?row ctx'"
    "rows (InsertExecutor x) = Inr [?row]"
    using insert_init_spec [OF inv info ok r(3,4,5)] by blast
  have run: "run_once (new_InsertExecutor ?n ?row) db1 = Inr (?row, db1\<lparr>db_ctx := ctx'\<rparr>)"
    by (rule run_once_spec [OF _ x(3)]) (use x(1) b(2) in simp)
  let ?db2 = "(commit_txn tx (db1\<lparr>db_ctx := ctx'\<rparr>))\<lparr>db_ctx := count_row ?n ctx'\<rparr>"
  have "executeInsert stmt db = Inr (?db2, [out_line (''Inserted 1 row into '' @ quoted ?n @ ''.'')])"
    using info len typed b(1) run convert_values_spec [of 0 ?ss ?sch "[]"] by (simp add: executeInsert_def columnCount_def Let_def count_row_def)
  then show thesis by (rule that [OF _ x(2)]) simp
qed

lemma insert_implements:
  assumes ty: "stmt_type stmt = INSERT" and inv: "ctx_inv (db_ctx db)" and room: "room_for stmt db"
  shows "\<exists>r. executeInsert stmt db = Inr r \<and> implements stmt db r"
proof (cases "getTable (tableName stmt) (ctx_catalog (db_ctx db))")
  case None
  then have "tables_of db (tableName stmt) = None" by (simp add: tables_of_dom)
  then show ?thesis using None inv ty
    by (intro exI [of _ "(db, [no_table (tableName stmt)])"] conjI rejected) (simp_all add: executeInsert_def sql_spec_def sql_insert_def Let_def)
next
  case (Some info)
  let ?n = "tableName stmt" and ?ss = "stmt_values stmt" and ?sch = "ti_schema info" and ?ctx = "db_ctx db"
  let ?row = "map the (typed_row ?sch ?ss)"
  note t = tables_of_Some [OF Some]
  show ?thesis
  proof (cases "length ?ss = length ?sch")
    case False
    let ?msg = "err_line (''Error: expected '' @ nat_to_string (length ?sch) @ '' values, got '' @ nat_to_string (length ?ss) @ ''.'')"
    show ?thesis using False Some inv ty t
      by (intro exI [of _ "(db, [?msg])"] conjI rejected) (simp_all add: executeInsert_def sql_spec_def sql_insert_def Let_def columnCount_def)
  next
    case len: True
    show ?thesis
    proof (cases "filter (\<lambda>(c, v). v = None) (zip ?sch (typed_row ?sch ?ss))")
      case (Cons cv rest)
      obtain c v where cv: "cv = (c, v)" by (cases cv)
      let ?msg = "err_line (''Error: expected integer for column '' @ quoted (col_name c) @ ''.'')"
      show ?thesis using Some inv ty t len Cons cv convert_values_spec [of 0 ?ss ?sch "[]"]
        by (intro exI [of _ "(db, [?msg])"] conjI rejected) (simp_all add: executeInsert_def sql_spec_def sql_insert_def Let_def columnCount_def)
    next
      case Nil
      have r: "txn_room db" "?row \<noteq> []" "length (serializeTuple ?row ?sch) \<le> 3576" "getPageCount (ti_fileId info) (ctx_storage ?ctx) + 1 < 4294967295"
        "index_room ?ctx ?n ?row"
        using room ty Some by (simp_all add: room_for_def Let_def)
      obtain db2 ctx' where ex: "executeInsert stmt db = Inr (db2, [out_line (''Inserted 1 row into '' @ quoted ?n @ ''.'')])"
        and x: "inserted ?ctx ?n info ?row ctx'" and c2: "db_ctx db2 = count_row ?n ctx'"
        by (rule insert_runs [OF inv Some len Nil r])
      have inv2: "ctx_inv (db_ctx db2)" unfolding c2 count_row_def by (rule ctx_inv_count) (use x in \<open>simp add: inserted_def\<close>)
      have "tables_of db2 m = ((tables_of db)(?n \<mapsto> (?sch, add_mset ?row (mset (table_rows ?ctx ?n))))) m" for m
        using x Some unfolding inserted_def tables_of_def c2 count_row_def by (cases "m = ?n") (auto simp: table_rows_count split: option.splits)
      then have "tables_of db2 = (tables_of db)(?n \<mapsto> (?sch, add_mset ?row (mset (table_rows ?ctx ?n))))" by blast
      then have "implements stmt db (db2, [out_line (''Inserted 1 row into '' @ quoted ?n @ ''.'')])"
        unfolding implements_def using inv2 ty t len Nil by (simp add: sql_spec_def sql_insert_def Let_def)
      with ex show ?thesis by blast
    qed
  qed
qed

lemma select_implements:
  assumes ty: "stmt_type stmt = SELECT" and inv: "ctx_inv (db_ctx db)" and room: "room_for stmt db"
  shows "\<exists>r. executeSelect stmt db = Inr r \<and> implements stmt db r"
proof (cases "getTable (tableName stmt) (ctx_catalog (db_ctx db))")
  case None
  then have "tables_of db (tableName stmt) = None" by (simp add: tables_of_dom)
  then show ?thesis using None inv ty
    by (intro exI [of _ "(db, [no_table (tableName stmt)])"] conjI rejected) (simp_all add: executeSelect_def sql_spec_def sql_select_def Let_def)
next
  case (Some info)
  let ?n = "tableName stmt" and ?sch = "ti_schema info" and ?ctx = "db_ctx db" and ?q = "where_matches (ti_schema info) stmt"
  note t = tables_of_Some [OF Some]
  show ?thesis
  proof (cases rule: build_predicate_spec [OF inv Some, of stmt, case_names ok bad])
    case bad
    then show ?thesis using Some inv ty t
      by (intro exI [of _ "(db, [no_column (wc_column (where_clause stmt))])"] conjI rejected)
        (simp_all add: executeSelect_def sql_spec_def sql_select_def Let_def)
  next
    case (ok p)
    obtain e ctx' where e: "exec_init (new_SeqScanExecutor ?n p) ?ctx = Inr (e, ctx')" "unchanged ?ctx ctx'"
      "rows e = Inr (filter ?q (table_rows ?ctx ?n))"
      by (rule seqscan_unchanged [OF inv Some ok(3)])
    let ?db = "db\<lparr>db_ctx := ctx'\<rparr>" and ?ts = "filter ?q (table_rows ?ctx ?n)"
    have same: "ctx_inv (db_ctx ?db)" "tables_of ?db = tables_of db" using e(2) by (simp_all add: unchanged_def tables_of_def fun_eq_iff split: option.split)
    have len: "length r = length ?sch" if "r \<in> set (table_rows ?ctx ?n)" for r
      using table_rows_ok [OF inv Some that] well_typed_length [of r ?sch] by (simp add: row_ok_def columnCount_def)
    have "length (table_rows ?ctx ?n) \<le> 2147483647" using room ty by (simp add: room_for_def Let_def)
    then have few: "length ?ts \<le> 2147483647" using length_filter_le [of ?q "table_rows ?ctx ?n"] by linarith
    have shown: "\<exists>r. executeSelect stmt db = Inr r \<and> implements stmt db r"
      if "output_columns ?sch stmt = Inr (cols, is)" "\<forall>r \<in> set (table_rows ?ctx ?n). row_cells is r = Inr (g r)"
        "sql_select stmt (tables_of db) = (Selected cols (image_mset g (filter_mset ?q (mset (table_rows ?ctx ?n)))), tables_of db)" for cols "is" g
    proof -
      have "\<forall>r \<in> set ?ts. row_cells is r = Inr (g r)" using that(2) by simp
      note pr = print_rows_spec [OF e(3) this few]
      have "executeSelect stmt db = Inr (?db, table_output cols (map g ?ts))"
        using Some ok(2) e(1) that(1) pr by (simp add: executeSelect_def table_output_def Let_def)
      moreover have "implements stmt db (?db, table_output cols (map g ?ts))"
        unfolding implements_def using same that(3) ty by (auto simp: sql_spec_def intro!: exI [of _ "map g ?ts"])
      ultimately show ?thesis by blast
    qed
    show ?thesis
    proof (cases "all_columns stmt")
      case True
      have "row_cells (map int [0..<length ?sch]) r = Inr (map value_toString r)" if "r \<in> set (table_rows ?ctx ?n)" for r
        using row_cells_full [of r] unfolding len [OF that] .
      then have cells: "\<forall>r \<in> set (table_rows ?ctx ?n). row_cells (map int [0..<length ?sch]) r = Inr (map value_toString r)" by blast
      have cols: "output_columns ?sch stmt = Inr (map col_name ?sch, map int [0..<length ?sch])"
        using True by (simp add: all_columns_def output_columns_def columnCount_def)
      show ?thesis by (rule shown [OF cols cells]) (use True t ok(1) in \<open>simp add: sql_select_def Let_def\<close>)
    next
      case False
      note si = select_indices_spec [of ?sch "selectColumns stmt"]
      show ?thesis
      proof (cases "filter (\<lambda>c. c \<notin> col_name ` set ?sch) (selectColumns stmt)")
        case Nil
        then have "set (selectColumns stmt) \<subseteq> col_name ` set ?sch" by (auto simp: filter_empty_conv)
        then have cells: "\<forall>r \<in> set (table_rows ?ctx ?n). row_cells (map (findColumn ?sch) (selectColumns stmt)) r = Inr (cells_of ?sch (selectColumns stmt) r)"
          using len by (simp add: row_cells_columns)
        have cols: "output_columns ?sch stmt = Inr (selectColumns stmt, map (findColumn ?sch) (selectColumns stmt))"
          using False si Nil by (simp add: all_columns_def output_columns_def)
        show ?thesis by (rule shown [OF cols cells]) (use False t ok(1) Nil in \<open>simp add: sql_select_def Let_def\<close>)
      next
        case (Cons c rest)
        have "executeSelect stmt db = Inr (?db, [no_column c])"
          using Some ok(2) e(1) False si Cons by (simp add: executeSelect_def all_columns_def output_columns_def Let_def)
        moreover have "implements stmt db (?db, [no_column c])"
          unfolding implements_def using same False t ok(1) Cons ty by (simp add: sql_spec_def sql_select_def Let_def)
        ultimately show ?thesis by blast
      qed
    qed
  qed
qed

lemma delete_implements:
  assumes ty: "stmt_type stmt = DELETE_STMT" and inv: "ctx_inv (db_ctx db)" and room: "room_for stmt db"
  shows "\<exists>r. executeDelete stmt db = Inr r \<and> implements stmt db r"
proof (cases "getTable (tableName stmt) (ctx_catalog (db_ctx db))")
  case None
  then have "tables_of db (tableName stmt) = None" by (simp add: tables_of_dom)
  then show ?thesis using None inv ty
    by (intro exI [of _ "(db, [no_table (tableName stmt)])"] conjI rejected) (simp_all add: executeDelete_def sql_spec_def sql_delete_def Let_def)
next
  case (Some info)
  let ?n = "tableName stmt" and ?sch = "ti_schema info" and ?ctx = "db_ctx db" and ?q = "where_matches (ti_schema info) stmt"
  note t = tables_of_Some [OF Some]
  show ?thesis
  proof (cases rule: build_predicate_spec [OF inv Some, of stmt, case_names ok bad])
    case bad
    then show ?thesis using Some inv ty t
      by (intro exI [of _ "(db, [no_column (wc_column (where_clause stmt))])"] conjI rejected)
        (simp_all add: executeDelete_def sql_spec_def sql_delete_def Let_def)
  next
    case (ok p)
    let ?ts = "filter ?q (table_rows ?ctx ?n)"
    have r: "txn_room db" "length (table_rows ?ctx ?n) \<le> 2147483647" using room ty by (simp_all add: room_for_def Let_def)
    have few: "length ?ts \<le> 2147483647" using r(2) length_filter_le [of ?q "table_rows ?ctx ?n"] by linarith
    obtain tx db1 where b: "begin_txn db = Inr (tx, db1)" "db_ctx db1 = ?ctx" by (rule begin_txn_spec [OF r(1)])
    obtain x ctx' where x: "exec_init (new_DeleteExecutor ?n p) ?ctx = Inr (DeleteExecutor x, ctx')" "deleted ?ctx ?n info ?q ctx'"
      "rows (DeleteExecutor x) = Inr [[IntValue (int (length ?ts))]]"
      using delete_init_spec [OF inv Some ok(3) few] by blast
    have run: "run_once (new_DeleteExecutor ?n p) db1 = Inr ([IntValue (int (length ?ts))], db1\<lparr>db_ctx := ctx'\<rparr>)"
      by (rule run_once_spec [OF _ x(3)]) (use x(1) b(2) in simp)
    let ?db2 = "commit_txn tx (db1\<lparr>db_ctx := ctx'\<rparr>)"
    have ex: "executeDelete stmt db = Inr (?db2, [out_line (''Deleted '' @ nat_to_string (length ?ts) @ '' row(s) from '' @ quoted ?n @ ''.'')])"
      using Some ok(2) b(1) run by (simp add: executeDelete_def Let_def getValue_def)
    have sub: "ti_schema (subtract_rows k info) = ti_schema info" for k by (simp add: subtract_rows_def Let_def)
    have "tables_of ?db2 m = ((tables_of db)(?n \<mapsto> (?sch, filter_mset (\<lambda>t. \<not> ?q t) (mset (table_rows ?ctx ?n))))) m" for m
      using x(2) Some sub unfolding deleted_def tables_of_def by (cases "m = ?n") (auto split: option.splits)
    then have tb: "tables_of ?db2 = (tables_of db)(?n \<mapsto> (?sch, filter_mset (\<lambda>t. \<not> ?q t) (mset (table_rows ?ctx ?n))))" by blast
    have "size (filter_mset ?q (mset (table_rows ?ctx ?n))) = length ?ts" by (metis mset_filter size_mset)
    then have "implements stmt db (?db2, [out_line (''Deleted '' @ nat_to_string (length ?ts) @ '' row(s) from '' @ quoted ?n @ ''.'')])"
      unfolding implements_def using x(2) tb ty t ok(1) by (simp add: sql_spec_def sql_delete_def Let_def deleted_def)
    with ex show ?thesis by blast
  qed
qed

text \<open>The plan of a statement leads to the operation of its kind.\<close>

lemma execute_stmt_dispatch:
  "execute_stmt grow stmt db = (case stmt_type stmt of CREATE_TABLE \<Rightarrow> executeCreateTable grow stmt db | INSERT \<Rightarrow> executeInsert stmt db
     | SELECT \<Rightarrow> executeSelect stmt db | DELETE_STMT \<Rightarrow> executeDelete stmt db)"
proof (cases "stmt_type stmt")
  case SELECT
  show ?thesis
    by (cases rule: optimize_scan_cases [of "ctx_catalog (db_ctx db)" stmt])
      (use SELECT in \<open>auto simp: execute_stmt_def optimize_def optimizeSelect_def executePlan_def set_selectAll_def\<close>)
qed (simp_all add: execute_stmt_def optimize_def optimizeInsert_def optimizeDelete_def executePlan_def Let_def)

lemma execute_stmt_implements:
  assumes "ctx_inv (db_ctx db)" "room_for stmt db"
  shows "\<exists>r. execute_stmt grow stmt db = Inr r \<and> implements stmt db r"
  unfolding execute_stmt_dispatch
  using create_implements [OF _ assms] insert_implements [OF _ assms] select_implements [OF _ assms] delete_implements [OF _ assms]
  by (cases "stmt_type stmt") simp_all


section \<open>Sessions\<close>

text \<open>The parser fails with a parse error only, which \<open>execute\<close> reports.\<close>

lemma execute_cases:
  obtains (error) msg where "parse (handleInput sql) = Inl (RuntimeError msg)"
      "execute grow sql db = Inr (db, new_Lexer @ [err_line (''Parse Error: '' @ msg)])"
  | (stmt) stmt where "parse (handleInput sql) = Inr stmt"
      "execute grow sql db = bindE (execute_stmt grow stmt db) (\<lambda>(db, out). Inr (db, new_Lexer @ out))"
  using safe_parse [OF eof_terminated_lex, of sql]
  by (cases "parse (handleInput sql)") (auto simp: handleInput_def execute_def is_parse_error_def parse_error_def)

text \<open>A script of statement texts: what it should answer, and that the resources last.\<close>

definition sql_answer :: "string \<Rightarrow> tables \<Rightarrow> answer \<times> tables" where
  "sql_answer sql ts = (case parse (handleInput sql) of
      Inl (RuntimeError msg) \<Rightarrow> (Rejected (err_line (''Parse Error: '' @ msg)), ts)
    | Inl _ \<Rightarrow> (Rejected (err_line ''''), ts)
    | Inr stmt \<Rightarrow> sql_spec stmt ts)"

fun sql_script :: "string list \<Rightarrow> tables \<Rightarrow> answer list \<times> tables" where
  "sql_script [] ts = ([], ts)"
| "sql_script (sql # sqls) ts = (let (a, ts) = sql_answer sql ts; (as, ts) = sql_script sqls ts in (a # as, ts))"

fun script_room :: "(nat \<Rightarrow> nat) \<Rightarrow> string list \<Rightarrow> MiniDB \<Rightarrow> bool" where
  "script_room grow [] db = True"
| "script_room grow (sql # sqls) db =
     ((case parse (handleInput sql) of Inl _ \<Rightarrow> True | Inr stmt \<Rightarrow> room_for stmt db) \<and>
      (case execute grow sql db of Inl _ \<Rightarrow> True | Inr (db, _) \<Rightarrow> script_room grow sqls db))"

fun run_script :: "(nat \<Rightarrow> nat) \<Rightarrow> string list \<Rightarrow> MiniDB \<Rightarrow> (MiniDB \<times> console list list) res" where
  "run_script grow [] db = Inr (db, [])"
| "run_script grow (sql # sqls) db =
     bindE (execute grow sql db) (\<lambda>(db, out). bindE (run_script grow sqls db) (\<lambda>(db, outs). Inr (db, out # outs)))"

lemma execute_answers:
  assumes "ctx_inv (db_ctx db)" "case parse (handleInput sql) of Inl _ \<Rightarrow> True | Inr stmt \<Rightarrow> room_for stmt db"
  obtains db' out where "execute grow sql db = Inr (db', out)" "ctx_inv (db_ctx db')" "tables_of db' = snd (sql_answer sql (tables_of db))"
    "responds (fst (sql_answer sql (tables_of db))) out"
proof (cases rule: execute_cases [of sql grow db])
  case (error msg)
  then show thesis using assms(1) by (intro that [of db]) (simp_all add: sql_answer_def responds_def)
next
  case (stmt s)
  then obtain r where "execute_stmt grow s db = Inr r" "implements s db r" using execute_stmt_implements [OF assms(1), of s] assms(2) by (simp del: split_paired_Ex) blast
  then show thesis using stmt by (intro that [of "fst r" "new_Lexer @ snd r"])
    (simp_all add: implements_def sql_answer_def responds_def case_prod_unfold)
qed

lemma script_answers:
  assumes "ctx_inv (db_ctx db)" "script_room grow sqls db"
  shows "\<exists>db' outs. run_script grow sqls db = Inr (db', outs) \<and> ctx_inv (db_ctx db') \<and>
    tables_of db' = snd (sql_script sqls (tables_of db)) \<and> list_all2 responds (fst (sql_script sqls (tables_of db))) outs"
  using assms
proof (induction sqls arbitrary: db)
  case (Cons sql sqls)
  obtain db1 out where o: "execute grow sql db = Inr (db1, out)" "ctx_inv (db_ctx db1)" "tables_of db1 = snd (sql_answer sql (tables_of db))"
    "responds (fst (sql_answer sql (tables_of db))) out"
    by (rule execute_answers [OF Cons.prems(1), of sql grow]) (use Cons.prems(2) in simp_all)
  have "script_room grow sqls db1" using Cons.prems(2) o(1) by simp
  then obtain db' outs where "run_script grow sqls db1 = Inr (db', outs)" "ctx_inv (db_ctx db')"
    "tables_of db' = snd (sql_script sqls (tables_of db1))" "list_all2 responds (fst (sql_script sqls (tables_of db1))) outs"
    using Cons.IH [OF o(2)] by blast
  with o show ?case by (simp add: Let_def case_prod_unfold)
qed simp

text \<open>The loop on lines that are statements.\<close>

definition is_statement :: "string \<Rightarrow> bool" where
  "is_statement l \<longleftrightarrow> CHR 0x0A \<notin> set l \<and> l \<noteq> [] \<and> \<not> is_exit l \<and> l \<noteq> ''.help''"

abbreviation unlines :: "string list \<Rightarrow> string" where
  "unlines ls \<equiv> concat (map (\<lambda>l. l @ NL) ls)"

lemma getline_line [simp]:
  assumes "CHR 0x0A \<notin> set l"
  shows "getline \<lparr>in_rest = l @ CHR 0x0A # rest, in_good = True\<rparr> x = (l, \<lparr>in_rest = rest, in_good = True\<rparr>)"
proof -
  have "takeWhile (\<lambda>c. c \<noteq> CHR 0x0A) (l @ CHR 0x0A # rest) = l" "dropWhile (\<lambda>c. c \<noteq> CHR 0x0A) (l @ CHR 0x0A # rest) = CHR 0x0A # rest"
    using assms by (subst takeWhile_append2, auto, subst dropWhile_append2, auto)
  then show ?thesis by (simp add: getline_def Let_def)
qed

definition transcript :: "console list list \<Rightarrow> console list" where
  "transcript outs = concat (map (\<lambda>out. Out ''minidb> '' # out) outs)"

lemma repl_run_add:
  "repl_run grow m rp = Running rp' \<Longrightarrow> repl_run grow (m + n) rp = repl_run grow n rp'"
  by (induction m arbitrary: rp) (auto split: outcome.splits)

lemma repl_statements:
  assumes "\<forall>l \<in> set ls. is_statement l" "run_script grow ls (rp_db rp) = Inr (db', outs)"
    "rp_in rp = \<lparr>in_rest = unlines ls @ rest, in_good = True\<rparr>"
  shows "\<exists>x. repl_run grow (length ls) rp = Running \<lparr>rp_db = db', rp_in = \<lparr>in_rest = rest, in_good = True\<rparr>, rp_input = x,
    rp_out = rp_out rp @ transcript outs\<rparr>"
  using assms
proof (induction ls arbitrary: rp outs)
  case Nil
  then show ?case by (intro exI [of _ "rp_input rp"]) (simp add: transcript_def)
next
  case (Cons l ls)
  obtain db1 out outs' where o: "execute grow l (rp_db rp) = Inr (db1, out)" "run_script grow ls db1 = Inr (db', outs')" "outs = out # outs'"
    using Cons.prems(2) by (auto elim!: bindE_InrE)
  let ?rp = "\<lparr>rp_db = db1, rp_in = \<lparr>in_rest = unlines ls @ rest, in_good = True\<rparr>, rp_input = l, rp_out = rp_out rp @ [Out ''minidb> ''] @ out\<rparr>"
  have l: "CHR 0x0A \<notin> set l" "l \<noteq> []" "\<not> is_exit l" "l \<noteq> ''.help''" using Cons.prems(1) by (simp_all add: is_statement_def)
  have "repl_turn grow rp = Running ?rp"
    using o(1) l Cons.prems(3) by (simp add: repl_turn_def Let_def)
  moreover obtain x where "repl_run grow (length ls) ?rp = Running \<lparr>rp_db = db', rp_in = \<lparr>in_rest = rest, in_good = True\<rparr>, rp_input = x,
      rp_out = rp_out ?rp @ transcript outs'\<rparr>"
    using Cons.IH [of ?rp outs'] Cons.prems(1) o(2) by auto
  ultimately show ?case using o(3) by (auto simp: transcript_def)
qed


section \<open>Closing the engine\<close>

lemma heap_same_pages:
  assumes "heap_inv s" "same_files s' s" "same_pages s' s"
  shows "heap s' f = heap s f" "table_open s' f = table_open s f"
proof -
  show op: "table_open s' f = table_open s f" using assms(2) by (simp add: same_files_def)
  show "heap s' f = heap s f"
    using assms heap_inv_facts(8) [OF assms(1), of f] op by (auto simp: heap_def getPageCount_def same_files_def same_pages_def)
qed

text \<open>The destructor leaves every row where it was, and the files on disk hold what the pool showed.\<close>

lemma close_spec:
  assumes "ctx_inv (db_ctx db)"
  obtains db' where "close_MiniDB db = Inr db'" "tables_of db' = tables_of db"
    "\<forall>f p. page_ok f p \<longrightarrow> disk_page (st_disk (ctx_storage (db_ctx db'))) f p = page_view (ctx_storage (db_ctx db)) f p"
proof -
  note i = ctx_inv_facts [OF assms]
  let ?s = "ctx_storage (db_ctx db)"
  obtain s' where s: "flushAllPages ?s = Inr s'" "same_files s' ?s" "same_pages s' ?s" "\<forall>f p. page_ok f p \<longrightarrow> disk_page (st_disk s') f p = page_view ?s f p"
    using flushAllPages_spec [OF heap_inv_facts(2) [OF i(2)]] by blast
  let ?db = "db\<lparr>db_ctx := (db_ctx db)\<lparr>ctx_storage := s'\<rparr>\<rparr>"
  have rows: "heap_list s' (ti_fileId info) = heap_list ?s (ti_fileId info)" if "getTable n (ctx_catalog (db_ctx db)) = Some info" for n info
    by (rule heap_list_unique) (use heap_same_pages [OF i(2) s(2,3)] i(3) [OF that] in simp_all)
  have "tables_of ?db n = tables_of db n" for n
    using rows by (auto simp: tables_of_def table_rows_def stored_rows_def split: option.splits)
  then have "tables_of ?db = tables_of db" by blast
  then show thesis using s(1,4) by (intro that [of ?db]) (simp_all add: close_MiniDB_def with_storage_def)
qed

section \<open>The end of the input\<close>

lemma getline_last [simp]:
  "CHR 0x0A \<notin> set l \<Longrightarrow> getline \<lparr>in_rest = l, in_good = True\<rparr> x = (l, \<lparr>in_rest = [], in_good = False\<rparr>)"
  by (subst getline_def) (auto simp: Let_def takeWhile_eq_all_conv dropWhile_eq_Nil_conv)

lemma getline_bad [simp]: "getline \<lparr>in_rest = r, in_good = False\<rparr> x = (x, \<lparr>in_rest = r, in_good = False\<rparr>)"
  by (simp add: getline_def)

lemma repeat_last:
  assumes "is_statement l" "rp_in rp = \<lparr>in_rest = [], in_good = False\<rparr>" "rp_input rp = l" "run_script grow (replicate k l) (rp_db rp) = Inr (db', outs)"
  shows "repl_run grow k rp = Running (rp\<lparr>rp_db := db', rp_out := rp_out rp @ transcript outs\<rparr>)"
  using assms
proof (induction k arbitrary: rp outs)
  case (Suc k)
  obtain db1 out outs' where o: "execute grow l (rp_db rp) = Inr (db1, out)" "run_script grow (replicate k l) db1 = Inr (db', outs')" "outs = out # outs'"
    using Suc.prems(4) by (auto elim!: bindE_InrE)
  let ?rp = "rp\<lparr>rp_db := db1, rp_out := rp_out rp @ [Out ''minidb> ''] @ out\<rparr>"
  have "repl_turn grow rp = Running ?rp"
    using o(1) Suc.prems(1-3) by (simp add: repl_turn_def Let_def is_statement_def)
  moreover have "repl_run grow k ?rp = Running (?rp\<lparr>rp_db := db', rp_out := rp_out ?rp @ transcript outs'\<rparr>)"
    by (rule Suc.IH) (use Suc.prems o(2) in simp_all)
  ultimately show ?case using o(3) by (simp add: transcript_def)
qed (simp add: transcript_def)

lemma run_script_append:
  "run_script grow (xs @ ys) db = bindE (run_script grow xs db) (\<lambda>(db, o1). bindE (run_script grow ys db) (\<lambda>(db, o2). Inr (db, o1 @ o2)))"
proof (induction xs arbitrary: db)
  case Nil
  then show ?case by (cases "run_script grow ys db") auto
next
  case (Cons x xs)
  show ?case by (cases "execute grow x db") (auto simp: Cons bindE_assoc case_prod_unfold)
qed

text \<open>After the end of the input with nothing read, the loop only prompts.\<close>

lemma repl_idle:
  assumes "rp_in rp = \<lparr>in_rest = [], in_good = g\<rparr>" "g \<or> rp_input rp = []"
  shows "\<exists>is x. repl_run grow k rp = Running (rp\<lparr>rp_in := is, rp_input := x, rp_out := rp_out rp @ replicate k (Out ''minidb> '')\<rparr>)"
  using assms
proof (induction k arbitrary: rp g)
  case 0
  then show ?case by (intro exI [of _ "rp_in rp"] exI [of _ "rp_input rp"]) simp
next
  case (Suc k)
  let ?rp = "rp\<lparr>rp_in := \<lparr>in_rest = [], in_good = False\<rparr>, rp_input := [], rp_out := rp_out rp @ [Out ''minidb> '']\<rparr>"
  have "repl_turn grow rp = Running ?rp" using Suc.prems by (auto simp: repl_turn_def getline_def is_exit_def)
  moreover obtain "is" x where "repl_run grow k ?rp = Running (?rp\<lparr>rp_in := is, rp_input := x,
      rp_out := rp_out ?rp @ replicate k (Out ''minidb> '')\<rparr>)"
    using Suc.IH [of ?rp False] by (simp del: repl_run.simps) blast
  ultimately show ?case by (intro exI [of _ "is"] exI [of _ x]) simp
qed

section \<open>Properties\<close>

text \<open>A database with one empty table, and two statements on it, for the witnesses.\<close>

definition sample_db :: "ExecutionContext \<Rightarrow> MiniDB" where
  "sample_db ctx = \<lparr>db_ctx = ctx, db_lockMgr = new_LockManager, db_txnMgr = new_TransactionManager,
     db_logMgr = \<lparr>lm_disk = [], lm_pending = [], lm_isOpen = True, lm_nextLSN = 1\<rparr>\<rparr>"

definition sample_INSERT :: Statement where
  "sample_INSERT = (new_Statement INSERT)\<lparr>tableName := ''t'', stmt_values := [''7'', ''ab'']\<rparr>"

definition sample_SELECT :: Statement where
  "sample_SELECT = (new_Statement SELECT)\<lparr>tableName := ''t'', selectAll := True\<rparr>"

abbreviation sample_lines :: "string list" where
  "sample_lines \<equiv> [statementToString sample_INSERT, statementToString sample_SELECT]"

lemma sample_parse:
  "parse (handleInput (statementToString sample_INSERT)) = Inr sample_INSERT"
  "parse (handleInput (statementToString sample_SELECT)) = Inr sample_SELECT"
proof -
  have "printable sample_INSERT"
    by (simp add: sample_INSERT_def printable_def printable_where_def is_name_def is_value_text_def is_number_def is_word_def kw_eval new_Statement_def)
  then show "parse (handleInput (statementToString sample_INSERT)) = Inr sample_INSERT"
    using parse_print_INSERT [of sample_INSERT] by (simp add: handleInput_def sample_INSERT_def new_Statement_def)
  have "printable sample_SELECT"
    by (simp add: sample_SELECT_def printable_def printable_where_def is_name_def is_value_text_def is_number_def is_word_def kw_eval new_Statement_def)
  then show "parse (handleInput (statementToString sample_SELECT)) = Inr sample_SELECT"
    using parse_print_SELECT [of sample_SELECT] by (simp add: handleInput_def sample_SELECT_def new_Statement_def)
qed

lemma stoi_7: "stoi ''7'' = Inr 7"
  by (simp add: stoi_def isspace_def isdigit_def digits_val_def digit_val_def in_int32_def Let_def)

lemma sample_typed: "typed_row sample_schema [''7'', ''ab''] = map Some sample_row"
  by (simp add: sample_schema_def typed_value_def stoi_7)

lemma sample_room:
  assumes c: "ctx_inv ctx" "getTable ''t'' (ctx_catalog ctx) = Some info" "ti_schema info = sample_schema"
    "index_of ctx ''t'' = Map.empty" "map_option bt_maxLeafKeys (getIndex ''t'' ctx) = Some 127" "getPageCount (ti_fileId info) (ctx_storage ctx) = 1"
  shows "room_for sample_INSERT (sample_db ctx)"
proof -
  have "index_room ctx ''t'' sample_row" by (rule index_room_few [OF c(5)]) (simp add: c(4))
  then show ?thesis using c(2,3,6) sample_row_ok(2) sample_typed
    by (simp add: room_for_def sample_INSERT_def new_Statement_def sample_db_def txn_room_def new_TransactionManager_def in_int32_def)
qed


lemma sample_lines_ok: "\<forall>l \<in> set sample_lines. is_statement l"
  by (simp add: is_statement_def is_exit_def statementToString_def sample_INSERT_def sample_SELECT_def new_Statement_def show_where_def)

lemma sample_script:
  assumes c: "ctx_inv ctx" "getTable ''t'' (ctx_catalog ctx) = Some info" "ti_schema info = sample_schema" "table_rows ctx ''t'' = []"
    "index_of ctx ''t'' = Map.empty" "map_option bt_maxLeafKeys (getIndex ''t'' ctx) = Some 127" "getPageCount (ti_fileId info) (ctx_storage ctx) = 1"
  shows "script_room Suc sample_lines (sample_db ctx)"
    "sql_script sample_lines (tables_of (sample_db ctx)) = ([Inserted ''t'', Selected [''id'', ''name''] {#[''7'', ''ab'']#}],
       (tables_of (sample_db ctx))(''t'' \<mapsto> (sample_schema, {#sample_row#})))"
proof -
  let ?db = "sample_db ctx"
  note r = sample_room [OF c(1-3,5-7)]
  have t: "tables_of ?db ''t'' = Some (sample_schema, {#})" using c(2-4) by (simp add: tables_of_def sample_db_def)
  have f: "filter (\<lambda>(c, v). v = None) (zip sample_schema (map Some sample_row)) = []" "length sample_schema = 2" by (simp_all add: sample_schema_def)
  have a: "sql_spec sample_INSERT (tables_of ?db) = (Inserted ''t'', (tables_of ?db)(''t'' \<mapsto> (sample_schema, {#sample_row#})))"
    using t f sample_typed by (simp add: sql_spec_def sample_INSERT_def new_Statement_def sql_insert_def Let_def)
  have i: "ctx_inv (db_ctx ?db)" using c(1) by (simp add: sample_db_def)
  obtain db1 out where o: "execute Suc (statementToString sample_INSERT) ?db = Inr (db1, out)" "ctx_inv (db_ctx db1)"
    "tables_of db1 = snd (sql_answer (statementToString sample_INSERT) (tables_of ?db))"
    by (rule execute_answers [OF i, of "statementToString sample_INSERT" Suc]) (use r sample_parse in simp_all)
  have t1: "tables_of db1 ''t'' = Some (sample_schema, {#sample_row#})" using o(3) a sample_parse(1) by (simp add: sql_answer_def)
  then have "mset (table_rows (db_ctx db1) ''t'') = {#sample_row#}" by (simp add: tables_of_def split: option.splits)
  then have "length (table_rows (db_ctx db1) ''t'') = 1" by (metis size_mset size_single)
  then have "room_for sample_SELECT db1" by (simp add: room_for_def sample_SELECT_def new_Statement_def)
  then show "script_room Suc sample_lines ?db" using r o(1) sample_parse by (auto split: sum.split)
  have v: "map value_toString sample_row = [''7'', ''ab'']" by code_simp
  have n: "map col_name sample_schema = [''id'', ''name'']" by (simp add: sample_schema_def)
  have b: "sql_spec sample_SELECT ((tables_of ?db)(''t'' \<mapsto> (sample_schema, {#sample_row#}))) =
      (Selected [''id'', ''name''] {#[''7'', ''ab'']#}, (tables_of ?db)(''t'' \<mapsto> (sample_schema, {#sample_row#})))"
    using v n by (simp add: sql_spec_def sample_SELECT_def new_Statement_def sql_select_def where_column_ok_def where_matches_def all_columns_def)
  show "sql_script sample_lines (tables_of ?db) = ([Inserted ''t'', Selected [''id'', ''name''] {#[''7'', ''ab'']#}],
       (tables_of ?db)(''t'' \<mapsto> (sample_schema, {#sample_row#})))"
    using a b sample_parse by (simp add: sql_answer_def Let_def)
qed

text \<open>C1: a session does what SQL means.  On an input of statements, one on each line, followed by an exit command,
  and as long as the resources of \<open>script_room\<close> last (rows that fit a page, room in the index, files that can be
  opened and grow, transaction numbers, row counts), the program runs to its end: it prints for every statement
  the lexer's line and the answer the contract gives (a syntax error included), says goodbye, and leaves the
  tables as the contract says.\<close>

theorem session_refines_spec:
  assumes "ctx_inv (db_ctx db)" "\<forall>l \<in> set ls. is_statement l" "script_room grow ls db" "is_exit x"
  shows "\<exists>db' outs. main_run grow (Suc (length ls)) db (unlines (ls @ [x]) @ rest) =
      Exited db' (banner @ transcript outs @ [Out ''minidb> '', out_line ''Goodbye!'']) \<and>
    list_all2 responds (fst (sql_script ls (tables_of db))) outs \<and> tables_of db' = snd (sql_script ls (tables_of db))"
proof -
  obtain db1 outs where s: "run_script grow ls db = Inr (db1, outs)" "ctx_inv (db_ctx db1)"
    "tables_of db1 = snd (sql_script ls (tables_of db))" "list_all2 responds (fst (sql_script ls (tables_of db))) outs"
    using script_answers [OF assms(1,3)] by blast
  let ?rp = "start_repl db (unlines (ls @ [x]) @ rest)"
  have x: "CHR 0x0A \<notin> set x" using assms(4) by (auto simp: is_exit_def)
  obtain y where y: "repl_run grow (length ls) ?rp =
      Running \<lparr>rp_db = db1, rp_in = \<lparr>in_rest = x @ NL @ rest, in_good = True\<rparr>, rp_input = y, rp_out = banner @ transcript outs\<rparr>"
    using repl_statements [OF assms(2), of grow ?rp db1 outs "x @ NL @ rest"] s(1) by (auto simp: start_repl_def)
  have "repl_run grow (Suc (length ls)) ?rp = Exited db1 (banner @ transcript outs @ [Out ''minidb> '', out_line ''Goodbye!''])"
    using repl_run_add [OF y, of 1] x assms(4) by (simp add: repl_turn_def Let_def)
  moreover obtain db' where "close_MiniDB db1 = Inr db'" "tables_of db' = tables_of db1" by (rule close_spec [OF s(2)])
  ultimately show ?thesis using s(3,4) unfolding main_run_def
    by (intro exI [of _ db'] exI [of _ outs]) (simp del: repl_run.simps)
qed

theorem session_refines_spec_witness:
  "\<exists>db db' outs. main_run Suc 3 db (unlines (sample_lines @ [''.exit''])) = Exited db' (banner @ transcript outs @ [Out ''minidb> '', out_line ''Goodbye!'']) \<and>
     outs = [[out_line ''Initializing lexer...'', out_line (''Inserted 1 row into '' @ quoted ''t'' @ ''.'')],
       out_line ''Initializing lexer...'' # table_output [''id'', ''name''] [[''7'', ''ab'']]] \<and>
     tables_of db' ''t'' = Some (sample_schema, {#sample_row#})"
proof -
  obtain ctx info where c: "ctx_inv ctx" "getTable ''t'' (ctx_catalog ctx) = Some info" "ti_schema info = sample_schema" "table_rows ctx ''t'' = []"
    "index_of ctx ''t'' = Map.empty" "map_option bt_maxLeafKeys (getIndex ''t'' ctx) = Some 127" "getPageCount (ti_fileId info) (ctx_storage ctx) = 1"
    by (rule sample_ctx)
  have i: "ctx_inv (db_ctx (sample_db ctx))" using c(1) by (simp add: sample_db_def)
  note s = sample_script [OF c]
  obtain db' outs where r: "main_run Suc 3 (sample_db ctx) (unlines (sample_lines @ [''.exit''])) =
      Exited db' (banner @ transcript outs @ [Out ''minidb> '', out_line ''Goodbye!''])"
    "list_all2 responds [Inserted ''t'', Selected [''id'', ''name''] {#[''7'', ''ab'']#}] outs" "tables_of db' ''t'' = Some (sample_schema, {#sample_row#})"
    using session_refines_spec [OF i sample_lines_ok s(1), of "''.exit''" "''''"] s(2) by (auto simp: is_exit_def numeral_3_eq_3)
  have "outs = [[out_line ''Initializing lexer...'', out_line (''Inserted 1 row into '' @ quoted ''t'' @ ''.'')],
      out_line ''Initializing lexer...'' # table_output [''id'', ''name''] [[''7'', ''ab'']]]"
    using r(2) by (auto simp: list_all2_Cons1 mset_single_iff_right responds_def new_Lexer_def)
  with r show ?thesis by blast
qed


text \<open>C17: the types of the columns hold for every row.  Whatever statements are run on a new engine, as long as the
  resources of \<open>script_room\<close> last (in particular every inserted row fits a page and its key the index), every row of
  every table matches the schema the table was created with, as \<open>matchesSchema\<close> decides.\<close>

theorem stored_rows_match_schema:
  assumes "new_MiniDB os openable wal can_open = Inr db" "script_room grow ls db" "run_script grow ls db = Inr (db', outs)"
    "getTable n (ctx_catalog (db_ctx db')) = Some info" "t \<in> set (table_rows (db_ctx db') n)"
  shows "matchesSchema t (ti_schema info) = Inr True"
proof -
  have "ctx_inv (db_ctx db)" using assms(1) ctx_inv_empty [of 256 os openable] by (auto simp: new_MiniDB_def elim!: bindE_InrE)
  then have "ctx_inv (db_ctx db')" using script_answers [of db grow ls] assms(2,3) by auto
  then show ?thesis using table_rows_ok [OF _ assms(4,5)] by (simp add: matchesSchema_iff row_ok_def)
qed

definition sample_CREATE :: Statement where
  "sample_CREATE = (new_Statement CREATE_TABLE)\<lparr>tableName := ''t'', columns := [\<lparr>cd_name = ''id'', cd_type = ''INT''\<rparr>, \<lparr>cd_name = ''name'', cd_type = ''TEXT''\<rparr>]\<rparr>"

abbreviation create_lines :: "string list" where
  "create_lines \<equiv> [statementToString sample_CREATE, statementToString sample_INSERT]"

lemma sample_parse_CREATE: "parse (handleInput (statementToString sample_CREATE)) = Inr sample_CREATE"
proof -
  have "is_name ''t''" "is_name ''id''" "is_name ''name''" by code_simp+
  then have "printable sample_CREATE"
    by (simp add: sample_CREATE_def printable_def printable_where_def is_column_def_def new_Statement_def)
  then show ?thesis using parse_print_CREATE [of sample_CREATE] by (simp add: handleInput_def sample_CREATE_def new_Statement_def)
qed

text \<open>A session on a new engine, for the witnesses: a table is created and a row inserted.\<close>

lemma sample_session:
  obtains db db1 db2 outs info where "new_MiniDB Map.empty (\<lambda>_. True) [] True = Inr db" "script_room Suc create_lines db"
    "run_script Suc create_lines db = Inr (db2, outs)" "getTable ''t'' (ctx_catalog (db_ctx db2)) = Some info"
    "ti_schema info = sample_schema" "table_rows (db_ctx db2) ''t'' = [sample_row]"
proof -
  define db where "db = \<lparr>db_ctx = \<lparr>ctx_catalog = [], ctx_storage = \<lparr>st_disk = new_DiskManager Map.empty (\<lambda>_. True), st_pool = new_BufferPool 256\<rparr>,
      ctx_indexes = Map.empty\<rparr>, db_lockMgr = new_LockManager, db_txnMgr = new_TransactionManager,
      db_logMgr = \<lparr>lm_disk = [], lm_pending = [], lm_isOpen = True, lm_nextLSN = 1\<rparr>\<rparr>"
  have new: "new_MiniDB Map.empty (\<lambda>_. True) [] True = Inr db" by (simp add: new_MiniDB_def open_log_def db_def)
  have inv: "ctx_inv (db_ctx db)" using ctx_inv_empty [of 256 Map.empty "\<lambda>_. True"] by (simp add: db_def)
  have fr: "fresh_table (ctx_storage (db_ctx db)) ''t''" by (simp add: fresh_table_def db_def new_DiskManager_def)
  have nt: "getTable ''t'' (ctx_catalog (db_ctx db)) = None" by (simp add: getTable_def db_def)
  have sch: "build_schema (columns sample_CREATE) = sample_schema" by (simp add: build_schema_map sample_CREATE_def sample_schema_def)
  obtain f s where s: "createTable ''t'' (ctx_storage (db_ctx db)) = Inr (f, s)"
    "created (db_ctx db) ''t'' sample_schema (add_table ''t'' sample_schema f s (new_BPlusTree Suc 128) (db_ctx db))"
    by (rule add_table_spec [OF inv fr nt])
  let ?ctx = "add_table ''t'' sample_schema f s (new_BPlusTree Suc 128) (db_ctx db)"
  let ?db1 = "db\<lparr>db_ctx := ?ctx\<rparr>"
  obtain info where c: "ctx_inv ?ctx" "getTable ''t'' (ctx_catalog ?ctx) = Some info" "ti_schema info = sample_schema" "table_rows ?ctx ''t'' = []"
    "index_of ?ctx ''t'' = Map.empty" "map_option bt_maxLeafKeys (getIndex ''t'' ?ctx) = Some 127" "getPageCount (ti_fileId info) (ctx_storage ?ctx) = 1"
    using s(2) unfolding created_def by (elim conjE exE) (rule that; assumption)
  have "execute_stmt Suc sample_CREATE db = Inr (?db1, [out_line (''Table '' @ quoted ''t'' @ '' created with '' @ nat_to_string (length sample_schema) @ '' columns.'')])"
    using s(1) nt sch by (simp add: execute_stmt_def executeCreateTable_def tableExists_def getTable_def sample_CREATE_def new_Statement_def Let_def
      with_storage_def add_table_def columnCount_def)
  then have e1: "execute Suc (statementToString sample_CREATE) db =
      Inr (?db1, new_Lexer @ [out_line (''Table '' @ quoted ''t'' @ '' created with '' @ nat_to_string (length sample_schema) @ '' columns.'')])"
    using sample_parse_CREATE by (simp add: execute_def)
  have d1: "?db1 = sample_db ?ctx" by (simp add: sample_db_def db_def)
  have r1: "room_for sample_CREATE db" using fr by (simp add: room_for_def sample_CREATE_def new_Statement_def)
  have r2: "room_for sample_INSERT ?db1" unfolding d1 by (rule sample_room [OF c(1-3,5-7)])
  have room: "script_room Suc create_lines db"
    using r1 r2 e1 sample_parse_CREATE sample_parse(1) by (auto split: sum.split)
  have i1: "ctx_inv (db_ctx ?db1)" using c(1) by simp
  have e: "(case parse (handleInput (statementToString sample_INSERT)) of Inl _ \<Rightarrow> True | Inr stmt \<Rightarrow> room_for stmt ?db1)"
    using sample_parse(1) r2 by simp
  obtain db2 out where o: "execute Suc (statementToString sample_INSERT) ?db1 = Inr (db2, out)"
    "tables_of db2 = snd (sql_answer (statementToString sample_INSERT) (tables_of ?db1))"
    by (rule execute_answers [OF i1 e, of Suc])
  have run: "\<exists>outs. run_script Suc create_lines db = Inr (db2, outs)" using e1 o(1) by simp
  have "tables_of ?db1 ''t'' = Some (sample_schema, {#})" using c(2-4) by (simp add: tables_of_def del: add_table_simps)
  moreover have "filter (\<lambda>(c, v). v = None) (zip sample_schema (map Some sample_row)) = []" "length sample_schema = 2"
    by (simp_all add: sample_schema_def)
  ultimately have "tables_of db2 ''t'' = Some (sample_schema, {#sample_row#})"
    using o(2) sample_parse(1) sample_typed by (simp add: sql_answer_def sql_spec_def sample_INSERT_def new_Statement_def sql_insert_def Let_def)
  then obtain info2 where "getTable ''t'' (ctx_catalog (db_ctx db2)) = Some info2" "ti_schema info2 = sample_schema" "mset (table_rows (db_ctx db2) ''t'') = {#sample_row#}"
    by (auto simp: tables_of_def split: option.splits)
  then show thesis using new room run that by (auto simp: mset_single_iff_right)
qed

theorem stored_rows_match_schema_witness:
  "\<exists>db db' outs info. new_MiniDB Map.empty (\<lambda>_. True) [] True = Inr db \<and> run_script Suc create_lines db = Inr (db', outs) \<and>
     getTable ''t'' (ctx_catalog (db_ctx db')) = Some info \<and> table_rows (db_ctx db') ''t'' = [sample_row] \<and> matchesSchema sample_row (ti_schema info) = Inr True"
proof -
  obtain db db2 outs info where s: "new_MiniDB Map.empty (\<lambda>_. True) [] True = Inr db" "script_room Suc create_lines db"
    "run_script Suc create_lines db = Inr (db2, outs)" "getTable ''t'' (ctx_catalog (db_ctx db2)) = Some info" "table_rows (db_ctx db2) ''t'' = [sample_row]"
    by (rule sample_session)
  from stored_rows_match_schema [OF s(1-4), of sample_row] s show ?thesis by auto
qed

text \<open>A statement that needs no table, on a database without tables.\<close>

lemma sample_DELETE:
  "execute Suc ''DELETE FROM t'' (sample_db empty_ctx) = Inr (sample_db empty_ctx, [out_line ''Initializing lexer...'', no_table ''t''])"
proof -
  let ?s = "(new_Statement DELETE_STMT)\<lparr>tableName := ''t''\<rparr>" and ?l = "''DELETE FROM t''"
  have n: "is_name ''t''" by code_simp
  have "statementToString ?s = ?l" by (simp add: statementToString_def new_Statement_def show_where_def)
  moreover have "printable ?s" using n by (simp add: printable_def printable_where_def new_Statement_def)
  ultimately have "parse (handleInput ?l) = Inr ?s" using parse_print_DELETE [of ?s] by (simp add: handleInput_def new_Statement_def)
  then show ?thesis
    by (simp add: execute_def new_Lexer_def execute_stmt_dispatch new_Statement_def executeDelete_def sample_db_def empty_ctx_def getTable_def)
qed

lemma sample_DELETE_statement: "is_statement ''DELETE FROM t''"
  by (simp add: is_statement_def is_exit_def)

text \<open>C37: an insertion is counted twice.  After an \<open>INSERT\<close> that succeeds, the table has one row more and its row
  count in the catalog is two higher, because both the executor and the engine increment it.\<close>

theorem insert_counts_row_twice:
  assumes "ctx_inv (db_ctx db)" "stmt_type stmt = INSERT" "room_for stmt db" "getTable (tableName stmt) (ctx_catalog (db_ctx db)) = Some info"
    "length (stmt_values stmt) = length (ti_schema info)" "None \<notin> set (typed_row (ti_schema info) (stmt_values stmt))"
  shows "\<exists>db' out info'. executeInsert stmt db = Inr (db', out) \<and> getTable (tableName stmt) (ctx_catalog (db_ctx db')) = Some info' \<and>
    ti_rowCount info' = to_u32 (ti_rowCount info + 2) \<and>
    length (table_rows (db_ctx db') (tableName stmt)) = length (table_rows (db_ctx db) (tableName stmt)) + 1"
proof -
  let ?n = "tableName stmt" and ?row = "map the (typed_row (ti_schema info) (stmt_values stmt))"
  have some: "v \<noteq> None" if "(c, v) \<in> set (zip (ti_schema info) (typed_row (ti_schema info) (stmt_values stmt)))" for c v
    by (rule notI) (use set_zip_rightD [OF that] assms(6) in simp)
  have typed: "filter (\<lambda>(c, v). v = None) (zip (ti_schema info) (typed_row (ti_schema info) (stmt_values stmt))) = []"
    unfolding filter_empty_conv
  proof (intro ballI)
    fix cv assume "cv \<in> set (zip (ti_schema info) (typed_row (ti_schema info) (stmt_values stmt)))"
    then show "\<not> (case cv of (c, v) \<Rightarrow> v = None)" using some [of "fst cv" "snd cv"] by (simp add: case_prod_unfold)
  qed
  have r: "txn_room db" "?row \<noteq> []" "length (serializeTuple ?row (ti_schema info)) \<le> 3576"
    "getPageCount (ti_fileId info) (ctx_storage (db_ctx db)) + 1 < 4294967295" "index_room (db_ctx db) ?n ?row"
    using assms(2-4) by (simp_all add: room_for_def Let_def)
  obtain db' ctx' where x: "executeInsert stmt db = Inr (db', [out_line (''Inserted 1 row into '' @ quoted ?n @ ''.'')])"
    "inserted (db_ctx db) ?n info ?row ctx'" "db_ctx db' = count_row ?n ctx'"
    by (rule insert_runs [OF assms(1,4,5) typed r])
  have "mset (table_rows (db_ctx db') ?n) = add_mset ?row (mset (table_rows (db_ctx db) ?n))"
    using x(2,3) by (simp add: inserted_def count_row_def table_rows_count)
  then have l: "length (table_rows (db_ctx db') ?n) = length (table_rows (db_ctx db) ?n) + 1" by (metis Suc_eq_plus1 size_add_mset size_mset)
  have "getTable ?n (ctx_catalog (db_ctx db')) = Some (info\<lparr>ti_rowCount := to_u32 (to_u32 (ti_rowCount info + 1) + 1)\<rparr>)"
    using x(2,3) by (simp add: inserted_def count_row_def)
  then show ?thesis using x(1) l by (auto simp: to_u32_def mod_Suc_eq)
qed

theorem insert_counts_row_twice_witness:
  "\<exists>db db' out info info'. table_rows (db_ctx db) ''t'' = [] \<and> getTable ''t'' (ctx_catalog (db_ctx db)) = Some info \<and>
     executeInsert sample_INSERT db = Inr (db', out) \<and> getTable ''t'' (ctx_catalog (db_ctx db')) = Some info' \<and>
     ti_rowCount info' = to_u32 (ti_rowCount info + 2) \<and> length (table_rows (db_ctx db') ''t'') = 1"
proof -
  obtain ctx info where c: "ctx_inv ctx" "getTable ''t'' (ctx_catalog ctx) = Some info" "ti_schema info = sample_schema" "table_rows ctx ''t'' = []"
    "index_of ctx ''t'' = Map.empty" "map_option bt_maxLeafKeys (getIndex ''t'' ctx) = Some 127" "getPageCount (ti_fileId info) (ctx_storage ctx) = 1"
    by (rule sample_ctx)
  note r = sample_room [OF c(1-3,5-7)]
  have s: "stmt_type sample_INSERT = INSERT" "tableName sample_INSERT = ''t''" "stmt_values sample_INSERT = [''7'', ''ab'']" "length sample_schema = 2"
    by (simp_all add: sample_INSERT_def new_Statement_def sample_schema_def)
  obtain db' out info' where x: "executeInsert sample_INSERT (sample_db ctx) = Inr (db', out)" "getTable ''t'' (ctx_catalog (db_ctx db')) = Some info'"
    "ti_rowCount info' = to_u32 (ti_rowCount info + 2)" "length (table_rows (db_ctx db') ''t'') = 1"
    using insert_counts_row_twice [of "sample_db ctx" sample_INSERT info] c r s sample_typed by (auto simp: sample_db_def)
  show ?thesis
    by (rule exI [of _ "sample_db ctx"], rule exI [of _ db'], rule exI [of _ out], rule exI [of _ info], rule exI [of _ info'])
      (use x c(2,4) in \<open>simp add: sample_db_def\<close>)
qed


text \<open>C36: the end of the input does not end the program.  On an input of statements, each ended by a line end and none
  of them an exit command, that run without a crash, the program has run them all and answered after as many
  turns as there are statements; at the end of the input it does not stop but goes on prompting, however many
  turns it makes, with the database unchanged.\<close>

theorem repl_ignores_end_of_input:
  assumes "\<forall>l \<in> set ls. is_statement l" "run_script grow ls db = Inr (db', outs)"
  shows "\<exists>rp. main_run grow (length ls + k) db (unlines ls) = Running rp \<and> rp_db rp = db' \<and>
    rp_out rp = banner @ transcript outs @ replicate k (Out ''minidb> '')"
proof -
  obtain y where y: "repl_run grow (length ls) (start_repl db (unlines ls)) =
      Running \<lparr>rp_db = db', rp_in = \<lparr>in_rest = [], in_good = True\<rparr>, rp_input = y, rp_out = banner @ transcript outs\<rparr>"
    using repl_statements [OF assms(1), of grow "start_repl db (unlines ls)" db' outs "[]"] assms(2) by (auto simp: start_repl_def)
  let ?rp = "\<lparr>rp_db = db', rp_in = \<lparr>in_rest = [], in_good = True\<rparr>, rp_input = y, rp_out = banner @ transcript outs\<rparr>"
  obtain "is" x where "repl_run grow k ?rp = Running (?rp\<lparr>rp_in := is, rp_input := x, rp_out := rp_out ?rp @ replicate k (Out ''minidb> '')\<rparr>)"
    using repl_idle [of ?rp True grow k] by auto
  then show ?thesis using repl_run_add [OF y, of k] by (simp add: main_run_def)
qed

theorem repl_ignores_end_of_input_witness:
  "\<exists>rp. main_run Suc 1001 (sample_db empty_ctx) (''DELETE FROM t'' @ NL) = Running rp \<and> rp_db rp = sample_db empty_ctx \<and>
     rp_out rp = banner @ [Out ''minidb> '', out_line ''Initializing lexer...'', no_table ''t''] @ replicate 1000 (Out ''minidb> '')"
proof -
  have "run_script Suc [''DELETE FROM t''] (sample_db empty_ctx) =
      Inr (sample_db empty_ctx, [[out_line ''Initializing lexer...'', no_table ''t'']])"
    using sample_DELETE by simp
  from repl_ignores_end_of_input [OF _ this, of 1000] sample_DELETE_statement show ?thesis by (simp add: transcript_def)
qed

text \<open>C35: a last line without a line end is executed again and again: on an input of statements whose last one, \<open>l\<close>,
  is not ended, the program after \<open>k\<close> further turns has run \<open>l\<close> another \<open>k\<close> times and still runs.\<close>

theorem last_line_repeated:
  assumes "\<forall>x \<in> set ls. is_statement x" "is_statement l" "run_script grow (ls @ [l] @ replicate k l) db = Inr (db', outs)"
  shows "\<exists>rp. main_run grow (length ls + Suc k) db (unlines ls @ l) = Running rp \<and> rp_db rp = db' \<and> rp_out rp = banner @ transcript outs"
proof -
  obtain db1 o1 db2 o2 o3 where s: "run_script grow ls db = Inr (db1, o1)" "execute grow l db1 = Inr (db2, o2)"
    "run_script grow (replicate k l) db2 = Inr (db', o3)" "outs = o1 @ o2 # o3"
    using assms(3) by (auto simp: run_script_append elim!: bindE_InrE)
  obtain y where y: "repl_run grow (length ls) (start_repl db (unlines ls @ l)) =
      Running \<lparr>rp_db = db1, rp_in = \<lparr>in_rest = l, in_good = True\<rparr>, rp_input = y, rp_out = banner @ transcript o1\<rparr>"
    using repl_statements [OF assms(1), of grow "start_repl db (unlines ls @ l)" db1 o1 l] s(1) by (auto simp: start_repl_def)
  let ?rp = "\<lparr>rp_db = db2, rp_in = \<lparr>in_rest = [], in_good = False\<rparr>, rp_input = l, rp_out = banner @ transcript o1 @ [Out ''minidb> ''] @ o2\<rparr>"
  have "repl_run grow (length ls + Suc k) (start_repl db (unlines ls @ l)) = repl_run grow k ?rp"
    unfolding repl_run_add [OF y] using s(2) assms(2) by (simp add: repl_turn_def Let_def is_statement_def)
  also have "\<dots> = Running (?rp\<lparr>rp_db := db', rp_out := rp_out ?rp @ transcript o3\<rparr>)"
    by (rule repeat_last [OF assms(2)]) (simp_all add: s(3))
  finally show ?thesis using s(4) unfolding main_run_def by (simp add: transcript_def)
qed

theorem last_line_repeated_witness:
  "\<exists>rp. main_run Suc 3 (sample_db empty_ctx) ''DELETE FROM t'' = Running rp \<and>
     rp_out rp = banner @ transcript (replicate 3 [out_line ''Initializing lexer...'', no_table ''t''])"
  using last_line_repeated [OF _ sample_DELETE_statement, of "[]" Suc 2 "sample_db empty_ctx"] sample_DELETE
  by (auto simp: numeral_2_eq_2 numeral_3_eq_3)

end
