(* ===== verification/Recovery.thy ===== *)
theory Recovery
  imports Engine
begin

text \<open>
  Crash recovery, \<open>src/recovery/Recovery.cpp\<close>: the analysis of the log, the redo and undo phases on the
  heap files, and \<open>checkpoint\<close>.

  The hash sets of transaction numbers are sets and the hash map of open tables is a map.  What the phases do
  to the files is stated as a list of actions on the maps the files stand for (\<open>replays\<close>): redo puts back every
  logged tuple of a committed transaction, under whatever identifier is free, and undo reverses the others.
\<close>

section \<open>Operations\<close>

record Analysis =
  activeTxns :: "int set"
  committedTxns :: "int set"
  abortedTxns :: "int set"

definition analyze_record :: "LogRecord \<Rightarrow> Analysis \<Rightarrow> Analysis" where
  "analyze_record r a = (case log_type r of
      BEGIN_TXN \<Rightarrow> a\<lparr>activeTxns := insert (txnId r) (activeTxns a)\<rparr>
    | COMMIT_TXN \<Rightarrow> a\<lparr>activeTxns := activeTxns a - {txnId r}, committedTxns := insert (txnId r) (committedTxns a)\<rparr>
    | ABORT_TXN \<Rightarrow> a\<lparr>activeTxns := activeTxns a - {txnId r}, abortedTxns := insert (txnId r) (abortedTxns a)\<rparr>
    | _ \<Rightarrow> a)"

definition analysis :: "LogRecord list \<Rightarrow> Analysis" where
  "analysis records = fold analyze_record records \<lparr>activeTxns = {}, committedTxns = {}, abortedTxns = {}\<rparr>"

type_synonym table_files = "string \<rightharpoonup> int"

definition collect_table :: "LogRecord \<Rightarrow> table_files \<times> Storage \<Rightarrow> (table_files \<times> Storage) res" where
  "collect_table r st = (case st of (tableFiles, s) \<Rightarrow>
     if log_table r \<noteq> '''' \<and> tableFiles (log_table r) = None
     then bindE (openTable (log_table r) s) (\<lambda>(fileId, s).
          Inr (if fileId \<ge> 0 then tableFiles(log_table r \<mapsto> fileId) else tableFiles, s))
     else Inr (tableFiles, s))"

definition collect_tables :: "LogRecord list \<Rightarrow> Storage \<Rightarrow> (table_files \<times> Storage) res" where
  "collect_tables records s = foldE collect_table records (Map.empty, s)"

definition phase_line :: "string \<Rightarrow> LogRecord \<Rightarrow> console" where
  "phase_line what r = out_line (''[Recovery] '' @ what @ '' for txn '' @ to_string (txnId r) @ '' in '' @ log_table r)"

text \<open>One turn of the loop of \<open>redoPhase\<close>.\<close>

definition redo_record :: "int set \<Rightarrow> table_files \<Rightarrow> LogRecord \<Rightarrow> Storage \<times> console list \<Rightarrow> (Storage \<times> console list) res" where
  "redo_record committed tableFiles r st = (case st of (s, out) \<Rightarrow>
     if txnId r \<notin> committed then Inr (s, out)
     else (case tableFiles (log_table r) of
         None \<Rightarrow> Inr (s, out)
       | Some fileId \<Rightarrow> (case log_type r of
             LOG_INSERT \<Rightarrow>
               if newData r \<noteq> []
               then bindE (insertTuple fileId (newData r) (to_u16 (length (newData r))) s) (\<lambda>(_, s). Inr (s, out @ [phase_line ''Redo INSERT'' r]))
               else Inr (s, out)
           | LOG_DELETE \<Rightarrow> bindE (deleteTuple fileId (log_rid r) s) (\<lambda>s. Inr (s, out @ [phase_line ''Redo DELETE'' r]))
           | _ \<Rightarrow> Inr (s, out))))"

definition redoPhase :: "LogRecord list \<Rightarrow> int set \<Rightarrow> table_files \<Rightarrow> Storage \<Rightarrow> (Storage \<times> console list) res" where
  "redoPhase records committed tableFiles s =
     foldE (redo_record committed tableFiles) records (s, [out_line ''[Recovery] Redo phase: replaying committed operations...''])"

definition undo_record :: "int set \<Rightarrow> table_files \<Rightarrow> LogRecord \<Rightarrow> Storage \<times> console list \<Rightarrow> (Storage \<times> console list) res" where
  "undo_record uncommitted tableFiles r st = (case st of (s, out) \<Rightarrow>
     if txnId r \<notin> uncommitted then Inr (s, out)
     else (case tableFiles (log_table r) of
         None \<Rightarrow> Inr (s, out)
       | Some fileId \<Rightarrow> (case log_type r of
             LOG_INSERT \<Rightarrow> bindE (deleteTuple fileId (log_rid r) s) (\<lambda>s. Inr (s, out @ [phase_line ''Undo INSERT'' r]))
           | LOG_DELETE \<Rightarrow>
               if oldData r \<noteq> []
               then bindE (insertTuple fileId (oldData r) (to_u16 (length (oldData r))) s) (\<lambda>(_, s). Inr (s, out @ [phase_line ''Undo DELETE'' r]))
               else Inr (s, out)
           | _ \<Rightarrow> Inr (s, out))))"

definition undoPhase :: "LogRecord list \<Rightarrow> int set \<Rightarrow> table_files \<Rightarrow> Storage \<Rightarrow> (Storage \<times> console list) res" where
  "undoPhase records uncommitted tableFiles s =
     foldE (undo_record uncommitted tableFiles) (rev records) (s, [out_line ''[Recovery] Undo phase: reversing uncommitted operations...''])"

definition recover :: "LogManager \<Rightarrow> Storage \<Rightarrow> (Storage \<times> console list) res" where
  "recover lm s =
     bindE (readAllRecords lm) (\<lambda>records.
     let start = out_line ''[Recovery] Starting crash recovery...'' in
     if records = [] then Inr (s, [start, out_line ''[Recovery] No log records found, nothing to recover.''])
     else
       let a = analysis records in
       bindE (collect_tables records s) (\<lambda>(tableFiles, s).
       bindE (redoPhase records (committedTxns a) tableFiles s) (\<lambda>(s, out1).
       bindE (undoPhase records (activeTxns a) tableFiles s) (\<lambda>(s, out2).
       Inr (s, [start, out_line (''[Recovery] Found '' @ nat_to_string (length records) @ '' log records.''),
                out_line (''[Recovery] Committed txns: '' @ nat_to_string (card (committedTxns a)) @
                  '', Active (uncommitted): '' @ nat_to_string (card (activeTxns a)))] @
              out1 @ out2 @ [out_line ''[Recovery] Recovery complete.''])))))"

definition checkpoint :: "LogManager \<Rightarrow> LogManager \<times> console list" where
  "checkpoint lm =
     (let (_, lm) = appendLog (new_LogRecord\<lparr>log_type := CHECKPOINT, txnId := 0\<rparr>) lm
      in (flushLog lm, [out_line ''[Recovery] Writing checkpoint...'', out_line ''[Recovery] Checkpoint written.'']))"


section \<open>Analysis\<close>

text \<open>The last record of a transaction that says something about its state.\<close>

definition state_record :: "int \<Rightarrow> LogRecord \<Rightarrow> bool" where
  "state_record t r \<longleftrightarrow> txnId r = t \<and> log_type r \<in> {BEGIN_TXN, COMMIT_TXN, ABORT_TXN}"

definition last_state :: "int \<Rightarrow> LogRecord list \<Rightarrow> LogRecordType option" where
  "last_state t rs = (case filter (state_record t) (rev rs) of [] \<Rightarrow> None | r # _ \<Rightarrow> Some (log_type r))"

lemma analysis_snoc: "analysis (rs @ [r]) = analyze_record r (analysis rs)"
  by (simp add: analysis_def)

lemma last_state_snoc: "last_state t (rs @ [r]) = (if state_record t r then Some (log_type r) else last_state t rs)"
  by (simp add: last_state_def)

lemma analysis_sets:
  "t \<in> activeTxns (analysis rs) \<longleftrightarrow> last_state t rs = Some BEGIN_TXN"
  "t \<in> committedTxns (analysis rs) \<longleftrightarrow> (\<exists>r \<in> set rs. log_type r = COMMIT_TXN \<and> txnId r = t)"
  "t \<in> abortedTxns (analysis rs) \<longleftrightarrow> (\<exists>r \<in> set rs. log_type r = ABORT_TXN \<and> txnId r = t)"
proof (induction rs rule: rev_induct)
  case Nil
  { case 1 then show ?case by (simp add: analysis_def last_state_def) }
  { case 2 then show ?case by (simp add: analysis_def) }
  { case 3 then show ?case by (simp add: analysis_def) }
next
  case (snoc r rs)
  { case 1 show ?case using snoc(1) by (cases "log_type r") (auto simp: analysis_snoc last_state_snoc analyze_record_def state_record_def) }
  { case 2 show ?case using snoc(2) by (cases "log_type r") (auto simp: analysis_snoc analyze_record_def) }
  { case 3 show ?case using snoc(3) by (cases "log_type r") (auto simp: analysis_snoc analyze_record_def) }
qed

section \<open>The phases as actions on the files\<close>

datatype action = Put int "byte list" | Drop int RID

definition redo_action :: "int set \<Rightarrow> table_files \<Rightarrow> LogRecord \<Rightarrow> action option" where
  "redo_action committed tf r = (case tf (log_table r) of
      None \<Rightarrow> None
    | Some f \<Rightarrow> if txnId r \<notin> committed then None
        else if log_type r = LOG_INSERT \<and> newData r \<noteq> [] then Some (Put f (newData r))
        else if log_type r = LOG_DELETE then Some (Drop f (log_rid r)) else None)"

definition undo_action :: "int set \<Rightarrow> table_files \<Rightarrow> LogRecord \<Rightarrow> action option" where
  "undo_action uncommitted tf r = (case tf (log_table r) of
      None \<Rightarrow> None
    | Some f \<Rightarrow> if txnId r \<notin> uncommitted then None
        else if log_type r = LOG_INSERT then Some (Drop f (log_rid r))
        else if log_type r = LOG_DELETE \<and> oldData r \<noteq> [] then Some (Put f (oldData r)) else None)"

type_synonym heap_map = "int \<Rightarrow> RID \<rightharpoonup> byte list"

inductive replays :: "action list \<Rightarrow> heap_map \<Rightarrow> heap_map \<Rightarrow> bool" where
  nil: "replays [] H H"
| put: "H f r = None \<Longrightarrow> replays as (H(f := (H f)(r \<mapsto> b))) H' \<Longrightarrow> replays (Put f b # as) H H'"
| drop: "replays as (H(f := (H f)(r := None))) H' \<Longrightarrow> replays (Drop f r # as) H H'"

inductive_cases replays_NilE: "replays [] H H'"
inductive_cases replays_PutE: "replays (Put f b # as) H H'"
inductive_cases replays_DropE: "replays (Drop f r # as) H H'"

lemma replays_append: "replays as H H1 \<Longrightarrow> replays bs H1 H' \<Longrightarrow> replays (as @ bs) H H'"
  by (induction rule: replays.induct) (auto intro: replays.intros)

definition run_action :: "action \<Rightarrow> Storage \<Rightarrow> Storage res" where
  "run_action a s = (case a of
      Put f b \<Rightarrow> bindE (insertTuple f b (to_u16 (length b)) s) (\<lambda>(_, s). Inr s)
    | Drop f r \<Rightarrow> deleteTuple f r s)"

text \<open>What an action needs of the files, when at most \<open>n\<close> more actions follow: its file is open, the tuple fits a page
  and the file can grow, the identifier to drop lies in the file.\<close>

definition action_ok :: "Storage \<Rightarrow> action \<Rightarrow> bool" where
  "action_ok s a = (case a of
      Put f b \<Rightarrow> table_open s f \<and> b \<noteq> [] \<and> length b \<le> 3576
    | Drop f r \<Rightarrow> table_open s f \<and> pageId r < getPageCount f s)"

definition pages_room :: "Storage \<Rightarrow> nat \<Rightarrow> bool" where
  "pages_room s n \<longleftrightarrow> (\<forall>f. table_open s f \<longrightarrow> getPageCount f s + 2 * n < 4294967294)"


lemma run_action_spec:
  assumes "heap_inv s" "action_ok s a" "pages_room s (Suc n)"
  shows "\<exists>s'. run_action a s = Inr s' \<and> heap_inv s' \<and> table_open s' = table_open s \<and> pages_room s' n \<and>
    (\<forall>f. getPageCount f s \<le> getPageCount f s') \<and> (\<forall>as H'. replays as (heap s') H' \<longrightarrow> replays (a # as) (heap s) H')"
proof (cases a)
  case (Put f b)
  then have a: "table_open s f" "b \<noteq> []" "length b \<le> 3576" using assms(2) by (simp_all add: action_ok_def)
  have room: "getPageCount f s + 1 < 4294967295" using assms(3) a(1) unfolding pages_room_def by fastforce
  obtain r s' where s': "insertTuple f b (length b) s = Inr (r, s')" "heap_inv s'" "table_open s' = table_open s" "heap s f r = None"
    "heap s' = (heap s)(f := (heap s f)(r \<mapsto> b))" "getPageCount f s' \<le> getPageCount f s + 2" "\<forall>g. g \<noteq> f \<longrightarrow> getPageCount g s' = getPageCount g s"
    using pm.ins_law [OF assms(1) a(1) room a(2,3)] by blast
  have grow: "getPageCount f s \<le> getPageCount f s'" using insertTuple_spec [OF assms(1) a(1) room order_refl a(3)] s'(1) by auto
  have "pages_room s' n"
    unfolding pages_room_def
  proof (intro allI impI)
    fix g assume "table_open s' g"
    then have "getPageCount g s + 2 * Suc n < 4294967294" using assms(3) s'(3) by (simp add: pages_room_def fun_eq_iff)
    then show "getPageCount g s' + 2 * n < 4294967294" using s'(6,7) by (cases "g = f") auto
  qed
  moreover have "replays (a # as) (heap s) H'" if "replays as (heap s') H'" for as H'
    using that s'(4,5) Put by (auto intro: replays.put)
  moreover have "getPageCount g s \<le> getPageCount g s'" for g using grow s'(7) by (cases "g = f") auto
  moreover have "run_action a s = Inr s'" using s'(1) a(3) Put by (simp add: run_action_def)
  ultimately show ?thesis using s'(2,3) by blast
next
  case (Drop f r)
  then have a: "table_open s f" "pageId r < getPageCount f s" using assms(2) by (simp_all add: action_ok_def)
  obtain s' where s': "deleteTuple f r s = Inr s'" "heap_inv s'" "heap s' = (heap s)(f := (heap s f)(r := None))" "storage_meta s' = storage_meta s"
    using deleteTuple_spec [OF assms(1) a] by blast
  note m = storage_meta_eq [OF s'(4)]
  have "pages_room s' n" using assms(3) m(1,2) by (auto simp: pages_room_def)
  moreover have "replays (a # as) (heap s) H'" if "replays as (heap s') H'" for as H'
    using that s'(3) Drop by (auto intro: replays.drop)
  ultimately show ?thesis using s'(1,2) m(1,2) Drop by (auto simp: run_action_def fun_eq_iff)
qed

lemma action_ok_mono: "action_ok s a \<Longrightarrow> table_open s' = table_open s \<Longrightarrow> (\<forall>f. getPageCount f s \<le> getPageCount f s') \<Longrightarrow> action_ok s' a"
  by (cases a) (auto simp: action_ok_def fun_eq_iff intro: less_le_trans)

text \<open>A phase is a loop over records whose turn runs the action of the record, if it has one.\<close>

definition acts :: "(LogRecord \<Rightarrow> action option) \<Rightarrow> (LogRecord \<Rightarrow> Storage \<times> console list \<Rightarrow> (Storage \<times> console list) res) \<Rightarrow> bool" where
  "acts act turn \<longleftrightarrow> (\<forall>r s out. \<exists>out'. turn r (s, out) = (case act r of None \<Rightarrow> Inr (s, out') | Some a \<Rightarrow> bindE (run_action a s) (\<lambda>s. Inr (s, out'))))"

lemma acts_redo: "acts (redo_action C tf) (redo_record C tf)"
  unfolding acts_def
proof (intro allI)
  fix r s out
  show "\<exists>out'. redo_record C tf r (s, out) = (case redo_action C tf r of None \<Rightarrow> Inr (s, out') | Some a \<Rightarrow> bindE (run_action a s) (\<lambda>s. Inr (s, out')))"
    by (cases "log_type r"; cases "tf (log_table r)")
      (auto simp: redo_record_def redo_action_def run_action_def bindE_assoc case_prod_unfold)
qed

lemma acts_undo: "acts (undo_action U tf) (undo_record U tf)"
  unfolding acts_def
proof (intro allI)
  fix r s out
  show "\<exists>out'. undo_record U tf r (s, out) = (case undo_action U tf r of None \<Rightarrow> Inr (s, out') | Some a \<Rightarrow> bindE (run_action a s) (\<lambda>s. Inr (s, out')))"
    by (cases "log_type r"; cases "tf (log_table r)")
      (auto simp: undo_record_def undo_action_def run_action_def bindE_assoc case_prod_unfold)
qed

lemma phase_spec:
  assumes "acts act turn" "heap_inv s" "\<forall>a \<in> set (List.map_filter act rs). action_ok s a" "pages_room s (length rs + n)"
  shows "\<exists>s' out'. foldE turn rs (s, out) = Inr (s', out') \<and> heap_inv s' \<and> table_open s' = table_open s \<and> pages_room s' n \<and>
    (\<forall>f. getPageCount f s \<le> getPageCount f s') \<and> replays (List.map_filter act rs) (heap s) (heap s')"
  using assms(2-4)
proof (induction rs arbitrary: s out)
  case Nil
  then show ?case by (simp add: List.map_filter_simps replays.nil)
next
  case (Cons r rs)
  obtain out1 where t: "turn r (s, out) = (case act r of None \<Rightarrow> Inr (s, out1) | Some a \<Rightarrow> bindE (run_action a s) (\<lambda>s. Inr (s, out1)))"
    using assms(1) unfolding acts_def by blast
  show ?case
  proof (cases "act r")
    case None
    have "pages_room s (length rs + n)" using Cons.prems(3) by (auto simp: pages_room_def)
    then show ?thesis using Cons.IH [of s out1] Cons.prems(1,2) t None by (simp add: map_filter_Cons)
  next
    case (Some a)
    have a: "action_ok s a" "pages_room s (Suc (length rs + n))" using Cons.prems(2,3) Some by (simp_all add: map_filter_Cons)
    obtain s1 where s1: "run_action a s = Inr s1" "heap_inv s1" "table_open s1 = table_open s" "pages_room s1 (length rs + n)"
      "\<forall>f. getPageCount f s \<le> getPageCount f s1" "\<forall>as H'. replays as (heap s1) H' \<longrightarrow> replays (a # as) (heap s) H'"
      using run_action_spec [OF Cons.prems(1) a] by blast
    have "\<forall>b \<in> set (List.map_filter act rs). action_ok s1 b"
      using Cons.prems(2) Some action_ok_mono [OF _ s1(3,5)] by (simp add: map_filter_Cons)
    then obtain s' out' where "foldE turn rs (s1, out1) = Inr (s', out')" "heap_inv s'" "table_open s' = table_open s1" "pages_room s' n"
      "\<forall>f. getPageCount f s1 \<le> getPageCount f s'" "replays (List.map_filter act rs) (heap s1) (heap s')"
      using Cons.IH [OF s1(2) _ s1(4), of out1] by blast
    with t s1 Some show ?thesis by (simp add: map_filter_Cons) (meson le_trans)
  qed
qed


section \<open>Recovery as a whole\<close>

definition recovery_actions :: "LogRecord list \<Rightarrow> table_files \<Rightarrow> action list" where
  "recovery_actions records tf = List.map_filter (redo_action (committedTxns (analysis records)) tf) records @
     List.map_filter (undo_action (activeTxns (analysis records)) tf) (rev records)"

lemma recover_spec:
  assumes "readAllRecords lm = Inr records" "records \<noteq> []" "collect_tables records s = Inr (tf, s1)" "heap_inv s1"
    "pages_room s1 (2 * length records)" "\<forall>a \<in> set (recovery_actions records tf). action_ok s1 a"
  obtains s' out where "recover lm s = Inr (s', out)" "heap_inv s'" "replays (recovery_actions records tf) (heap s1) (heap s')"
proof -
  let ?C = "committedTxns (analysis records)" and ?U = "activeTxns (analysis records)"
  let ?redo = "List.map_filter (redo_action ?C tf) records" and ?undo = "List.map_filter (undo_action ?U tf) (rev records)"
  have ok: "\<forall>a \<in> set ?redo. action_ok s1 a" "\<forall>a \<in> set ?undo. action_ok s1 a" using assms(6) by (simp_all add: recovery_actions_def)
  have room: "pages_room s1 (length records + length records)" using assms(5) by (simp add: mult_2)
  obtain s2 o2 where s2: "redoPhase records ?C tf s1 = Inr (s2, o2)" "heap_inv s2" "table_open s2 = table_open s1" "pages_room s2 (length records)"
    "\<forall>f. getPageCount f s1 \<le> getPageCount f s2" "replays ?redo (heap s1) (heap s2)"
    using phase_spec [OF acts_redo assms(4) ok(1) room] unfolding redoPhase_def by blast
  have ok2: "\<forall>a \<in> set ?undo. action_ok s2 a" using ok(2) action_ok_mono [OF _ s2(3,5)] by blast
  have room2: "pages_room s2 (length (rev records) + 0)" using s2(4) by simp
  obtain s3 o3 where s3: "undoPhase records ?U tf s2 = Inr (s3, o3)" "heap_inv s3" "replays ?undo (heap s2) (heap s3)"
    using phase_spec [OF acts_undo s2(2) ok2 room2] unfolding undoPhase_def by blast
  have "\<exists>out. recover lm s = Inr (s3, out)" using assms(1-3) s2(1) s3(1) by (simp add: recover_def Let_def)
  moreover have "replays (recovery_actions records tf) (heap s1) (heap s3)"
    unfolding recovery_actions_def by (rule replays_append [OF s2(6) s3(3)])
  ultimately show thesis using s3(2) that by blast
qed

section \<open>What redo adds\<close>

text \<open>The tuples stored in a file, as a multiset.\<close>

definition stored :: "Storage \<Rightarrow> int \<Rightarrow> byte list multiset" where
  "stored s f = mset (map snd (heap_list s f))"

definition map_mset :: "(RID \<rightharpoonup> byte list) \<Rightarrow> byte list multiset" where
  "map_mset m = image_mset (\<lambda>r. the (m r)) (mset_set (dom m))"

lemma map_mset_insert: "finite (dom m) \<Longrightarrow> m r = None \<Longrightarrow> map_mset (m(r \<mapsto> b)) = add_mset b (map_mset m)"
proof -
  assume m: "finite (dom m)" "m r = None"
  have "image_mset (\<lambda>q. the ((m(r \<mapsto> b)) q)) (mset_set (dom m)) = image_mset (\<lambda>q. the (m q)) (mset_set (dom m))"
    by (rule image_mset_cong) (use m in auto)
  then show ?thesis using m by (simp add: map_mset_def domIff)
qed

lemma map_mset_map_of: "distinct (map fst xs) \<Longrightarrow> map_mset (map_of xs) = mset (map snd xs)"
proof (induction xs)
  case (Cons x xs)
  have "map_of xs (fst x) = None" using Cons.prems by (simp add: map_of_eq_None_iff)
  then show ?case using Cons map_mset_insert [OF finite_dom_map_of, of xs "fst x" "snd x"] by (simp add: fun_upd_def)
qed (simp add: map_mset_def)

lemma stored_heap: "table_open s f \<Longrightarrow> stored s f = map_mset (heap s f)" "finite (dom (heap s f)) \<or> \<not> table_open s f"
proof -
  show "table_open s f \<Longrightarrow> stored s f = map_mset (heap s f)"
    using heap_list_map_of [of s f] map_mset_map_of [OF heap_list_distinct(1), of s f] by (simp add: stored_def)
  show "finite (dom (heap s f)) \<or> \<not> table_open s f"
    using heap_list_map_of [of s f] finite_dom_map_of [of "heap_list s f"] by auto
qed

definition puts_of :: "int \<Rightarrow> action list \<Rightarrow> byte list multiset" where
  "puts_of f as = mset (List.map_filter (\<lambda>a. case a of Put g b \<Rightarrow> if g = f then Some b else None | Drop _ _ \<Rightarrow> None) as)"

lemma replays_puts:
  assumes "replays as H H'" "\<forall>a \<in> set as. \<exists>g b. a = Put g b" "finite (dom (H f))"
  shows "map_mset (H' f) = map_mset (H f) + puts_of f as"
  using assms
proof (induction rule: replays.induct)
  case (nil H)
  then show ?case by (simp add: puts_of_def List.map_filter_simps)
next
  case (put H g r as b H')
  have "finite (dom ((H(g := (H g)(r \<mapsto> b))) f))" using put.prems(2) by (cases "f = g") auto
  then have "map_mset (H' f) = map_mset ((H(g := (H g)(r \<mapsto> b))) f) + puts_of f as" using put.IH put.prems(1) by simp
  then show ?case using put.hyps(1) put.prems(2) by (cases "f = g") (auto simp: map_mset_insert puts_of_def map_filter_Cons)
qed auto

lemma redo_adds:
  assumes "heap_inv s" "pages_room s (length records + n)" "\<forall>a \<in> set (List.map_filter (redo_action C tf) records). action_ok s a \<and> (\<exists>g b. a = Put g b)"
  obtains s' out where "redoPhase records C tf s = Inr (s', out)" "heap_inv s'" "pages_room s' n" "table_open s' = table_open s"
    "\<forall>a \<in> set (List.map_filter (redo_action C tf) records). action_ok s' a \<and> (\<exists>g b. a = Put g b)"
    "\<forall>f. table_open s f \<longrightarrow> stored s' f = stored s f + puts_of f (List.map_filter (redo_action C tf) records)"
proof -
  let ?as = "List.map_filter (redo_action C tf) records"
  have ok: "\<forall>a \<in> set ?as. action_ok s a" and puts: "\<forall>a \<in> set ?as. \<exists>g b. a = Put g b" using assms(3) by blast+
  obtain s' out where s': "redoPhase records C tf s = Inr (s', out)" "heap_inv s'" "table_open s' = table_open s" "pages_room s' n"
    "\<forall>f. getPageCount f s \<le> getPageCount f s'" "replays ?as (heap s) (heap s')"
    using phase_spec [OF acts_redo assms(1) ok assms(2)] unfolding redoPhase_def by blast
  have add: "stored s' f = stored s f + puts_of f ?as" if f: "table_open s f" for f
  proof -
    have "finite (dom (heap s f))" using stored_heap(2) [of s f] f by simp
    note replays_puts [OF s'(6) puts this]
    moreover have "stored s f = map_mset (heap s f)" "stored s' f = map_mset (heap s' f)"
      using stored_heap(1) f s'(3) by (simp_all add: fun_eq_iff)
    ultimately show ?thesis by simp
  qed
  have "\<forall>a \<in> set ?as. action_ok s' a \<and> (\<exists>g b. a = Put g b)" using ok puts action_ok_mono [OF _ s'(3,5)] by blast
  moreover have "\<forall>f. table_open s f \<longrightarrow> stored s' f = stored s f + puts_of f ?as" using add by blast
  ultimately show thesis by (rule that [OF s'(1,2,4,3)])
qed


section \<open>The log of the engine\<close>

text \<open>The engine logs the beginning and the end of transactions only: no record names a table.\<close>

definition engine_log :: "MiniDB \<Rightarrow> nat \<Rightarrow> bool" where
  "engine_log db m \<longleftrightarrow> (\<exists>rs k. log_inv (db_logMgr db) rs k \<and> (\<forall>r \<in> set rs. log_table r = '''')) \<and> lm_nextLSN (db_logMgr db) \<le> m \<and>
     in_int32 (tm_nextTxnId (db_txnMgr db))"

lemma engine_log_mono: "engine_log db m \<Longrightarrow> m \<le> n \<Longrightarrow> engine_log db n"
  by (auto simp: engine_log_def)

lemma engine_log_append:
  assumes "log_inv lm rs k" "\<forall>r \<in> set rs. log_table r = ''''" "in_int32 t" "lm_nextLSN lm + 1 < 18446744073709551616" "ty = BEGIN_TXN \<or> ty = COMMIT_TXN"
  shows "\<exists>rs'. log_inv (snd (appendLog (new_LogRecord\<lparr>log_type := ty, txnId := t\<rparr>) lm)) rs' k \<and> (\<forall>r \<in> set rs'. log_table r = '''')"
    "lm_nextLSN (snd (appendLog (new_LogRecord\<lparr>log_type := ty, txnId := t\<rparr>) lm)) = lm_nextLSN lm + 1"
proof -
  let ?r = "new_LogRecord\<lparr>log_type := ty, txnId := t\<rparr>"
  have ok: "record_ok (?r\<lparr>lsn := lm_nextLSN lm\<rparr>)"
    using assms(3-5) by (auto simp: record_ok_def new_LogRecord_def rid_ok_def default_RID_def)
  have "log_inv (snd (appendLog ?r lm)) (rs @ [?r\<lparr>lsn := lm_nextLSN lm\<rparr>]) k" by (rule log_inv_append(1) [OF assms(1) ok assms(4)])
  then show "\<exists>rs'. log_inv (snd (appendLog ?r lm)) rs' k \<and> (\<forall>r \<in> set rs'. log_table r = '''')"
    using assms(2) by (intro exI [of _ "rs @ [?r\<lparr>lsn := lm_nextLSN lm\<rparr>]"]) (auto simp: new_LogRecord_def)
  show "lm_nextLSN (snd (appendLog ?r lm)) = lm_nextLSN lm + 1" using assms(4) by (simp add: appendLog_def Let_def)
qed

lemma engine_log_begin:
  assumes "engine_log db m" "m + 1 < 18446744073709551616" "begin_txn db = Inr (t, db')"
  shows "engine_log db' (m + 1)" "in_int32 t"
proof -
  obtain rs k where l: "log_inv (db_logMgr db) rs k" "\<forall>r \<in> set rs. log_table r = ''''" "lm_nextLSN (db_logMgr db) \<le> m" "in_int32 (tm_nextTxnId (db_txnMgr db))"
    using assms(1) by (auto simp: engine_log_def)
  obtain tm where tm: "txn_begin (db_txnMgr db) = Inr (t, tm)" "db' = db\<lparr>db_txnMgr := tm, db_logMgr := snd (logBegin t (db_logMgr db))\<rparr>"
    using assms(3) by (auto simp: begin_txn_def elim!: bindE_InrE)
  then have t: "t = tm_nextTxnId (db_txnMgr db)" "in_int32 (tm_nextTxnId tm)" by (auto simp: txn_begin_def Let_def split: if_splits)
  show i: "in_int32 t" using t(1) l(4) by simp
  have n: "lm_nextLSN (db_logMgr db) + 1 < 18446744073709551616" using assms(2) l(3) by simp
  obtain rs' where "log_inv (db_logMgr db') rs' k" "\<forall>r \<in> set rs'. log_table r = ''''"
    using engine_log_append(1) [OF l(1,2) i n, of BEGIN_TXN] tm(2) by (auto simp: logBegin_def)
  moreover have "lm_nextLSN (db_logMgr db') \<le> m + 1"
    using engine_log_append(2) [OF l(1,2) i n, of BEGIN_TXN] tm(2) l(3) by (simp add: logBegin_def)
  ultimately show "engine_log db' (m + 1)" using t(2) tm(2) unfolding engine_log_def by auto
qed

lemma engine_log_commit:
  assumes "engine_log db m" "m + 1 < 18446744073709551616" "in_int32 t"
  shows "engine_log (commit_txn t db) (m + 1)"
proof -
  obtain rs k where l: "log_inv (db_logMgr db) rs k" "\<forall>r \<in> set rs. log_table r = ''''" "lm_nextLSN (db_logMgr db) \<le> m" "in_int32 (tm_nextTxnId (db_txnMgr db))"
    using assms(1) by (auto simp: engine_log_def)
  have n: "lm_nextLSN (db_logMgr db) + 1 < 18446744073709551616" using assms(2) l(3) by simp
  let ?lm = "snd (appendLog (new_LogRecord\<lparr>log_type := COMMIT_TXN, txnId := t\<rparr>) (db_logMgr db))"
  obtain rs' where rs': "log_inv ?lm rs' k" "\<forall>r \<in> set rs'. log_table r = ''''" using engine_log_append(1) [OF l(1,2) assms(3) n] by blast
  have c: "db_logMgr (commit_txn t db) = flushLog ?lm" by (simp add: commit_txn_def logCommit_def Let_def case_prod_unfold)
  have t: "tm_nextTxnId (db_txnMgr (commit_txn t db)) = tm_nextTxnId (db_txnMgr db)"
    by (simp add: commit_txn_def txn_commit_def txn_end_def Let_def case_prod_unfold split: option.split)
  have "lm_nextLSN (flushLog ?lm) \<le> m + 1" using engine_log_append(2) [OF l(1,2) assms(3) n, of COMMIT_TXN] l(3) by (simp add: flushLog_def)
  then show ?thesis unfolding engine_log_def c t using log_inv_flush(1) [OF rs'(1)] rs'(2) l(4) by blast
qed

lemma engine_log_ctx: "engine_log (db\<lparr>db_ctx := c\<rparr>) m = engine_log db m"
  by (simp add: engine_log_def)

lemma execute_log:
  assumes "execute grow sql db = Inr (db', out)" "engine_log db m" "m + 2 < 18446744073709551616"
  shows "engine_log db' (m + 2)"
proof -
  define n where "n = m + 2"
  have txn: "engine_log (commit_txn t db2) n" if "begin_txn db = Inr (t, db1)" "run_once e db1 = Inr (x, db2)" for t db1 e x db2
  proof -
    have b: "engine_log db1 (m + 1)" "in_int32 t" using engine_log_begin [OF assms(2) _ that(1)] assms(3) by simp_all
    have "engine_log db2 (m + 1)" using that(2) b(1) by (auto simp: run_once_def engine_log_ctx elim!: bindE_InrE)
    from engine_log_commit [OF this _ b(2)] assms(3) show ?thesis by (simp add: n_def)
  qed
  have same: "engine_log db n" unfolding n_def by (rule engine_log_mono [OF assms(2)]) simp
  have "engine_log db' n"
  proof (cases rule: execute_cases [of sql grow db])
    case (error msg)
    then show ?thesis using assms(1) same by simp
  next
    case (stmt s)
    obtain out' where e: "execute_stmt grow s db = Inr (db', out')"
      using stmt(2) assms(1) by (cases "execute_stmt grow s db") auto
    show ?thesis
    proof (cases "stmt_type s")
      case CREATE_TABLE
      with e same show ?thesis unfolding execute_stmt_dispatch
        by (auto simp: executeCreateTable_def Let_def engine_log_ctx elim!: bindE_InrE split: if_splits)
    next
      case INSERT
      with e same show ?thesis unfolding execute_stmt_dispatch
        by (auto simp: executeInsert_def Let_def engine_log_ctx elim!: bindE_InrE split: if_splits option.splits sum.splits) (rule txn; assumption)+
    next
      case SELECT
      with e same show ?thesis unfolding execute_stmt_dispatch
        by (auto simp: executeSelect_def Let_def engine_log_ctx elim!: bindE_InrE split: if_splits option.splits sum.splits)
    next
      case DELETE_STMT
      with e same show ?thesis unfolding execute_stmt_dispatch
        by (auto simp: executeDelete_def Let_def engine_log_ctx elim!: bindE_InrE split: if_splits option.splits sum.splits intro: txn)
    qed
  qed
  then show ?thesis by (simp add: n_def)
qed

lemma script_log:
  assumes "run_script grow ls db = Inr (db', outs)" "engine_log db m" "m + 2 * length ls < 18446744073709551616"
  shows "engine_log db' (m + 2 * length ls)"
  using assms
proof (induction ls arbitrary: db m outs)
  case (Cons l ls)
  obtain db1 out outs' where o: "execute grow l db = Inr (db1, out)" "run_script grow ls db1 = Inr (db', outs')"
    using Cons.prems(1) by (auto elim!: bindE_InrE)
  have "engine_log db1 (m + 2)" by (rule execute_log [OF o(1) Cons.prems(2)]) (use Cons.prems(3) in simp)
  from Cons.IH [OF o(2) this] Cons.prems(3) show ?case by (simp add: algebra_simps)
qed simp

text \<open>Records that name no table make recovery open no file and change nothing.\<close>

lemma recover_no_tables:
  assumes "readAllRecords lm = Inr records" "\<forall>r \<in> set records. log_table r = ''''"
  shows "\<exists>out. recover lm s = Inr (s, out)"
proof -
  have "foldE collect_table records (Map.empty, s) = Inr (Map.empty, s)"
    using assms(2) by (induction records) (simp_all add: collect_table_def)
  then have c: "collect_tables records s = Inr (Map.empty, s)" by (simp add: collect_tables_def)
  have idle: "\<exists>out'. foldE turn rs (s, out) = Inr (s, out')" if act: "acts act turn" "\<forall>r. act r = None" for act turn rs out
  proof (induction rs arbitrary: out)
    case (Cons r rs)
    obtain out1 where "turn r (s, out) = Inr (s, out1)" using act unfolding acts_def by (metis option.case(1))
    then show ?case using Cons.IH by simp
  qed simp
  have "\<forall>r. redo_action C Map.empty r = None" "\<forall>r. undo_action C Map.empty r = None" for C
    by (simp_all add: redo_action_def undo_action_def)
  then obtain o1 o2 where "redoPhase records (committedTxns (analysis records)) Map.empty s = Inr (s, o1)"
    "undoPhase records (activeTxns (analysis records)) Map.empty s = Inr (s, o2)"
    using idle [OF acts_redo] idle [OF acts_undo] unfolding redoPhase_def undoPhase_def by meson
  then show ?thesis using assms(1) c by (simp add: recover_def Let_def)
qed


section \<open>Properties\<close>

text \<open>A log with one committed insertion, and a disk with the empty file of its table, for the witnesses.\<close>

definition sample_records :: "LogRecord list" where
  "sample_records =
     [new_LogRecord\<lparr>lsn := 1, log_type := BEGIN_TXN, txnId := 1\<rparr>,
      new_LogRecord\<lparr>lsn := 2, log_type := LOG_INSERT, txnId := 1, log_table := ''t'', log_rid := RID 0 0, newData := ''ab''\<rparr>,
      new_LogRecord\<lparr>lsn := 3, log_type := COMMIT_TXN, txnId := 1\<rparr>]"

definition sample_log :: LogManager where
  "sample_log = \<lparr>lm_disk = log_file sample_records, lm_pending = [], lm_isOpen = True, lm_nextLSN = 4\<rparr>"

definition crashed_storage :: Storage where
  "crashed_storage = \<lparr>st_disk = new_DiskManager [full_path ''t.db'' \<mapsto> []] (\<lambda>_. True), st_pool = new_BufferPool 3\<rparr>"

lemma sample_log_read: "readAllRecords sample_log = Inr sample_records"
proof -
  have ok: "list_all record_ok sample_records"
    by (simp add: sample_records_def record_ok_def new_LogRecord_def rid_ok_def default_RID_def in_int32_def)
  show ?thesis using read_log_prefix [OF ok, of "length (log_file sample_records)"] complete_file [OF order_refl, of sample_records]
    by (simp add: readAllRecords_def sample_log_def)
qed

lemma sample_recovery:
  obtains s1 where "collect_tables sample_records crashed_storage = Inr ([''t'' \<mapsto> 1], s1)" "heap_inv s1" "table_open s1 1" "heap s1 1 = Map.empty"
    "pages_room s1 10" "recovery_actions sample_records [''t'' \<mapsto> 1] = [Put 1 ''ab'']"
    "List.map_filter (redo_action {1} [''t'' \<mapsto> 1]) sample_records = [Put 1 ''ab'']"
proof -
  have inv: "heap_inv crashed_storage" "dm_nextFileId (st_disk crashed_storage) = 1" "\<not> table_open crashed_storage 1"
    "fresh_table crashed_storage ''t''" "getPageCount g crashed_storage = 0" for g
    using heap_inv_new [of 3] by (simp_all add: crashed_storage_def new_DiskManager_def fresh_table_def getPageCount_def getFilePageCount_def)
  obtain d where d: "createFile ''t.db'' (st_disk crashed_storage) = Inr (1, d)" "heap_inv (crashed_storage\<lparr>st_disk := d\<rparr>)"
    "heap (crashed_storage\<lparr>st_disk := d\<rparr>) = heap crashed_storage" "\<forall>g. is_open d g = (table_open crashed_storage g \<or> g = 1)"
    "\<forall>g. getFilePageCount g d = (if g = 1 then 0 else getPageCount g crashed_storage)"
    using create_step [OF inv(1,4)] inv(2) by auto
  let ?s = "crashed_storage\<lparr>st_disk := d\<rparr>"
  have "openFile ''t.db'' (st_disk crashed_storage) = Inr (1, d)"
    using d(1) by (auto simp: createFile_def in_int32_def openFile_def crashed_storage_def new_DiskManager_def Let_def)
  then have "collect_tables sample_records crashed_storage = Inr ([''t'' \<mapsto> 1], ?s)"
    by (simp add: collect_tables_def sample_records_def collect_table_def new_LogRecord_def openTable_def)
  moreover have "heap ?s 1 = Map.empty" using d(3) inv(3) by (simp add: heap_def fun_eq_iff)
  moreover have "pages_room ?s 10" using d(5) inv(5) by (simp add: pages_room_def getPageCount_def)
  moreover have "List.map_filter (redo_action {1} [''t'' \<mapsto> 1]) sample_records = [Put 1 ''ab'']"
    by (simp add: sample_records_def new_LogRecord_def redo_action_def List.map_filter_simps)
  moreover have "recovery_actions sample_records [''t'' \<mapsto> 1] = [Put 1 ''ab'']"
    by (simp add: recovery_actions_def analysis_def analyze_record_def sample_records_def new_LogRecord_def redo_action_def undo_action_def List.map_filter_simps)
  ultimately show thesis using d(2,4) by (intro that) simp_all
qed

text \<open>C27: the analysis of the log: a transaction counts as committed when the log has a commit record for it, as aborted
  when it has an abort record, and as active when the last record about its state is its beginning.\<close>

theorem analysis_correct:
  "committedTxns (analysis records) = {t. \<exists>r \<in> set records. log_type r = COMMIT_TXN \<and> txnId r = t} \<and>
   abortedTxns (analysis records) = {t. \<exists>r \<in> set records. log_type r = ABORT_TXN \<and> txnId r = t} \<and>
   activeTxns (analysis records) = {t. last_state t records = Some BEGIN_TXN}"
  using analysis_sets [of _ records] by blast

text \<open>C9: recovery replays the log.  When the files of the logged tables can be opened and the logged tuples fit,
  \<open>recover\<close> returns, and the files have changed by exactly these steps: in the order of the log, every tuple inserted
  by a committed transaction is put under a free identifier and every identifier such a transaction deleted is
  cleared; then, in reverse order, the identifiers inserted by unfinished transactions are cleared and the tuples
  they deleted are put back.\<close>

theorem recover_replays_log:
  assumes "readAllRecords lm = Inr records" "records \<noteq> []" "collect_tables records s = Inr (tf, s1)" "heap_inv s1"
    "pages_room s1 (2 * length records)" "\<forall>a \<in> set (recovery_actions records tf). action_ok s1 a"
  shows "\<exists>s' out. recover lm s = Inr (s', out) \<and> heap_inv s' \<and> replays (recovery_actions records tf) (heap s1) (heap s')"
proof -
  obtain s' out where "recover lm s = Inr (s', out)" "heap_inv s'" "replays (recovery_actions records tf) (heap s1) (heap s')"
    by (rule recover_spec [OF assms])
  then show ?thesis by blast
qed

theorem recover_replays_log_witness:
  "\<exists>s' out r. recover sample_log crashed_storage = Inr (s', out) \<and> heap s' 1 = [r \<mapsto> ''ab'']"
proof -
  obtain s1 where s1: "collect_tables sample_records crashed_storage = Inr ([''t'' \<mapsto> 1], s1)" "heap_inv s1" "table_open s1 1" "heap s1 1 = Map.empty"
    "pages_room s1 10" "recovery_actions sample_records [''t'' \<mapsto> 1] = [Put 1 ''ab'']"
    by (rule sample_recovery)
  have n: "sample_records \<noteq> []" "pages_room s1 (2 * length sample_records)" using s1(5) by (auto simp: sample_records_def pages_room_def)
  have ok: "\<forall>a \<in> set (recovery_actions sample_records [''t'' \<mapsto> 1]). action_ok s1 a" using s1(3,6) by (simp add: action_ok_def)
  obtain s' out where r: "recover sample_log crashed_storage = Inr (s', out)" "replays [Put 1 ''ab''] (heap s1) (heap s')"
    using recover_replays_log [OF sample_log_read n(1) s1(1,2) n(2) ok] s1(6) by auto
  from r(2) obtain q where "heap s' = (heap s1)(1 := (heap s1 1)(q \<mapsto> ''ab''))" by (auto elim!: replays_PutE replays_NilE)
  then show ?thesis using r(1) s1(4) by auto
qed

text \<open>C33: redo is not idempotent.  Where the committed transactions of the log only inserted, a redo phase adds all
  their tuples to the files, whether or not they are there already; running it a second time, as after a crash
  during recovery, adds them once more.\<close>

theorem redo_not_idempotent:
  assumes "heap_inv s" "pages_room s (length records + length records)"
    "\<forall>a \<in> set (List.map_filter (redo_action C tf) records). action_ok s a \<and> (\<exists>g b. a = Put g b)"
  shows "\<exists>s1 o1 s2 o2. redoPhase records C tf s = Inr (s1, o1) \<and> redoPhase records C tf s1 = Inr (s2, o2) \<and>
    (\<forall>f. table_open s f \<longrightarrow> stored s1 f = stored s f + puts_of f (List.map_filter (redo_action C tf) records) \<and>
       stored s2 f = stored s1 f + puts_of f (List.map_filter (redo_action C tf) records))"
proof -
  let ?as = "List.map_filter (redo_action C tf) records"
  obtain s1 o1 where s1: "redoPhase records C tf s = Inr (s1, o1)" "heap_inv s1" "pages_room s1 (length records + 0)" "table_open s1 = table_open s"
    "\<forall>a \<in> set ?as. action_ok s1 a \<and> (\<exists>g b. a = Put g b)" "\<forall>f. table_open s f \<longrightarrow> stored s1 f = stored s f + puts_of f ?as"
    by (rule redo_adds [OF assms(1) _ assms(3), of "length records"]) (use assms(2) in simp_all)
  obtain s2 o2 where s2: "redoPhase records C tf s1 = Inr (s2, o2)" "\<forall>f. table_open s1 f \<longrightarrow> stored s2 f = stored s1 f + puts_of f ?as"
    by (rule redo_adds [OF s1(2,3,5)])
  show ?thesis
    by (rule exI [of _ s1], rule exI [of _ o1], rule exI [of _ s2], rule exI [of _ o2])
      (use s1(1,6) s2 fun_cong [OF s1(4)] in blast)
qed

theorem redo_not_idempotent_witness:
  "\<exists>s s1 o1 s2 o2. redoPhase sample_records {1} [''t'' \<mapsto> 1] s = Inr (s1, o1) \<and> redoPhase sample_records {1} [''t'' \<mapsto> 1] s1 = Inr (s2, o2) \<and>
     stored s 1 = {#} \<and> stored s2 1 = {#''ab'', ''ab''#}"
proof -
  obtain s where s: "heap_inv s" "table_open s 1" "heap s 1 = Map.empty" "pages_room s 10"
    "List.map_filter (redo_action {1} [''t'' \<mapsto> 1]) sample_records = [Put 1 ''ab'']"
    by (rule sample_recovery)
  have room: "pages_room s (length sample_records + length sample_records)" using s(4) by (auto simp: sample_records_def pages_room_def)
  have ok: "\<forall>a \<in> set (List.map_filter (redo_action {1} [''t'' \<mapsto> 1]) sample_records). action_ok s a \<and> (\<exists>g b. a = Put g b)"
    using s(2,5) by (simp add: action_ok_def)
  have e: "stored s 1 = {#}" using stored_heap(1) [OF s(2)] s(3) by (simp add: map_mset_def)
  have p: "puts_of 1 [Put 1 ''ab''] = {#''ab''#}" by (simp add: puts_of_def List.map_filter_simps)
  obtain s1 o1 s2 o2 where r: "redoPhase sample_records {1} [''t'' \<mapsto> 1] s = Inr (s1, o1)" "redoPhase sample_records {1} [''t'' \<mapsto> 1] s1 = Inr (s2, o2)"
    "\<forall>f. table_open s f \<longrightarrow> stored s1 f = stored s f + puts_of f [Put 1 ''ab''] \<and> stored s2 f = stored s1 f + puts_of f [Put 1 ''ab'']"
    using redo_not_idempotent [OF s(1) room ok] unfolding s(5) by blast
  have "stored s2 1 = {#''ab'', ''ab''#}" using r(3) s(2) e p by simp
  with r(1,2) e show ?thesis by blast
qed

text \<open>C34: the log the engine writes restores nothing.  After any session on a new engine with an empty log, and
  whatever part of the stream buffer reached the disk, recovery from that log leaves every file as it is: the
  records it finds are beginnings and ends of transactions, none of an insertion or a deletion.\<close>

theorem engine_log_restores_nothing:
  assumes "new_MiniDB os openable [] True = Inr db" "run_script grow ls db = Inr (db', outs)" "1 + 2 * length ls < 18446744073709551616"
    "lm_disk lm = lm_disk (db_logMgr db') @ take n (lm_pending (db_logMgr db'))"
  shows "\<exists>out. recover lm s = Inr (s, out)"
proof -
  have "engine_log db 1"
    using assms(1) log_reach_inv [OF rtranclp.rtrancl_refl] log_start_opened
    by (auto simp: new_MiniDB_def engine_log_def log_start_def new_TransactionManager_def in_int32_def log_inv_def intro!: exI [of _ "[]"])
  then have "engine_log db' (1 + 2 * length ls)" by (rule script_log [OF assms(2) _ assms(3)])
  then obtain rs k where l: "log_inv (db_logMgr db') rs k" "\<forall>r \<in> set rs. log_table r = ''''" by (auto simp: engine_log_def)
  obtain j where "readAllRecords lm = Inr (take j rs)" using read_after_crash [OF l(1), of n] assms(4) by (auto simp: readAllRecords_def)
  moreover have "\<forall>r \<in> set (take j rs). log_table r = ''''" using l(2) by (auto dest: in_set_takeD)
  ultimately show ?thesis by (rule recover_no_tables)
qed

theorem engine_log_restores_nothing_witness:
  "\<exists>db db' outs out. new_MiniDB Map.empty (\<lambda>_. True) [] True = Inr db \<and> run_script Suc create_lines db = Inr (db', outs) \<and>
     table_rows (db_ctx db') ''t'' = [sample_row] \<and> recover (db_logMgr db') fresh_storage = Inr (fresh_storage, out)"
proof -
  obtain db db2 outs where s: "new_MiniDB Map.empty (\<lambda>_. True) [] True = Inr db" "run_script Suc create_lines db = Inr (db2, outs)"
    "table_rows (db_ctx db2) ''t'' = [sample_row]"
    by (rule sample_session)
  from engine_log_restores_nothing [OF s(1,2), of "db_logMgr db2" 0 fresh_storage] s show ?thesis by auto
qed

end
