(* ===== verification/IndexScan.thy ===== *)
theory IndexScan
  imports BPlusTree
begin

text \<open>
  Looking up keys in B+ trees of any height: \<open>findLeaf\<close>, \<open>search\<close> and \<open>rangeScan\<close> of \<open>src/index/BPlusTree.cpp\<close>
  on trees whose inner nodes separate their children and whose leaves are linked by \<open>nextLeafIdx\<close>.

  \<open>tree_ok h t\<close> is that shape for a tree with \<open>h\<close> levels above its leaves, and \<open>tree_entries h t\<close> are the keys
  with their record identifiers, leaf after leaf.
\<close>

section \<open>Well-formed trees\<close>

definition nd :: "BPlusTree \<Rightarrow> int \<Rightarrow> BPlusNode" where
  "nd t i = bt_nodes t ! nat i"

definition in_nodes :: "BPlusTree \<Rightarrow> int \<Rightarrow> bool" where
  "in_nodes t i \<longleftrightarrow> 0 \<le> i \<and> i < int (length (bt_nodes t))"

fun leaves_of :: "nat \<Rightarrow> BPlusTree \<Rightarrow> int \<Rightarrow> int list" where
  "leaves_of 0 t i = [i]"
| "leaves_of (Suc h) t i = concat (map (leaves_of h t) (bn_childIndices (nd t i)))"

definition leaf_entries :: "BPlusTree \<Rightarrow> int list \<Rightarrow> (int \<times> RID) list" where
  "leaf_entries t ls = concat (map (\<lambda>i. leaf_list (nd t i)) ls)"

abbreviation leaf_keys :: "BPlusTree \<Rightarrow> int list \<Rightarrow> int set" where
  "leaf_keys t ls \<equiv> fst ` set (leaf_entries t ls)"

text \<open>An inner node: the keys below child \<open>j\<close> lie between separators \<open>j - 1\<close> and \<open>j\<close>.\<close>

definition inner_ok :: "BPlusNode \<Rightarrow> bool" where
  "inner_ok n \<longleftrightarrow> bn_type n = INTERNAL \<and> bn_size n = int (length (bn_keys n)) \<and>
     length (bn_childIndices n) = Suc (length (bn_keys n)) \<and> sorted (bn_keys n)"

definition separated :: "nat \<Rightarrow> BPlusTree \<Rightarrow> BPlusNode \<Rightarrow> bool" where
  "separated h t n \<longleftrightarrow> (\<forall>j < length (bn_childIndices n). \<forall>k \<in> leaf_keys t (leaves_of h t (bn_childIndices n ! j)).
     (0 < j \<longrightarrow> bn_keys n ! (j - 1) \<le> k) \<and> (j < length (bn_keys n) \<longrightarrow> k < bn_keys n ! j))"

fun sub_ok :: "nat \<Rightarrow> BPlusTree \<Rightarrow> int \<Rightarrow> bool" where
  "sub_ok 0 t i \<longleftrightarrow> in_nodes t i \<and> scan_leaf_ok (nd t i)"
| "sub_ok (Suc h) t i \<longleftrightarrow> in_nodes t i \<and> inner_ok (nd t i) \<and> separated h t (nd t i) \<and>
     (\<forall>c \<in> set (bn_childIndices (nd t i)). sub_ok h t c)"

fun linked :: "BPlusTree \<Rightarrow> int list \<Rightarrow> bool" where
  "linked t [] \<longleftrightarrow> True"
| "linked t [i] \<longleftrightarrow> bn_nextLeafIdx (nd t i) < 0"
| "linked t (i # j # ls) \<longleftrightarrow> bn_nextLeafIdx (nd t i) = j \<and> linked t (j # ls)"

definition tree_ok :: "nat \<Rightarrow> BPlusTree \<Rightarrow> bool" where
  "tree_ok h t \<longleftrightarrow> sub_ok h t (bt_rootIdx t) \<and> h < length (bt_nodes t) \<and> distinct (leaves_of h t (bt_rootIdx t)) \<and>
     linked t (leaves_of h t (bt_rootIdx t))"

definition tree_entries :: "nat \<Rightarrow> BPlusTree \<Rightarrow> (int \<times> RID) list" where
  "tree_entries h t = leaf_entries t (leaves_of h t (bt_rootIdx t))"

lemma leaf_entries_simps [simp]:
  "leaf_entries t [] = []" "leaf_entries t (i # ls) = leaf_list (nd t i) @ leaf_entries t ls"
  "leaf_entries t (ls @ ls') = leaf_entries t ls @ leaf_entries t ls'"
  by (simp_all add: leaf_entries_def)

lemma node_at_nd: "in_nodes t i \<Longrightarrow> node_at t i = Inr (nd t i)"
  by (simp add: node_at_def vec_at_def nd_def in_nodes_def)

lemma sub_ok_leaves: "sub_ok h t i \<Longrightarrow> l \<in> set (leaves_of h t i) \<Longrightarrow> in_nodes t l \<and> scan_leaf_ok (nd t l)"
  by (induction h arbitrary: i) auto

section \<open>Descending to a leaf\<close>

text \<open>\<open>child_pos\<close> finds the first separator above the key.\<close>

lemma child_pos_spec:
  assumes "inner_ok n" "p + m = length (bn_keys n)"
  shows "\<exists>q. child_pos n key m (int p) = Inr (int q) \<and> p \<le> q \<and> q \<le> length (bn_keys n) \<and>
    (\<forall>j. p \<le> j \<longrightarrow> j < q \<longrightarrow> bn_keys n ! j \<le> key) \<and> (q < length (bn_keys n) \<longrightarrow> key < bn_keys n ! q)"
  using assms(2)
proof (induction m arbitrary: p)
  case 0
  then show ?case by (intro exI [of _ p]) auto
next
  case (Suc m)
  have s: "int p < bn_size n" "vec_at (bn_keys n) (int p) = Inr (bn_keys n ! p)"
    using assms(1) Suc.prems by (simp_all add: inner_ok_def vec_at_def)
  show ?case
  proof (cases "bn_keys n ! p \<le> key")
    case True
    obtain q where q: "child_pos n key m (int (Suc p)) = Inr (int q)" "Suc p \<le> q" "q \<le> length (bn_keys n)"
      "\<forall>j. Suc p \<le> j \<longrightarrow> j < q \<longrightarrow> bn_keys n ! j \<le> key" "q < length (bn_keys n) \<longrightarrow> key < bn_keys n ! q"
      using Suc.IH [of "Suc p"] Suc.prems by auto
    have "\<forall>j. p \<le> j \<longrightarrow> j < q \<longrightarrow> bn_keys n ! j \<le> key" using q(4) True by (metis Suc_leI le_neq_implies_less)
    with q s True show ?thesis by (intro exI [of _ q]) (auto simp: add.commute)
  next
    case False
    with s Suc.prems show ?thesis by (intro exI [of _ p]) auto
  qed
qed

text \<open>The keys of a child all lie on one side of a search key that \<open>child_pos\<close> sends to another child.\<close>

lemma separated_sides:
  assumes n: "inner_ok n" "separated h t n" and q: "q \<le> length (bn_keys n)"
    and le: "\<forall>j < q. bn_keys n ! j \<le> key" and gt: "q < length (bn_keys n) \<longrightarrow> key < bn_keys n ! q"
    and j: "j < length (bn_childIndices n)" and k: "k \<in> leaf_keys t (leaves_of h t (bn_childIndices n ! j))"
  shows "j < q \<Longrightarrow> k < key" "q < j \<Longrightarrow> key < k"
proof -
  have l: "length (bn_childIndices n) = Suc (length (bn_keys n))" "sorted (bn_keys n)" using n(1) by (simp_all add: inner_ok_def)
  have s: "0 < j \<longrightarrow> bn_keys n ! (j - 1) \<le> k" "j < length (bn_keys n) \<longrightarrow> k < bn_keys n ! j"
    using n(2) j k unfolding separated_def by blast+
  show "k < key" if "j < q"
  proof -
    have "bn_keys n ! j \<le> key" "k < bn_keys n ! j" using that le s(2) q by auto
    then show ?thesis by simp
  qed
  show "key < k" if "q < j"
  proof -
    have "bn_keys n ! q \<le> bn_keys n ! (j - 1)" using that l j by (intro sorted_nth_mono) auto
    moreover have "key < bn_keys n ! q" using gt that l j by simp
    ultimately show ?thesis using s(1) that by simp
  qed
qed

lemma leaf_entries_concat: "leaf_entries t (concat lss) = concat (map (leaf_entries t) lss)"
  by (induction lss) simp_all

lemma findLeaf_loop_spec:
  assumes "sub_ok h t i" "h < f"
  shows "\<exists>ls l ls'. leaves_of h t i = ls @ l # ls' \<and> findLeaf_loop f t key i = Inr l \<and>
    (\<forall>k \<in> leaf_keys t ls. k < key) \<and> (\<forall>k \<in> leaf_keys t ls'. key < k)"
  using assms
proof (induction h arbitrary: i f)
  case 0
  then obtain g where g: "f = Suc g" by (cases f) auto
  have "findLeaf_loop f t key i = Inr i" using 0 by (simp add: g node_at_nd scan_leaf_ok_def)
  then show ?case by (intro exI [of _ "[]"] exI [of _ i]) simp
next
  case (Suc h)
  then obtain g where g: "f = Suc g" "h < g" by (cases f) auto
  let ?n = "nd t i" and ?cs = "bn_childIndices (nd t i)"
  have n: "in_nodes t i" "inner_ok ?n" "separated h t ?n" "\<And>c. c \<in> set ?cs \<Longrightarrow> sub_ok h t c" using Suc.prems(1) by auto
  have len: "length ?cs = Suc (length (bn_keys ?n))" "bn_type ?n = INTERNAL" "nat (bn_size ?n) = length (bn_keys ?n)"
    using n(2) by (simp_all add: inner_ok_def)
  obtain q where q: "child_pos ?n key (length (bn_keys ?n)) 0 = Inr (int q)" "q \<le> length (bn_keys ?n)"
    "\<forall>j<q. bn_keys ?n ! j \<le> key" "q < length (bn_keys ?n) \<longrightarrow> key < bn_keys ?n ! q"
    using child_pos_spec [OF n(2), of 0 "length (bn_keys ?n)" key] by auto
  have qc: "q < length ?cs" using q(2) len(1) by simp
  obtain ls l ls' where ih: "leaves_of h t (?cs ! q) = ls @ l # ls'" "findLeaf_loop g t key (?cs ! q) = Inr l"
    "\<forall>k \<in> leaf_keys t ls. k < key" "\<forall>k \<in> leaf_keys t ls'. key < k"
    using Suc.IH [OF n(4) [OF nth_mem [OF qc]] g(2)] by blast
  let ?L = "\<lambda>xs. concat (map (leaves_of h t) xs)"
  have "?cs = take q ?cs @ ?cs ! q # drop (Suc q) ?cs" using qc by (rule id_take_nth_drop)
  then have "leaves_of (Suc h) t i = ?L (take q ?cs) @ leaves_of h t (?cs ! q) @ ?L (drop (Suc q) ?cs)"
    by (metis concat.simps(2) concat_append leaves_of.simps(2) list.map(2) map_append)
  then have "leaves_of (Suc h) t i = (?L (take q ?cs) @ ls) @ l # (ls' @ ?L (drop (Suc q) ?cs))" using ih(1) by simp
  moreover have "findLeaf_loop f t key i = Inr l"
    using g(1) n(1) q(1) len qc ih(2) by (simp add: node_at_nd vec_at_def)
  moreover have "k < key" if k: "k \<in> leaf_keys t (?L (take q ?cs))" for k
  proof -
    obtain c where c: "c \<in> set (take q ?cs)" "k \<in> leaf_keys t (leaves_of h t c)" using k by (auto simp: leaf_entries_concat)
    then obtain j where "j < q" "j < length ?cs" "c = ?cs ! j" by (auto simp: in_set_conv_nth)
    with c(2) show ?thesis using separated_sides(1) [OF n(2,3) q(2-4)] by blast
  qed
  moreover have "key < k" if k: "k \<in> leaf_keys t (?L (drop (Suc q) ?cs))" for k
  proof -
    obtain c where c: "c \<in> set (drop (Suc q) ?cs)" "k \<in> leaf_keys t (leaves_of h t c)" using k by (auto simp: leaf_entries_concat)
    then obtain j where "j < length ?cs - Suc q" "c = ?cs ! (Suc q + j)" by (auto simp: in_set_conv_nth)
    with c(2) show ?thesis using separated_sides(2) [OF n(2,3) q(2-4), of "Suc q + j" k] by simp
  qed
  ultimately show ?case using ih(3,4) by (intro exI [of _ "?L (take q ?cs) @ ls"] exI [of _ l] exI [of _ "ls' @ ?L (drop (Suc q) ?cs)"]) auto
qed

lemma findLeaf_spec:
  assumes "tree_ok h t"
  shows "\<exists>ls l ls'. leaves_of h t (bt_rootIdx t) = ls @ l # ls' \<and> findLeaf t key = Inr l \<and> in_nodes t l \<and> scan_leaf_ok (nd t l) \<and>
    (\<forall>k \<in> leaf_keys t ls. k < key) \<and> (\<forall>k \<in> leaf_keys t ls'. key < k)"
proof -
  let ?i = "bt_rootIdx t"
  have t: "sub_ok h t ?i" "h < length (bt_nodes t) + 1" using assms by (simp_all add: tree_ok_def)
  have "0 \<le> ?i" using t(1) by (cases h) (simp_all add: in_nodes_def)
  moreover obtain ls l ls' where f: "leaves_of h t ?i = ls @ l # ls'" "findLeaf_loop (length (bt_nodes t) + 1) t key ?i = Inr l"
    "\<forall>k \<in> leaf_keys t ls. k < key" "\<forall>k \<in> leaf_keys t ls'. key < k"
    using findLeaf_loop_spec [OF t, of key] by blast
  moreover have "in_nodes t l \<and> scan_leaf_ok (nd t l)" using f(1) by (intro sub_ok_leaves [OF t(1)]) simp
  ultimately show ?thesis by (intro exI [of _ ls] exI [of _ l] exI [of _ ls']) (simp add: findLeaf_def)
qed

section \<open>The order of the entries\<close>

lemma sorted_concat_nth:
  assumes "\<And>x. x \<in> set xs \<Longrightarrow> sorted_wrt P x"
    "\<And>i j a b. i < j \<Longrightarrow> j < length xs \<Longrightarrow> a \<in> set (xs ! i) \<Longrightarrow> b \<in> set (xs ! j) \<Longrightarrow> P a b"
  shows "sorted_wrt P (concat xs)"
  using assms
proof (induction xs)
  case (Cons x xs)
  have "sorted_wrt P (concat xs)" by (rule Cons.IH) (use Cons.prems(1) Cons.prems(2) [of "Suc _" "Suc _"] in auto)
  moreover have "P a b" if ab: "a \<in> set x" "b \<in> set (concat xs)" for a b
  proof -
    obtain y where y: "y \<in> set xs" "b \<in> set y" using ab(2) by auto
    obtain j where "j < length xs" "xs ! j = y" using y(1) by (auto simp: in_set_conv_nth)
    then show ?thesis using Cons.prems(2) [of 0 "Suc j" a b] ab(1) y(2) by simp
  qed
  ultimately show ?case using Cons.prems(1) [of x] by (simp add: sorted_wrt_append)
qed simp

lemma sub_ok_sorted: "sub_ok h t i \<Longrightarrow> sorted_wrt (<) (map fst (leaf_entries t (leaves_of h t i)))"
proof (induction h arbitrary: i)
  case 0
  then show ?case by (simp add: scan_leaf_ok_def leaf_list_def)
next
  case (Suc h)
  let ?n = "nd t i" and ?cs = "bn_childIndices (nd t i)"
  let ?K = "\<lambda>c. map fst (leaf_entries t (leaves_of h t c))"
  have n: "inner_ok ?n" "separated h t ?n" "\<And>c. c \<in> set ?cs \<Longrightarrow> sub_ok h t c" using Suc.prems by auto
  have l: "length ?cs = Suc (length (bn_keys ?n))" "sorted (bn_keys ?n)" using n(1) by (simp_all add: inner_ok_def)
  have "sorted_wrt (<) (concat (map ?K ?cs))"
  proof (rule sorted_concat_nth)
    fix x assume "x \<in> set (map ?K ?cs)"
    then show "sorted_wrt (<) x" using Suc.IH n(3) by auto
  next
    fix p q a b
    assume p: "p < q" "q < length (map ?K ?cs)" "a \<in> set (map ?K ?cs ! p)" "b \<in> set (map ?K ?cs ! q)"
    have k: "p < length ?cs" "q < length ?cs" "a \<in> leaf_keys t (leaves_of h t (?cs ! p))" "b \<in> leaf_keys t (leaves_of h t (?cs ! q))"
      using p by simp_all
    have "p < length (bn_keys ?n)" "0 < q" using p(1) k(2) l(1) by simp_all
    then have "a < bn_keys ?n ! p" "bn_keys ?n ! (q - 1) \<le> b" using n(2) k unfolding separated_def by blast+
    moreover have "bn_keys ?n ! p \<le> bn_keys ?n ! (q - 1)" using p l by (intro sorted_nth_mono) auto
    ultimately show "a < b" by simp
  qed
  then show ?case by (simp add: leaf_entries_concat map_concat comp_def)
qed

section \<open>Following the leaves\<close>

text \<open>One leaf: what the scan adds, and that it ends the whole scan exactly when a key is above the range.\<close>

abbreviation in_range :: "int \<Rightarrow> int \<Rightarrow> (int \<times> RID) list \<Rightarrow> RID list" where
  "in_range lo hi xs \<equiv> map snd (filter (\<lambda>(k, r). lo \<le> k \<and> k \<le> hi) xs)"

lemma scan_leaf_stop:
  assumes "set is \<subseteq> {0..<int (length (bn_keys n))}" "scan_leaf n lo hi is acc = Inr (b, acc')"
  shows "b \<longleftrightarrow> (\<exists>i \<in> set is. hi < bn_keys n ! nat i)"
  using assms
proof (induction "is" arbitrary: acc)
  case (Cons i "is")
  have i: "vec_at (bn_keys n) i = Inr (bn_keys n ! nat i)" using Cons.prems(1) by (simp add: vec_at_def)
  obtain acc1 where a: "(if hi < bn_keys n ! nat i then Inr (True, acc1) else scan_leaf n lo hi is acc1) = Inr (b, acc')"
    using Cons.prems(2) i by (auto simp: bindE_Inr_iff)
  show ?case
  proof (cases "hi < bn_keys n ! nat i")
    case False
    then have "b \<longleftrightarrow> (\<exists>i \<in> set is. hi < bn_keys n ! nat i)" using a Cons.prems(1) by (intro Cons.IH [of acc1]) simp_all
    with False show ?thesis by simp
  qed (use a in simp)
qed simp

lemma scan_leaf_result:
  assumes "scan_leaf_ok n"
  shows "scan_leaf n lo hi (slots n) acc = Inr (\<exists>k \<in> set (bn_keys n). hi < k, acc @ in_range lo hi (leaf_list n))"
proof -
  have n: "length (bn_values n) = length (bn_keys n)" "bn_size n = int (length (bn_keys n))" "sorted (bn_keys n)"
    using assms strict_sorted_iff by (auto simp: scan_leaf_ok_def)
  obtain b where b: "scan_leaf n lo hi (slots n) acc = Inr (b, acc @ in_range lo hi (leaf_list n))"
    using scan_leaf_spec [of "bn_values n" "bn_keys n" "[]" "[]" n lo hi acc] n by (auto simp: leaf_list_def)
  have "b \<longleftrightarrow> (\<exists>i \<in> set (slots n). hi < bn_keys n ! nat i)" by (rule scan_leaf_stop [OF _ b]) (use n(2) in auto)
  also have "\<dots> \<longleftrightarrow> (\<exists>k \<in> set (bn_keys n). hi < k)"
  proof
    assume "\<exists>k \<in> set (bn_keys n). hi < k"
    then obtain j where "j < length (bn_keys n)" "hi < bn_keys n ! j" by (auto simp: in_set_conv_nth)
    then show "\<exists>i \<in> set (slots n). hi < bn_keys n ! nat i" using n(2) by (intro bexI [of _ "int j"]) auto
  qed (use n(2) in \<open>auto intro!: bexI [OF _ nth_mem]\<close>)
  finally show ?thesis using b by simp
qed

lemma rangeScan_loop_spec:
  assumes "linked t ls" "ls \<noteq> []" "\<forall>l \<in> set ls. in_nodes t l \<and> scan_leaf_ok (nd t l)"
    "sorted_wrt (<) (map fst (leaf_entries t ls))" "length ls < f"
  shows "rangeScan_loop f t lo hi (hd ls) acc = Inr (acc @ in_range lo hi (leaf_entries t ls))"
  using assms
proof (induction t ls arbitrary: f acc rule: linked.induct)
  case (2 t i)
  then obtain g where g: "f = Suc (Suc g)" by (metis length_Cons less_Suc_eq_0_disj less_nat_zero_code list.size(3) not0_implies_Suc Suc_less_eq)
  then show ?case using "2.prems" by (simp add: node_at_nd scan_leaf_result in_nodes_def)
next
  case (3 t i j ls)
  obtain g where g: "f = Suc g" "length (j # ls) < g" using "3.prems"(5) by (cases f) auto
  have i: "in_nodes t i" "scan_leaf_ok (nd t i)" "0 \<le> i" and next_i: "bn_nextLeafIdx (nd t i) = j"
    using "3.prems"(1,3) by (simp_all add: in_nodes_def)
  have s: "sorted_wrt (<) (map fst (leaf_entries t (j # ls)))"
    and above: "\<And>a b. a \<in> set (bn_keys (nd t i)) \<Longrightarrow> b \<in> leaf_keys t (j # ls) \<Longrightarrow> a < b"
  proof -
    have "map fst (leaf_entries t (i # j # ls)) = bn_keys (nd t i) @ map fst (leaf_entries t (j # ls))"
      using i(2) by (simp add: leaf_list_def scan_leaf_ok_def)
    then have "sorted_wrt (<) (bn_keys (nd t i) @ map fst (leaf_entries t (j # ls)))" using "3.prems"(4) by simp
    then show "sorted_wrt (<) (map fst (leaf_entries t (j # ls)))"
      and "\<And>a b. a \<in> set (bn_keys (nd t i)) \<Longrightarrow> b \<in> leaf_keys t (j # ls) \<Longrightarrow> a < b"
      unfolding sorted_wrt_append by (auto simp del: leaf_entries_simps)
  qed
  show ?case
  proof (cases "\<exists>k \<in> set (bn_keys (nd t i)). hi < k")
    case True
    then have "filter (\<lambda>(k, r). lo \<le> k \<and> k \<le> hi) (leaf_entries t (j # ls)) = []"
      using above by (fastforce simp: filter_empty_conv)
    then show ?thesis using True i g(1) by (simp add: node_at_nd scan_leaf_result)
  next
    case False
    have "rangeScan_loop g t lo hi (hd (j # ls)) (acc @ in_range lo hi (leaf_list (nd t i))) =
        Inr ((acc @ in_range lo hi (leaf_list (nd t i))) @ in_range lo hi (leaf_entries t (j # ls)))"
      by (rule "3.IH") (use "3.prems"(1,3) s g(2) in auto)
    then show ?thesis using False i g(1) next_i by (simp add: node_at_nd scan_leaf_result)
  qed
qed simp

lemma linked_tail: "linked t (l # ls) \<Longrightarrow> linked t ls"
  by (cases ls) simp_all

lemma linked_suffix: "linked t (ls @ ls') \<Longrightarrow> linked t ls'"
  by (induction ls) (auto dest: linked_tail)

text \<open>A tree of one leaf is the case of no inner level.\<close>

lemma leaf_tree_ok:
  assumes "leaf_tree t" "0 \<le> bt_rootIdx t"
  shows "tree_ok 0 t" "map_of (tree_entries 0 t) = entries t"
  using assms leaf_tree_root [OF assms(1)]
  by (auto simp: tree_ok_def tree_entries_def entries_def in_nodes_def nd_def root_leaf_def leaf_ok_def scan_leaf_ok_def)

lemma length_leaves:
  assumes "distinct ls" "\<And>l. l \<in> set ls \<Longrightarrow> in_nodes t l"
  shows "length ls \<le> length (bt_nodes t)"
proof -
  have "set ls \<subseteq> {0..<int (length (bt_nodes t))}" using assms(2) by (auto simp: in_nodes_def)
  then have "card (set ls) \<le> card {0..<int (length (bt_nodes t))}" by (intro card_mono) simp_all
  then show ?thesis using distinct_card [OF assms(1)] by simp
qed

section \<open>Properties\<close>

text \<open>C23: range scans and searches in trees of any height.  On a tree whose inner nodes separate their children
  and whose leaves, with increasing keys, are linked in order by \<open>nextLeafIdx\<close>, \<open>rangeScan\<close> starts at the leaf
  of the lower bound, follows the links across leaves and returns the record identifiers of exactly the keys
  between the two bounds, in increasing order of keys; \<open>search\<close> returns the record identifier of a key that is
  in the tree and nothing for any other.  Neither touches memory outside the node vector, and both end.\<close>

theorem rangeScan_correct:
  assumes "tree_ok h t"
  shows "sorted_wrt (<) (map fst (tree_entries h t)) \<and>
    rangeScan t lo hi = Inr (map snd (filter (\<lambda>(k, r). lo \<le> k \<and> k \<le> hi) (tree_entries h t))) \<and>
    bt_search t key = Inr (map_of (tree_entries h t) key)"
proof (intro conjI)
  let ?ls = "leaves_of h t (bt_rootIdx t)"
  have t: "sub_ok h t (bt_rootIdx t)" "distinct ?ls" "linked t ?ls" using assms by (simp_all add: tree_ok_def)
  show sorted: "sorted_wrt (<) (map fst (tree_entries h t))" unfolding tree_entries_def by (rule sub_ok_sorted [OF t(1)])
  have leaf: "in_nodes t l \<and> scan_leaf_ok (nd t l)" if "l \<in> set ?ls" for l by (rule sub_ok_leaves [OF t(1) that])
  show "rangeScan t lo hi = Inr (in_range lo hi (tree_entries h t))"
  proof -
    obtain ls l ls' where f: "?ls = ls @ l # ls'" "findLeaf t lo = Inr l" "in_nodes t l" "\<forall>k \<in> leaf_keys t ls. k < lo"
      using findLeaf_spec [OF assms, of lo] by blast
    have "rangeScan_loop (length (bt_nodes t) + 1) t lo hi (hd (l # ls')) [] = Inr ([] @ in_range lo hi (leaf_entries t (l # ls')))"
    proof (rule rangeScan_loop_spec)
      show "linked t (l # ls')" using t(3) f(1) linked_suffix [of t ls "l # ls'"] by simp
      show "\<forall>x \<in> set (l # ls'). in_nodes t x \<and> scan_leaf_ok (nd t x)" using leaf f(1) by simp
      show "sorted_wrt (<) (map fst (leaf_entries t (l # ls')))"
        using sorted f(1) unfolding tree_entries_def by (simp add: sorted_wrt_append)
      show "length (l # ls') < length (bt_nodes t) + 1"
        using length_leaves [OF t(2)] leaf f(1) by force
    qed simp
    moreover have "filter (\<lambda>(k, r). lo \<le> k \<and> k \<le> hi) (leaf_entries t ls) = []" using f(4) by (force simp: filter_empty_conv)
    ultimately show ?thesis using f(1-3) by (simp add: rangeScan_def in_nodes_def tree_entries_def)
  qed
  show "bt_search t key = Inr (map_of (tree_entries h t) key)"
  proof -
    obtain ls l ls' where f: "?ls = ls @ l # ls'" "findLeaf t key = Inr l" "in_nodes t l" "scan_leaf_ok (nd t l)"
        "\<forall>k \<in> leaf_keys t ls. k < key" "\<forall>k \<in> leaf_keys t ls'. key < k"
      using findLeaf_spec [OF assms, of key] by blast
    have "map_of (leaf_entries t ls) key = None" "map_of (leaf_entries t ls') key = None"
      using f(5,6) by (auto simp: map_of_eq_None_iff)
    then have "map_of (tree_entries h t) key = map_of (leaf_list (nd t l)) key"
      using f(1) by (simp add: tree_entries_def map_add_def split: option.splits)
    moreover have "length (bn_values (nd t l)) = length (bn_keys (nd t l))" using f(4) by (simp add: scan_leaf_ok_def)
    ultimately show ?thesis
      by (cases rule: key_pos_scan [OF f(4), of key])
        (use f(2,3) in \<open>simp_all add: bt_search_def node_at_nd vec_at_def in_nodes_def\<close>)
  qed
qed

text \<open>A tree of order 3 with two inner levels and five leaves, as eight insertions build it in a node vector
  with room for all its nodes.\<close>

definition sample_leaf :: "nat \<Rightarrow> int \<Rightarrow> int list \<Rightarrow> int \<Rightarrow> BPlusNode" where
  "sample_leaf page parent ks next_leaf = \<lparr>bn_type = LEAF, bn_isRoot = False, bn_pageId = page, bn_parentIdx = parent,
     bn_size = int (length ks), bn_keys = ks, bn_values = map (\<lambda>k. RID 0 (nat k)) ks, bn_childIndices = [], bn_nextLeafIdx = next_leaf\<rparr>"

definition sample_inner :: "nat \<Rightarrow> bool \<Rightarrow> int \<Rightarrow> int list \<Rightarrow> int list \<Rightarrow> BPlusNode" where
  "sample_inner page root parent ks cs = \<lparr>bn_type = INTERNAL, bn_isRoot = root, bn_pageId = page, bn_parentIdx = parent,
     bn_size = int (length ks), bn_keys = ks, bn_values = [], bn_childIndices = cs, bn_nextLeafIdx = - 1\<rparr>"

definition sample_tree :: BPlusTree where
  "sample_tree = (new_BPlusTree (\<lambda>n. 16) 3)\<lparr>bt_nodes :=
     [sample_leaf 0 2 [1, 2] 4, sample_leaf 1 5 [6, 7] 7, sample_inner 2 False 6 [3] [0, 4], sample_leaf 3 5 [4, 5] 1,
      sample_leaf 4 2 [3] 3, sample_inner 5 False 6 [6, 8] [3, 1, 7], sample_inner 6 True (- 1) [4] [2, 5], sample_leaf 7 5 [8] (- 1)],
     bt_capacity := 16, bt_rootIdx := 6, bt_entryCount := 8\<rparr>"

lemma sample_tree_ok: "tree_ok 2 sample_tree"
  by (simp add: tree_ok_def sample_tree_def sample_leaf_def sample_inner_def nd_def in_nodes_def inner_ok_def scan_leaf_ok_def
      separated_def leaf_list_def numeral_2_eq_2 less_Suc_eq all_conj_distrib)

lemma child_pos_two: "child_pos n key 2 = child_pos n key (Suc (Suc 0))"
  by (simp add: numeral_2_eq_2)

lemma sample_tree_built:
  "foldE (\<lambda>k. run_index_op (Ins k (RID 0 (nat k)))) [4, 2, 6, 1, 3, 5, 7, 8] (new_BPlusTree (\<lambda>n. 16) 3) = Inr sample_tree"
  by (simp add: new_BPlusTree_def bt_insert_def allocateNode_def Let_def modify_node_def put_node_def node_at_def vec_at_def
      vec_set_def findLeaf_def insertIntoLeaf_def enter_leaf_def vec_insert_def lower_bound_def lower_bound_loop.simps
      splitLeafAndInsert_def vec_tail_def vec_resize_def make_root_def enter_internal_def splitInternal_def
      split_internal_node_def upto.simps child_pos_two sample_tree_def sample_leaf_def sample_inner_def)

theorem rangeScan_correct_witness:
  "foldE (\<lambda>k. run_index_op (Ins k (RID 0 (nat k)))) [4, 2, 6, 1, 3, 5, 7, 8] (new_BPlusTree (\<lambda>n. 16) 3) = Inr sample_tree \<and>
   rangeScan sample_tree 2 6 = Inr [RID 0 2, RID 0 3, RID 0 4, RID 0 5, RID 0 6] \<and> bt_search sample_tree 8 = Inr (Some (RID 0 8))"
  using sample_tree_built rangeScan_correct [OF sample_tree_ok, of 2 6 8]
  by (simp add: tree_entries_def leaf_entries_def sample_tree_def sample_leaf_def sample_inner_def nd_def leaf_list_def numeral_2_eq_2)

end
