(* ===== verification/Spec2Isabelle.thy ===== *)
theory Spec2Isabelle
  imports Recovery IndexScan
begin

text \<open>
  \<^bold>\<open>MiniDB: a verification library\<close>

  MiniDB is a small SQL database in C++ (\<open>src/src\<close>): a lexer and a parser, an optimizer, query operators in the
  iterator style, heap files of slotted pages behind a buffer pool, a B+ tree index for each table, a
  write-ahead log with recovery, a lock manager with transactions, and an engine with a read-eval-print loop that
  ties them together.  This library models all of it and proves what each part promises and how the parts compose.

  \<^bold>\<open>Parts, theories and sources\<close>

  \<^item> \<open>Prelude\<close>, \<open>Bytes\<close>, \<open>StdLib\<close>: errors as values (\<open>db_error\<close>, \<open>res\<close>, \<open>bindE\<close>), machine integers, little-endian
    bytes and the interface \<open>codec\<close>, and what the sources use of the C++ library (\<open>cctype\<close>, \<open>stoi\<close>,
    \<open>to_string\<close>, \<open>setw\<close>).
  \<^item> \<open>Common\<close>: \<open>common/*.h\<close>, values, columns, schemas, tuples, record identifiers.
  \<^item> \<open>Lexer\<close>, \<open>Parser\<close>: \<open>parser/lexer.cpp\<close>, \<open>parser/parser.cpp\<close>.  The parser state is the suffix of the token
    vector from \<open>pos_\<close> on.
  \<^item> \<open>DiskManager\<close>, \<open>BufferPool\<close>, \<open>PageManager\<close>, \<open>StorageFrame\<close>: \<open>storage/*.cpp\<close>.  A file is a list of bytes under
    its path; a pointer to a frame is the index of the frame; \<open>Storage\<close> is the disk with the pool.
  \<^item> \<open>TupleCodec\<close>, \<open>Executor\<close>, \<open>TableRows\<close>: \<open>query/Executor.cpp\<close>, the tuple format, the seven operators, and
    what they do to tables.
  \<^item> \<open>Catalog\<close>, \<open>Optimizer\<close>: \<open>storage/Catalog.h\<close>, \<open>optimizer/Optimizer.cpp\<close>.
  \<^item> \<open>BPlusTree\<close>, \<open>IndexScan\<close>: \<open>index/BPlusTree.cpp\<close>; the second holds the theorems on searches and range scans in trees
    of any height.
  \<^item> \<open>LogManager\<close>, \<open>Recovery\<close>: \<open>recovery/LogManager.cpp\<close>, \<open>recovery/Recovery.cpp\<close>.
  \<^item> \<open>LockManager\<close>, \<open>Transaction\<close>: \<open>transaction/LockManager.cpp\<close>, \<open>transaction/Transaction.cpp\<close>.
  \<^item> \<open>Engine\<close>: \<open>main.cpp\<close>, the class \<open>MiniDB\<close> and the function \<open>main\<close>.

  \<^bold>\<open>How the code is read\<close>

  A class is a record of its members and a method a function from the old state to the new; a pointer to another
  component is that component's state, threaded through.  A C++ exception is a value \<open>Inl e\<close>.  An access outside an
  object, an access through an invalidated reference and a signed overflow are the value
  \<open>Inl (UndefinedBehaviour _)\<close>, so that a theorem that an operation returns \<open>Inr\<close> also says that it is free of them.
  \<open>char\<close> and \<open>std::string\<close> are bytes and byte lists; the host is little-endian with 32-bit \<open>int\<close>.  Unsigned integers are
  natural numbers with the wrap-around written at every computation and cast that can leave the range; \<open>int\<close> is an
  integer whose range is checked where a counter can leave it: file identifiers, pin counts, transaction numbers,
  counts of printed and deleted rows.  Sizes and positions inside a tree or a page are bounded by what is
  stored there and are not checked, nor are the 64-bit statistics of the buffer pool.  Page keys are 64-bit words.  \<open>double\<close> estimates of the
  optimizer are real numbers.  Hash maps are maps, or association lists where their iteration order shows.

  Parameters stand for what the sources do not determine: which paths the system can open (\<open>dm_openable\<close>, \<open>can_open\<close>),
  the initial files, the growth policy of \<open>std::vector\<close> (\<open>grow\<close>), and how much of a stream buffer reached the disk at
  a crash.  The lock manager is a step relation: each part of an operation between acquiring and releasing the
  mutex (or waiting on the condition variable) is one atomic step, and the theorems hold for every interleaving.  The
  other mutexes protect components the program uses from one thread and are not modelled.

  \<^bold>\<open>Interfaces\<close>

  Each component that others rely on has a locale with its laws, interpreted on the model's own definitions:
  \<open>codec\<close> (integers, strings, values, log records), \<open>page_cache\<close> (the buffer pool, for the page manager), \<open>heap_file\<close> (the page
  manager, for the executors and recovery), \<open>index_map\<close> (the B+ tree), \<open>lock_service\<close> (the lock manager, for transactions) and
  \<open>iterator\<close> (the operators, for their consumers).

  \<^bold>\<open>What is shown\<close>

  \<^item> Parsing: printing and parsing back is the identity on statements whose names are not keywords and whose values
    are words or digits (texts with spaces are printed without quotes); any input gives a statement or a parse
    error, and the parser never reads past its tokens.
  \<^item> Storage: the pool shows the latest contents of every page, never evicts a pinned page, loses no write, and
    flushing makes the disk equal to what clients saw.  A heap file implements a finite map from record identifiers
    to byte strings: insertion, reading, deletion and scanning are operations of that map.
  \<^item> Tuples and log records are read back from their bytes; after a crash the log is a prefix of what was
    appended that contains everything flushed, and sequence numbers increase, over any number of restarts that
    each found the file ending with a complete record.  A restart on a torn record is different: \<open>open\<close> appends after
    the torn bytes, and \<open>torn_tail_loses_commit\<close> shows that a commit made then is not read back.
  \<^item> Index: within the capacity of one leaf the tree is a finite map.  Beyond it, the first split uses a reference that
    the growth of the node vector has invalidated.  Searches and range scans are right on every well-formed tree
    of linked leaves, whatever its height.
  \<^item> Locks and transactions: mutual exclusion under every interleaving; a lock is kept until a commit or abort of its
    transaction or an explicit unlock; commit and abort drop exactly the requests of their transaction; if only
    active transactions ask for locks, only active ones hold them.  The deadlock detector decides reachability of a
    cycle in its graph, and misses a deadlock because the graph is incomplete.
  \<^item> Operators: draining an operator tree gives exactly the tuples it stands for, within a bound; scans, joins,
    insertions and deletions have their relational meaning on the rows of tables.
  \<^item> Engine: a session refines the contract \<open>sql_spec\<close> on named multisets of typed rows, with every answer and every
    error message, as long as the resources named in \<open>room_for\<close> last; at the end of its input the loop goes on.
  \<^item> Recovery: the analysis of the log, and that redo and undo are the stated actions on the heap files; redo is not
    idempotent, and the log the engine writes contains nothing to redo.

  \<^bold>\<open>Fuel and bounds\<close>

  Loops over a finite structure are structural or have a measure.  The others carry fuel.  \<open>exec_next\<close> has
  \<open>next_fuel\<close>, the depth of the operator tree plus the tuples its leaves still hold: a filter consumes a tuple in
  every turn; \<open>exec_next_spec\<close> shows it is enough.  \<open>drain\<close> and \<open>print_rows\<close> have one more than the tuples left
  (\<open>drain_all_rows\<close>, \<open>print_rows_spec\<close>).  \<open>repl_run\<close> counts turns of the loop of \<open>main\<close>: \<open>session_refines_spec\<close> shows that one turn
  per line ends a session with an exit command, and \<open>repl_ignores_end_of_input\<close> that the program is still running after
  any number of turns when the input has none.
  \<open>detectCycle\<close> has one call per node of the graph (\<open>hasDeadlock_iff_cycle\<close>).  The walks over the B+ tree have one turn per node;
  \<open>rangeScan_correct\<close> shows that it is enough on well-formed trees.
  3576 is the room for tuples in an empty page (4096 minus the header of 520 bytes); 4294967295 is the invalid
  page number; an index of order 128 has at most 127 keys in its leaf.

  \<^bold>\<open>Not modelled\<close>

  Destructors and the freeing of memory, other than the flush of \<open>~MiniDB\<close>; failures of the file system after a file
  was opened (reads and writes of open streams succeed); the hash functions; the rounding of \<open>double\<close>; threads other
  than those of the lock manager; the undefined behaviour of the \<open>cctype\<close> functions on negative characters (see \<open>StdLib\<close>); what a
  statement that ends the program with an exception printed before it did.  The build, benchmark and documentation files hold no code of the program.
\<close>

end
